(* ===== verification/Prelude.thy ===== *)
theory Prelude
  imports Main "HOL-Library.AList" "HOL-Library.Word"
begin

text \<open>
  Shared vocabulary of the development: the machine types of \<^verbatim>\<open>include/core/Types.h\<close>,
  the collections of rewrite rules the component theories fill, and the generic facts on lists,
  association lists and machine words that several components use.

  A \<^verbatim>\<open>std::unordered_map\<close> is an association list with distinct keys: the program never
  iterates over one, so only lookup, insertion, erasure and size matter. \<^verbatim>\<open>size_t\<close> values
  that only count container elements are natural numbers.
\<close>

section \<open>Machine types\<close>

type_synonym OrderId = "64 word"
type_synonym Quantity = "32 word"
type_synonym Timestamp = "64 word"
type_synonym uint64 = "64 word"

text \<open>
  \<^verbatim>\<open>now_ns()\<close> reads the monotonic clock of the host. The clock belongs to the environment: an
  operation that reads it takes \<open>now\<close>, where \<open>now k\<close> is the \<open>k\<close>-th reading made by that call.
\<close>

type_synonym clock = "nat \<Rightarrow> Timestamp"

section \<open>Collections of facts\<close>

named_theorems double_cmp \<open>comparisons of doubles in terms of their rank\<close>
named_theorems book_frame \<open>fields an order book operation leaves alone\<close>
named_theorems pool_simps \<open>effect of the pool operations on storage and free list\<close>

section \<open>Lists\<close>

lemma takeWhile_none: "\<forall>x \<in> set xs. \<not> P x \<Longrightarrow> takeWhile P xs = []"
  and dropWhile_none: "\<forall>x \<in> set xs. \<not> P x \<Longrightarrow> dropWhile P xs = xs"
  by (cases xs; simp)+

lemma remove1_mid: "x \<notin> set xs \<Longrightarrow> remove1 x (xs @ x # ys) = xs @ ys"
  by (simp add: remove1_append)

lemma concat_map_snd_mid:
  "concat (map snd (xs @ (k, v) # ys)) = concat (map snd xs) @ v @ concat (map snd ys)"
  by simp

lemma sorted_wrt_remove1: "sorted_wrt P xs \<Longrightarrow> sorted_wrt P (remove1 x xs)"
  by (induction xs) (auto dest: notin_set_remove1 set_remove1_subset [THEN subsetD])

lemma sorted_wrt_map_mono:
  "sorted_wrt P (map f xs) \<Longrightarrow> (\<And>x y. x \<in> set xs \<Longrightarrow> y \<in> set xs \<Longrightarrow> P (f x) (f y) \<Longrightarrow> Q (g x) (g y))
   \<Longrightarrow> sorted_wrt Q (map g xs)"
  unfolding sorted_wrt_map by (rule sorted_wrt_mono_rel)

lemma filter_neq_remove1: "distinct xs \<Longrightarrow> filter (\<lambda>y. y \<noteq> x) xs = remove1 x xs"
  by (induction xs) (auto simp: filter_id_conv)

lemma filter_map_same: "\<not> P y \<Longrightarrow> filter P (map (\<lambda>x. if \<not> P x then y else x) xs) = filter P xs"
  by (induction xs) auto

text \<open>\<open>insert_after P x xs\<close> puts \<open>x\<close> behind the longest prefix of \<open>xs\<close> that satisfies \<open>P\<close>.\<close>

definition insert_after :: "('a \<Rightarrow> bool) \<Rightarrow> 'a \<Rightarrow> 'a list \<Rightarrow> 'a list" where
  "insert_after P x xs = takeWhile P xs @ x # dropWhile P xs"

lemma set_insert_after [simp]: "set (insert_after P x xs) = insert x (set xs)"
proof -
  have "set xs = set (takeWhile P xs) \<union> set (dropWhile P xs)"
    by (metis set_append takeWhile_dropWhile_id)
  then show ?thesis by (auto simp: insert_after_def)
qed

lemma distinct_insert_after [simp]: "distinct (insert_after P x xs) \<longleftrightarrow> distinct xs \<and> x \<notin> set xs"
proof -
  have "distinct (ys @ x # zs) \<longleftrightarrow> distinct (ys @ zs) \<and> x \<notin> set (ys @ zs)" for ys zs by auto
  from this [of "takeWhile P xs" "dropWhile P xs"] show ?thesis by (simp add: insert_after_def)
qed

lemma filter_insert_after: "\<not> R x \<Longrightarrow> filter R (insert_after P x xs) = filter R xs"
  unfolding insert_after_def by (metis filter.simps(2) filter_append takeWhile_dropWhile_id)

lemma insert_after_cong:
  "(\<And>y. y \<in> set xs \<Longrightarrow> P y \<longleftrightarrow> Q y) \<Longrightarrow> insert_after P x xs = insert_after Q x xs"
  unfolding insert_after_def by (metis dropWhile_cong takeWhile_cong)

lemma map_insert_after: "map f (insert_after (\<lambda>y. P (f y)) x xs) = insert_after P (f x) (map f xs)"
  by (simp add: insert_after_def takeWhile_map dropWhile_map comp_def)

lemma remove1_insert_after: "x \<notin> set xs \<Longrightarrow> remove1 x (insert_after P x xs) = xs"
  unfolding insert_after_def by (subst remove1_mid) (auto dest: set_takeWhileD)

section \<open>Words\<close>

lemma unat_bound: "unat (w :: 'a::len word) < 2 ^ LENGTH('a)"
  by (rule unsigned_less)

lemma unat_sum_list: "unat (\<Sum>x \<leftarrow> xs. f x :: 'a::len word) = (\<Sum>x \<leftarrow> xs. unat (f x)) mod 2 ^ LENGTH('a)"
  by (induction xs) (simp_all add: unat_word_ariths mod_simps)

lemma less_plus_1: "(w::'a::len word) + 1 \<noteq> 0 \<Longrightarrow> w < w + 1"
  by unat_arith

text \<open>A counter that is not at its end.\<close>

lemma unat_suc:
  fixes a :: "64 word"
  assumes "unat a + 1 < 2 ^ 64"
  shows "unat (a + 1) = unat a + 1" and "a + 1 \<noteq> 0"
proof -
  show suc: "unat (a + 1) = unat a + 1" using assms by (simp add: unat_word_ariths)
  then show "a + 1 \<noteq> 0" by (metis unat_0 add_is_0 one_neq_zero)
qed

end
