(* ===== verification/Double.thy ===== *)
theory Double
  imports Prelude
begin

text \<open>
  The \<^verbatim>\<open>double\<close> of the program (\<^verbatim>\<open>using Price = double\<close>) as IEEE 754 binary64: a sign bit and
  a 63-bit magnitude field (11 exponent bits, 52 fraction bits). Comparisons are defined on the
  representation and are the C++ ones, false whenever an operand is a NaN. Arithmetic is the exact
  result rounded to nearest, ties to even; every finite value is an integer multiple of
  $2^{-1074}$, so exact results are integers or ratios of integers in that unit.

  All NaNs an operation creates are the same quiet NaN: the program never inspects a NaN payload.
\<close>

datatype double = Double (sign_bit: bool) (mag: "63 word")

type_synonym Price = double

section \<open>Classification and comparison\<close>

definition inf_mag :: "63 word" where
  "inf_mag = 0x7FF0000000000000"

definition is_nan :: "double \<Rightarrow> bool" where
  "is_nan d \<longleftrightarrow> inf_mag < mag d"

definition is_inf :: "double \<Rightarrow> bool" where
  "is_inf d \<longleftrightarrow> mag d = inf_mag"

text \<open>
  \<open>rank\<close> orders the doubles that are not NaN: the magnitude field read as an integer grows with
  the absolute value, infinities last. Both zeros have rank 0.
\<close>

definition rank :: "double \<Rightarrow> int" where
  "rank d = (if sign_bit d then - uint (mag d) else uint (mag d))"

definition dlt :: "double \<Rightarrow> double \<Rightarrow> bool" where
  "dlt a b \<longleftrightarrow> \<not> is_nan a \<and> \<not> is_nan b \<and> rank a < rank b"

definition dle :: "double \<Rightarrow> double \<Rightarrow> bool" where
  "dle a b \<longleftrightarrow> \<not> is_nan a \<and> \<not> is_nan b \<and> rank a \<le> rank b"

definition dgt :: "double \<Rightarrow> double \<Rightarrow> bool" where
  "dgt a b \<longleftrightarrow> dlt b a"

definition dge :: "double \<Rightarrow> double \<Rightarrow> bool" where
  "dge a b \<longleftrightarrow> dle b a"

definition deq :: "double \<Rightarrow> double \<Rightarrow> bool" where
  "deq a b \<longleftrightarrow> \<not> is_nan a \<and> \<not> is_nan b \<and> rank a = rank b"

section \<open>Constants\<close>

definition dzero :: double where
  "dzero = Double False 0"

definition dinf :: double where
  "dinf = Double False inf_mag"

definition dnan :: double where
  "dnan = Double False 0x7FF8000000000000"

text \<open>\<^verbatim>\<open>std::numeric_limits<double>::max()\<close>, the largest finite double.\<close>

definition dbl_max :: double where
  "dbl_max = Double False 0x7FEFFFFFFFFFFFFF"

section \<open>Rounding and arithmetic\<close>

definition round_half_even :: "nat \<Rightarrow> nat \<Rightarrow> nat" where
  "round_half_even n d =
     (let q = n div d; r = n mod d
      in if 2 * r < d \<or> 2 * r = d \<and> even q then q else q + 1)"

fun bit_len :: "nat \<Rightarrow> nat" where
  "bit_len n = (if n = 0 then 0 else Suc (bit_len (n div 2)))"

declare bit_len.simps [simp del]

text \<open>
  The magnitude field of \<open>n / d\<close> units, rounded. With \<open>s\<close> the number of bits by which the integer
  part exceeds 53 bits, the significand is a multiple of \<open>2 ^ s\<close>; adding \<open>s * 2 ^ 52\<close> to the
  significand sets the exponent field and carries into it when rounding reaches \<open>2 ^ 53\<close>.
\<close>

definition round_ratio :: "nat \<Rightarrow> nat \<Rightarrow> nat" where
  "round_ratio n d =
     (let s = bit_len (n div d) - 53
      in s * 2 ^ 52 + round_half_even n (d * 2 ^ s))"

definition pack :: "bool \<Rightarrow> nat \<Rightarrow> double" where
  "pack s m = Double s (if unat inf_mag \<le> m then inf_mag else of_nat m)"

definition of_ratio :: "bool \<Rightarrow> nat \<Rightarrow> nat \<Rightarrow> double" where
  "of_ratio s n d = pack s (round_ratio n d)"

text \<open>The absolute value of a finite double, in units of $2^{-1074}$.\<close>

definition units :: "double \<Rightarrow> nat" where
  "units d =
     (let e = unat (mag d) div 2 ^ 52; f = unat (mag d) mod 2 ^ 52
      in if e = 0 then f else (f + 2 ^ 52) * 2 ^ (e - 1))"

definition signed_units :: "double \<Rightarrow> int" where
  "signed_units d = (if sign_bit d then - int (units d) else int (units d))"

abbreviation one_units :: nat where
  "one_units \<equiv> 2 ^ 1074"

definition dneg :: "double \<Rightarrow> double" where
  "dneg d = Double (\<not> sign_bit d) (mag d)"

definition dadd :: "double \<Rightarrow> double \<Rightarrow> double" where
  "dadd a b =
     (if is_nan a \<or> is_nan b then dnan
      else if is_inf a then (if is_inf b \<and> sign_bit a \<noteq> sign_bit b then dnan else a)
      else if is_inf b then b
      else let s = signed_units a + signed_units b
           in if s = 0 then Double (sign_bit a \<and> sign_bit b) 0
              else of_ratio (s < 0) (nat \<bar>s\<bar>) 1)"

definition dsub :: "double \<Rightarrow> double \<Rightarrow> double" where
  "dsub a b = (if is_nan b then dnan else dadd a (dneg b))"

definition dmul :: "double \<Rightarrow> double \<Rightarrow> double" where
  "dmul a b =
     (let s = (sign_bit a \<noteq> sign_bit b)
      in if is_nan a \<or> is_nan b then dnan
         else if is_inf a \<or> is_inf b
         then (if units a = 0 \<and> \<not> is_inf a \<or> units b = 0 \<and> \<not> is_inf b then dnan else Double s inf_mag)
         else of_ratio s (units a * units b) one_units)"

definition ddiv :: "double \<Rightarrow> double \<Rightarrow> double" where
  "ddiv a b =
     (let s = (sign_bit a \<noteq> sign_bit b)
      in if is_nan a \<or> is_nan b then dnan
         else if is_inf a then (if is_inf b then dnan else Double s inf_mag)
         else if is_inf b then Double s 0
         else if units b = 0 then (if units a = 0 then dnan else Double s inf_mag)
         else of_ratio s (units a * one_units) (units b))"

text \<open>\<^verbatim>\<open>std::round\<close>: the nearest integer, halfway cases away from zero. \<^verbatim>\<open>std::max\<close>: the second argument only if
  the first is less.\<close>

definition dround :: "double \<Rightarrow> double" where
  "dround d =
     (if is_nan d \<or> is_inf d then d
      else of_ratio (sign_bit d) ((2 * units d + one_units) div (2 * one_units) * one_units) 1)"

definition dmax :: "double \<Rightarrow> double \<Rightarrow> double" where
  "dmax a b = (if dlt a b then b else a)"

text \<open>Conversions from integers, and the double a decimal literal \<open>n / d\<close> of the source denotes.\<close>

definition of_uint :: "'a::len word \<Rightarrow> double" where
  "of_uint w = of_ratio False (unat w * one_units) 1"

definition of_sint :: "'a::len word \<Rightarrow> double" where
  "of_sint w = of_ratio (sint w < 0) (nat \<bar>sint w\<bar> * one_units) 1"

definition dlit :: "nat \<Rightarrow> nat \<Rightarrow> double" where
  "dlit n d = of_ratio False (n * one_units) d"

section \<open>Comparison lemmas\<close>

text \<open>Between doubles that are not NaN every comparison is the comparison of the ranks.\<close>

lemma cmp_rank [double_cmp]:
  assumes "\<not> is_nan a" and "\<not> is_nan b"
  shows "dlt a b \<longleftrightarrow> rank a < rank b" "dle a b \<longleftrightarrow> rank a \<le> rank b"
    "dgt a b \<longleftrightarrow> rank b < rank a" "dge a b \<longleftrightarrow> rank b \<le> rank a"
    "deq a b \<longleftrightarrow> rank a = rank b"
  using assms by (simp_all add: dlt_def dle_def dgt_def dge_def deq_def)

lemma nan_cmp [simp]:
  assumes "is_nan a \<or> is_nan b"
  shows "\<not> dlt a b" "\<not> dle a b" "\<not> dgt a b" "\<not> dge a b" "\<not> deq a b"
  using assms by (auto simp: dlt_def dle_def dgt_def dge_def deq_def)

lemma rank_consts [simp]:
  "rank dzero = 0" "rank dbl_max = 0x7FEFFFFFFFFFFFFF" "rank dinf = 0x7FF0000000000000"
  by (simp_all add: rank_def dzero_def dbl_max_def dinf_def inf_mag_def)

lemma consts_not_nan [simp]: "\<not> is_nan dzero" "\<not> is_nan dbl_max" "\<not> is_nan dinf" "is_nan dnan"
  by (simp_all add: is_nan_def dzero_def dbl_max_def dinf_def dnan_def inf_mag_def)

text \<open>A double that is not NaN and not positive infinity is at most the largest finite double.\<close>

lemma rank_le_dbl_max:
  assumes "\<not> is_nan d" and "d \<noteq> dinf"
  shows "rank d \<le> rank dbl_max"
proof (cases d)
  case (Double s m)
  have "uint m \<le> uint inf_mag"
    using assms(1) Double by (simp add: is_nan_def word_le_def not_less)
  moreover have "s \<or> uint m \<noteq> uint inf_mag"
    using assms(2) Double by (auto simp: dinf_def word_uint_eq_iff)
  moreover have "- uint m \<le> 0x7FEFFFFFFFFFFFFF"
    by (rule order_trans [of _ 0]) simp_all
  ultimately have "(if s then - uint m else uint m) \<le> 0x7FEFFFFFFFFFFFFF"
    by (cases s) (simp_all add: inf_mag_def)
  then show ?thesis
    using Double by (simp add: rank_def dbl_max_def split: if_splits)
qed

section \<open>When results are numbers\<close>

definition finite_double :: "double \<Rightarrow> bool" where
  "finite_double d \<longleftrightarrow> \<not> is_nan d \<and> \<not> is_inf d"

lemma pack_not_nan [simp]: "\<not> is_nan (pack s m)"
proof -
  have "(of_nat m :: 63 word) \<le> inf_mag" if "m < unat inf_mag"
  proof -
    have "m < 2 ^ 63" using that unat_bound [of inf_mag] by simp
    then show ?thesis using that by (simp add: word_le_nat_alt unat_of_nat)
  qed
  then show ?thesis by (auto simp: is_nan_def pack_def not_less)
qed

lemma of_ratio_not_nan [simp]: "\<not> is_nan (of_ratio s n d)"
  by (simp add: of_ratio_def)

lemma dneg_simps [simp]: "is_nan (dneg d) = is_nan d" "is_inf (dneg d) = is_inf d" "finite_double (dneg d) = finite_double d"
  by (simp_all add: dneg_def is_nan_def is_inf_def finite_double_def)

lemma zero_not_nan [simp]: "\<not> is_nan (Double s 0)"
  by (simp add: is_nan_def inf_mag_def)

lemma inf_not_nan [simp]: "\<not> is_nan (Double s inf_mag)"
  by (simp add: is_nan_def)

lemma dadd_number: "\<not> is_nan a \<Longrightarrow> finite_double b \<Longrightarrow> \<not> is_nan (dadd a b)"
  by (simp add: dadd_def finite_double_def Let_def)

lemma dsub_number: "\<not> is_nan a \<Longrightarrow> finite_double b \<Longrightarrow> \<not> is_nan (dsub a b)"
  by (simp add: dsub_def dadd_number) (simp add: finite_double_def)

lemma units_zero: "units d = 0 \<longleftrightarrow> mag d = 0"
proof -
  have "unat (mag d) div 2 ^ 52 = 0 \<Longrightarrow> unat (mag d) mod 2 ^ 52 = unat (mag d)" by (simp add: div_eq_0_iff)
  then show ?thesis by (auto simp: units_def Let_def unat_eq_zero)
qed

text \<open>A factor or divisor that is not zero.\<close>

definition nonzero :: "double \<Rightarrow> bool" where
  "nonzero d \<longleftrightarrow> mag d \<noteq> 0"

lemma dmul_number:
  assumes "\<not> is_nan a" and "\<not> is_nan b" and "is_inf a \<Longrightarrow> nonzero b" and "is_inf b \<Longrightarrow> nonzero a"
  shows "\<not> is_nan (dmul a b)"
  using assms by (auto simp: dmul_def Let_def units_zero nonzero_def)

lemma ddiv_number: "\<not> is_nan a \<Longrightarrow> finite_double b \<Longrightarrow> nonzero b \<Longrightarrow> \<not> is_nan (ddiv a b)"
  by (auto simp: ddiv_def Let_def units_zero nonzero_def finite_double_def)

lemma dround_number: "\<not> is_nan a \<Longrightarrow> \<not> is_nan (dround a)"
  by (simp add: dround_def)

lemma nonzero_positive: "0 < rank d \<Longrightarrow> nonzero d"
  by (auto simp: rank_def nonzero_def split: if_splits)

section \<open>Literals\<close>

lemma bit_len_bound: "n < 2 ^ k \<Longrightarrow> bit_len n \<le> k"
proof (induction k arbitrary: n)
  case (Suc k)
  then have "n div 2 < 2 ^ k" by simp
  then show ?case using Suc.IH [of "n div 2"] by (subst bit_len.simps) simp
qed (simp add: bit_len.simps)

lemma bit_len_upper: "n < 2 ^ bit_len n"
proof (induction n rule: bit_len.induct)
  case (1 n)
  then show ?case by (subst bit_len.simps) (cases "n = 0", auto)
qed

lemma round_ratio_pos:
  assumes "0 < d" and "d \<le> n"
  shows "0 < round_ratio n d"
proof (cases "bit_len (n div d) - 53 = 0")
  case True
  have "0 < n div d" using assms by (simp add: div_greater_zero_iff)
  then show ?thesis using True by (auto simp: round_ratio_def round_half_even_def Let_def)
qed (simp add: round_ratio_def Let_def)

lemma units_bound:
  assumes "unat (mag d) < e * 2 ^ 52"
  shows "units d < 2 ^ (52 + e)"
proof -
  let ?e = "unat (mag d) div 2 ^ 52" and ?f = "unat (mag d) mod 2 ^ 52"
  have e: "?e < e" using assms by (simp add: less_mult_imp_div_less)
  have f: "?f < 2 ^ 52" by simp
  show ?thesis
  proof (cases "?e = 0")
    case True
    have "?f < 2 ^ (52 + e)" using f by (rule order_less_le_trans) (rule power_increasing, simp_all)
    with True show ?thesis by (simp add: units_def)
  next
    case False
    have "?f + 2 ^ 52 < 2 ^ 53" using f by simp
    then have "(?f + 2 ^ 52) * 2 ^ (?e - 1) < 2 ^ 53 * 2 ^ (?e - 1)" by (intro mult_strict_right_mono) simp_all
    also have "\<dots> = 2 ^ (53 + (?e - 1))" by (simp only: power_add)
    also have "\<dots> \<le> 2 ^ (52 + e)" using e False by (intro power_increasing) simp_all
    finally show ?thesis using False by (simp only: units_def Let_def if_False)
  qed
qed

lemma round_ratio_upper:
  assumes "0 < d" and "n div d < 2 ^ k" and "53 \<le> k"
  shows "round_ratio n d \<le> (k - 51) * 2 ^ 52"
proof -
  define s where "s = bit_len (n div d) - 53"
  have r: "round_ratio n d = s * 2 ^ 52 + round_half_even n (d * 2 ^ s)" by (simp add: round_ratio_def s_def Let_def)
  have s: "s \<le> k - 53" using bit_len_bound [OF assms(2)] by (simp add: s_def)
  have "n div d < 2 ^ (53 + s)"
    using bit_len_upper [of "n div d"] by (rule order_less_le_trans) (simp add: s_def)
  then have "n div d div 2 ^ s < 2 ^ 53" by (simp add: less_mult_imp_div_less power_add)
  then have "n div (d * 2 ^ s) < 2 ^ 53" by (simp add: div_mult2_eq)
  then have "round_half_even n (d * 2 ^ s) \<le> 2 * 2 ^ 52" by (auto simp: round_half_even_def Let_def)
  moreover have "s * 2 ^ 52 \<le> (k - 53) * 2 ^ 52" using s by (intro mult_right_mono) simp_all
  ultimately have "round_ratio n d \<le> (k - 53) * 2 ^ 52 + 2 * 2 ^ 52" unfolding r by (rule add_mono [rotated])
  also have "\<dots> = (k - 51) * 2 ^ 52" unfolding add_mult_distrib [symmetric] using assms(3) by simp
  finally show ?thesis .
qed

lemma of_ratio_finite:
  assumes "0 < d" and "n div d < 2 ^ k" and "53 \<le> k" and "k \<le> 2000"
  shows "of_ratio s n d = Double s (of_nat (round_ratio n d))" "unat (mag (of_ratio s n d)) = round_ratio n d"
    "finite_double (of_ratio s n d)" "units (of_ratio s n d) < 2 ^ (k + 2)"
proof -
  have inf: "unat inf_mag = 2047 * 2 ^ 52" by (simp add: inf_mag_def)
  have le: "round_ratio n d \<le> (k - 51) * 2 ^ 52" by (rule round_ratio_upper [OF assms(1-3)])
  also have "\<dots> < 2047 * 2 ^ 52" using assms(4) by (intro mult_strict_right_mono) simp_all
  finally have lt: "round_ratio n d < unat inf_mag" unfolding inf .
  then show lit: "of_ratio s n d = Double s (of_nat (round_ratio n d))" by (simp add: of_ratio_def pack_def)
  show m: "unat (mag (of_ratio s n d)) = round_ratio n d"
    using lt unat_bound [of inf_mag] by (simp add: lit unat_of_nat)
  then have "mag (of_ratio s n d) < inf_mag" using lt by (simp add: word_less_nat_alt)
  then show "finite_double (of_ratio s n d)" by (auto simp: finite_double_def is_nan_def is_inf_def)
  have "unat (mag (of_ratio s n d)) < (k - 50) * 2 ^ 52" unfolding m using le
    by (rule order_le_less_trans) (use assms(3) in \<open>intro mult_strict_right_mono, simp_all\<close>)
  from units_bound [OF this] show "units (of_ratio s n d) < 2 ^ (k + 2)" using assms(3) by simp
qed

lemma dlit_number:
  assumes "0 < d" and "n < 2 ^ 20"
  shows "finite_double (dlit n d)" "units (dlit n d) < 2 ^ (1074 + 22)"
    "d \<le> n * one_units \<Longrightarrow> nonzero (dlit n d) \<and> 0 < rank (dlit n d)"
proof -
  have "n * one_units div d \<le> n * one_units" by (rule div_le_dividend)
  also have "n * one_units < 2 ^ 20 * one_units" using assms(2) by (intro mult_strict_right_mono) simp_all
  finally have lt: "n * one_units div d < 2 ^ (20 + 1074)" by (simp only: power_add)
  note fin = of_ratio_finite [OF assms(1) lt, of False, folded dlit_def]
  show "finite_double (dlit n d)" "units (dlit n d) < 2 ^ (1074 + 22)" using fin(3,4) by simp_all
  assume "d \<le> n * one_units"
  then have "0 < unat (mag (dlit n d))" using round_ratio_pos [OF assms(1)] fin(2) by simp
  then have "mag (dlit n d) \<noteq> 0" by auto
  moreover from this have "0 < uint (mag (dlit n d))" by (metis less_le unsigned_eq_0_iff unsigned_greater_eq)
  ultimately show "nonzero (dlit n d) \<and> 0 < rank (dlit n d)" using fin(1) by (simp add: nonzero_def rank_def)
qed

text \<open>A product of finite doubles that are not too large is finite.\<close>

lemma dmul_finite:
  assumes "finite_double a" "finite_double b" "units a < 2 ^ (1074 + j)" "units b < 2 ^ (1074 + k)" "j + k \<le> 800"
  shows "finite_double (dmul a b)"
proof -
  have "units a * units b < 2 ^ (1074 + j) * 2 ^ (1074 + k)"
    using assms(3,4) by (intro mult_strict_mono') simp_all
  also have "\<dots> = 2 ^ (1074 + (j + k)) * one_units" unfolding power_add [symmetric] by (simp add: algebra_simps)
  finally have "units a * units b div one_units < 2 ^ (1074 + (j + k))" by (rule less_mult_imp_div_less)
  from of_ratio_finite(3) [OF _ this] assms show ?thesis
    by (simp add: dmul_def finite_double_def Let_def)
qed

lemma of_sint_finite:
  fixes w :: "64 word"
  shows "finite_double (of_sint w)" "units (of_sint w) < 2 ^ (1074 + 66)"
proof -
  have "\<bar>sint w\<bar> \<le> 2 ^ 63" using sint_ge [of w] sint_lt [of w] by simp
  then have "nat \<bar>sint w\<bar> < 2 ^ 64" by simp
  then have "nat \<bar>sint w\<bar> * one_units < 2 ^ 64 * one_units" by (intro mult_strict_right_mono) simp_all
  then have lt: "nat \<bar>sint w\<bar> * one_units div 1 < 2 ^ (64 + 1074)" by (simp only: power_add div_by_1)
  show "finite_double (of_sint w)" unfolding of_sint_def by (rule of_ratio_finite(3) [OF _ lt]) simp_all
  show "units (of_sint w) < 2 ^ (1074 + 66)" unfolding of_sint_def using of_ratio_finite(4) [OF _ lt] by simp
qed

lemma of_ratio_pos:
  assumes "0 < d" and "d \<le> n"
  shows "0 < rank (of_ratio False n d)"
proof (cases "unat inf_mag \<le> round_ratio n d")
  case True
  then show ?thesis by (simp add: of_ratio_def pack_def rank_def inf_mag_def)
next
  case False
  then have "unat (of_nat (round_ratio n d) :: 63 word) = round_ratio n d"
    using unat_bound [of inf_mag] by (simp add: unat_of_nat)
  then have "0 < uint (of_nat (round_ratio n d) :: 63 word)"
    using round_ratio_pos [OF assms] unfolding uint_nat by linarith
  with False show ?thesis by (simp add: of_ratio_def pack_def rank_def)
qed

lemma dadd_zero_pos:
  assumes "finite_double x" and "0 < rank x"
  shows "0 < rank (dadd x dzero)"
proof -
  have "\<not> sign_bit x" "0 < units x"
    using assms(2) units_zero [of x] nonzero_positive [OF assms(2)] by (auto simp: rank_def nonzero_def split: if_splits)
  moreover have "units dzero = 0" "\<not> is_inf dzero" by (simp_all add: units_def dzero_def is_inf_def inf_mag_def)
  ultimately show ?thesis
    using assms(1) by (simp add: dadd_def finite_double_def signed_units_def Let_def of_ratio_pos)
qed

end
