(* ===== verification/Types.thy ===== *)
theory Types
  imports Double
begin

text \<open>
  The vocabulary of \<^verbatim>\<open>include/core/Types.h\<close> and the two structs of \<^verbatim>\<open>include/core/Order.h\<close>.

  \<^verbatim>\<open>Side\<close> and \<^verbatim>\<open>OrderType\<close> are \<^verbatim>\<open>enum class : uint8_t\<close>, so an object of such a type can hold
  any of the 256 byte values, and the socket layer copies them from the wire unchecked. The
  constructors \<open>OtherSide\<close> and \<open>OtherType\<close> carry the byte values that name no enumerator.
\<close>

section \<open>Enumerations\<close>

datatype Side = Buy | Sell | OtherSide "8 word"

datatype OrderType = Limit | Market | IOC | OtherType "8 word"

datatype OrderStatus = Accepted | Filled | PartiallyFilled | Cancelled | Rejected

definition to_string_Side :: "Side \<Rightarrow> string" where
  "to_string_Side side = (if side = Buy then ''BUY'' else ''SELL'')"

fun to_string_OrderType :: "OrderType \<Rightarrow> string" where
  "to_string_OrderType Limit = ''LIMIT''"
| "to_string_OrderType Market = ''MARKET''"
| "to_string_OrderType IOC = ''IOC''"
| "to_string_OrderType (OtherType b) = ''UNKNOWN''"

fun to_string_OrderStatus :: "OrderStatus \<Rightarrow> string" where
  "to_string_OrderStatus Accepted = ''ACCEPTED''"
| "to_string_OrderStatus Filled = ''FILLED''"
| "to_string_OrderStatus PartiallyFilled = ''PARTIAL''"
| "to_string_OrderStatus Cancelled = ''CANCELLED''"
| "to_string_OrderStatus Rejected = ''REJECTED''"

section \<open>Orders and trades\<close>

record Order =
  o_id :: OrderId
  o_price :: Price
  o_quantity :: Quantity
  o_remaining_qty :: Quantity
  o_timestamp :: Timestamp
  o_side :: Side
  o_type :: OrderType
  o_status :: OrderStatus

text \<open>\<^verbatim>\<open>emplace_back()\<close> value-initialises an \<^verbatim>\<open>Order\<close> whose default constructor is defaulted: every
  field is zero.\<close>

definition Order_zero :: Order where
  "Order_zero = \<lparr>o_id = 0, o_price = dzero, o_quantity = 0, o_remaining_qty = 0, o_timestamp = 0,
     o_side = Buy, o_type = Limit, o_status = Accepted\<rparr>"

definition Order_new :: "Timestamp \<Rightarrow> OrderId \<Rightarrow> Side \<Rightarrow> OrderType \<Rightarrow> Price \<Rightarrow> Quantity \<Rightarrow> Order" where
  "Order_new now id' side ty price quantity =
     \<lparr>o_id = id', o_price = price, o_quantity = quantity, o_remaining_qty = quantity,
      o_timestamp = now, o_side = side, o_type = ty, o_status = Accepted\<rparr>"

definition filled_qty :: "Order \<Rightarrow> Quantity" where
  "filled_qty ord = o_quantity ord - o_remaining_qty ord"

definition is_filled :: "Order \<Rightarrow> bool" where
  "is_filled ord \<longleftrightarrow> o_remaining_qty ord = 0"

record Trade =
  t_buy_order_id :: OrderId
  t_sell_order_id :: OrderId
  t_price :: Price
  t_quantity :: Quantity
  t_timestamp :: Timestamp

lemma Order_new_fields [simp]:
  "o_id (Order_new now i sd ty p q) = i" "o_price (Order_new now i sd ty p q) = p"
  "o_quantity (Order_new now i sd ty p q) = q" "o_remaining_qty (Order_new now i sd ty p q) = q"
  "o_side (Order_new now i sd ty p q) = sd" "o_type (Order_new now i sd ty p q) = ty"
  "o_timestamp (Order_new now i sd ty p q) = now" "o_status (Order_new now i sd ty p q) = Accepted"
  by (simp_all add: Order_new_def)

end
