(* ===== verification/ObjectPool.thy ===== *)
theory ObjectPool
  imports Prelude
begin

text \<open>
  \<^verbatim>\<open>include/core/ObjectPool.h\<close>: the deque of objects and the vector of free slots. A pointer into
  the deque is the position of its object, which never changes because the deque only grows at its
  end. Dereferencing is list indexing, so nothing is known of a pointer outside the storage, as in
  C++.

  The locale \<open>allocator\<close> is the contract the order book relies on: an acquired slot is not in use,
  and acquiring, releasing or writing one slot leaves the objects of the other slots in use alone.
\<close>

section \<open>The pool\<close>

type_synonym pointer = nat

record 'a ObjectPool =
  storage :: "'a list"
  free_list :: "pointer list"

text \<open>The constructor's loop, and the constructor. \<open>dflt\<close> is the value-initialised object.\<close>

fun pool_fill :: "'a \<Rightarrow> nat \<Rightarrow> 'a ObjectPool \<Rightarrow> 'a ObjectPool" where
  "pool_fill dflt 0 pool = pool"
| "pool_fill dflt (Suc n) pool =
     (let st = storage pool @ [dflt]
      in pool_fill dflt n (pool\<lparr>storage := st, free_list := free_list pool @ [length st - 1]\<rparr>))"

definition pool_new :: "'a \<Rightarrow> nat \<Rightarrow> 'a ObjectPool" where
  "pool_new dflt initial_capacity = pool_fill dflt initial_capacity \<lparr>storage = [], free_list = []\<rparr>"

definition acquire :: "'a \<Rightarrow> 'a ObjectPool \<Rightarrow> pointer \<times> 'a ObjectPool" where
  "acquire dflt pool =
     (if free_list pool = []
      then (let st = storage pool @ [dflt] in (length st - 1, pool\<lparr>storage := st\<rparr>))
      else (last (free_list pool), pool\<lparr>free_list := butlast (free_list pool)\<rparr>))"

definition release :: "pointer \<Rightarrow> 'a ObjectPool \<Rightarrow> 'a ObjectPool" where
  "release ptr pool = pool\<lparr>free_list := free_list pool @ [ptr]\<rparr>"

definition active_count :: "'a ObjectPool \<Rightarrow> uint64" where
  "active_count pool = of_nat (length (storage pool)) - of_nat (length (free_list pool))"

definition capacity :: "'a ObjectPool \<Rightarrow> nat" where
  "capacity pool = length (storage pool)"

text \<open>Reading and writing an object through a pointer: \<^verbatim>\<open>*ptr\<close> and \<^verbatim>\<open>*ptr = x\<close>.\<close>

definition deref :: "'a ObjectPool \<Rightarrow> pointer \<Rightarrow> 'a" where
  "deref pool ptr = storage pool ! ptr"

definition store :: "pointer \<Rightarrow> 'a \<Rightarrow> 'a ObjectPool \<Rightarrow> 'a ObjectPool" where
  "store ptr x pool = pool\<lparr>storage := (storage pool)[ptr := x]\<rparr>"

section \<open>The contract\<close>

locale allocator =
  fixes ok :: "'p \<Rightarrow> bool"
    and in_use :: "'p \<Rightarrow> pointer set"
    and get :: "'p \<Rightarrow> pointer \<Rightarrow> 'a"
    and put :: "pointer \<Rightarrow> 'a \<Rightarrow> 'p \<Rightarrow> 'p"
    and alloc :: "'p \<Rightarrow> pointer \<times> 'p"
    and free :: "pointer \<Rightarrow> 'p \<Rightarrow> 'p"
  assumes alloc_fresh: "ok p \<Longrightarrow> alloc p = (i, p') \<Longrightarrow> i \<notin> in_use p \<and> in_use p' = insert i (in_use p)"
    and alloc_get: "ok p \<Longrightarrow> alloc p = (i, p') \<Longrightarrow> j \<in> in_use p \<Longrightarrow> get p' j = get p j"
    and alloc_ok: "ok p \<Longrightarrow> alloc p = (i, p') \<Longrightarrow> ok p'"
    and put_get: "ok p \<Longrightarrow> i \<in> in_use p \<Longrightarrow> get (put i x p) j = (if j = i then x else get p j)"
    and put_use: "in_use (put i x p) = in_use p"
    and put_ok: "ok p \<Longrightarrow> ok (put i x p)"
    and free_use: "ok p \<Longrightarrow> i \<in> in_use p \<Longrightarrow> in_use (free i p) = in_use p - {i}"
    and free_get: "get (free i p) j = get p j"
    and free_ok: "ok p \<Longrightarrow> i \<in> in_use p \<Longrightarrow> ok (free i p)"
begin

text \<open>What the client needs of one allocation followed by the initialisation of the object.\<close>

lemma alloc_put:
  assumes "ok p" and "alloc p = (i, p')"
  shows "ok (put i x p')" "in_use (put i x p') = insert i (in_use p)" "i \<notin> in_use p"
    "get (put i x p') i = x" "j \<in> in_use p \<Longrightarrow> get (put i x p') j = get p j"
proof -
  note fresh = alloc_fresh [OF assms]
  have ok': "ok p'" by (rule alloc_ok [OF assms])
  show "ok (put i x p')" by (rule put_ok [OF ok'])
  show "in_use (put i x p') = insert i (in_use p)" "i \<notin> in_use p"
    using fresh by (simp_all add: put_use)
  show "get (put i x p') i = x" using fresh put_get [OF ok'] by simp
  show "get (put i x p') j = get p j" if "j \<in> in_use p"
    using that fresh put_get [OF ok', of i x j] alloc_get [OF assms that] by auto
qed

text \<open>Allocating and giving back restores the set of slots in use and the objects in them.\<close>

lemma alloc_free:
  assumes "ok p" and "alloc p = (i, p')"
  shows "in_use (free i p') = in_use p" "j \<in> in_use p \<Longrightarrow> get (free i p') j = get p j"
  using alloc_fresh [OF assms] alloc_ok [OF assms] alloc_get [OF assms]
  by (auto simp: free_use free_get)

end

section \<open>The pool keeps the contract\<close>

definition pool_ok :: "'a ObjectPool \<Rightarrow> bool" where
  "pool_ok pool \<longleftrightarrow> distinct (free_list pool) \<and> set (free_list pool) \<subseteq> {..<length (storage pool)}"

definition in_use :: "'a ObjectPool \<Rightarrow> pointer set" where
  "in_use pool = {..<length (storage pool)} - set (free_list pool)"

lemma last_butlast_distinct:
  "distinct xs \<Longrightarrow> xs \<noteq> [] \<Longrightarrow> last xs \<notin> set (butlast xs) \<and> set xs = insert (last xs) (set (butlast xs))"
  by (induction xs rule: rev_induct) auto

lemma distinct_butlast': "distinct xs \<Longrightarrow> distinct (butlast xs)"
  by (induction xs rule: rev_induct) auto

interpretation pool: allocator pool_ok in_use deref store "acquire dflt" release for dflt :: 'a
proof (unfold_locales, goal_cases)
  case (1 p i p')
  then show ?case
    using last_butlast_distinct [of "free_list p"]
    by (cases "free_list p = []") (auto simp: acquire_def in_use_def pool_ok_def Let_def)
next
  case (2 p i p' j)
  then show ?case
    by (cases "free_list p = []")
      (auto simp: acquire_def in_use_def pool_ok_def Let_def deref_def nth_append)
next
  case (3 p i p')
  then show ?case
    using last_butlast_distinct [of "free_list p"] distinct_butlast' [of "free_list p"]
    by (cases "free_list p = []") (auto simp: acquire_def pool_ok_def Let_def)
qed (auto simp: pool_ok_def in_use_def deref_def store_def release_def nth_list_update)

text \<open>The constructor: every slot free, in order.\<close>

lemma pool_fill_eq:
  "pool_fill dflt n pool =
     pool\<lparr>storage := storage pool @ replicate n dflt,
       free_list := free_list pool @ [length (storage pool)..<length (storage pool) + n]\<rparr>"
proof (induction n arbitrary: pool)
  case (Suc n)
  have "[length (storage pool)..<length (storage pool) + Suc n] =
      length (storage pool) # [Suc (length (storage pool))..<length (storage pool) + Suc n]"
    by (rule upt_conv_Cons) simp
  then show ?case
    by (simp add: Suc.IH Let_def)
qed simp

lemma pool_new_eq: "pool_new dflt n = \<lparr>storage = replicate n dflt, free_list = [0..<n]\<rparr>"
  by (simp add: pool_new_def pool_fill_eq)

lemma pool_new_ok [simp]: "pool_ok (pool_new dflt n)" "in_use (pool_new dflt n) = {}"
  by (auto simp: pool_new_eq pool_ok_def in_use_def)

lemma card_in_use:
  assumes "pool_ok pool"
  shows "card (in_use pool) + length (free_list pool) = length (storage pool)"
proof -
  have "card (in_use pool) = card {..<length (storage pool)} - card (set (free_list pool))"
    unfolding in_use_def using assms by (intro card_Diff_subset) (auto simp: pool_ok_def)
  moreover have "card (set (free_list pool)) \<le> card {..<length (storage pool)}"
    using assms by (intro card_mono) (auto simp: pool_ok_def)
  ultimately show ?thesis
    using assms by (simp add: pool_ok_def distinct_card)
qed

end
