(* ===== verification/StdMap.thy ===== *)
theory StdMap
  imports Double
begin

text \<open>
  \<^verbatim>\<open>std::map<K, V, Compare>\<close> as the association list of its entries in iteration order. The
  operations find the lower bound of a key with the comparator, as the library does: skip the
  entries that compare less than the key, then test whether the key compares less than the entry
  found. Two keys neither of which is less than the other are the same key.

  For a comparator that is a strict weak order this is the ordered map of the standard, which
  the locale \<open>map_order\<close> proves once for every comparator that agrees with a rank function. The
  operations are also defined where the comparator is no strict weak order, that is where a double
  key is a NaN; the C++ standard leaves that case undefined.
\<close>

section \<open>Operations\<close>

type_synonym ('k, 'v) std_map = "('k \<times> 'v) list"

text \<open>\<open>map_find\<close> is \<^verbatim>\<open>find\<close>; \<open>map_at\<close> is \<^verbatim>\<open>m[k]\<close> followed by the update \<open>f\<close> of the value, which
  inserts the key with \<open>f dflt\<close> when it is absent; \<open>map_erase\<close> is \<^verbatim>\<open>erase(find(k))\<close>.\<close>

fun map_find :: "('k \<Rightarrow> 'k \<Rightarrow> bool) \<Rightarrow> 'k \<Rightarrow> ('k, 'v) std_map \<Rightarrow> 'v option" where
  "map_find lt k [] = None"
| "map_find lt k ((k', v) # m) =
     (if lt k' k then map_find lt k m else if lt k k' then None else Some v)"

fun map_at :: "('k \<Rightarrow> 'k \<Rightarrow> bool) \<Rightarrow> 'k \<Rightarrow> 'v \<Rightarrow> ('v \<Rightarrow> 'v) \<Rightarrow> ('k, 'v) std_map \<Rightarrow> ('k, 'v) std_map" where
  "map_at lt k dflt f [] = [(k, f dflt)]"
| "map_at lt k dflt f ((k', v) # m) =
     (if lt k' k then (k', v) # map_at lt k dflt f m
      else if lt k k' then (k, f dflt) # (k', v) # m else (k', f v) # m)"

fun map_erase :: "('k \<Rightarrow> 'k \<Rightarrow> bool) \<Rightarrow> 'k \<Rightarrow> ('k, 'v) std_map \<Rightarrow> ('k, 'v) std_map" where
  "map_erase lt k [] = []"
| "map_erase lt k ((k', v) # m) =
     (if lt k' k then (k', v) # map_erase lt k m else if lt k k' then (k', v) # m else m)"

text \<open>Reading \<^verbatim>\<open>m[k]\<close> right after \<^verbatim>\<open>m[k]\<close> was updated finds what was written, for any comparator for
  which no key is less than itself.\<close>

lemma map_find_map_at:
  assumes "\<And>k. \<not> lt k k"
  shows "map_find lt k (map_at lt k d f m) = Some (case map_find lt k m of None \<Rightarrow> f d | Some v \<Rightarrow> f v)"
  by (induction m) (auto simp: assms)

section \<open>Maps over a strict weak order\<close>

definition keys_sorted :: "('k \<Rightarrow> bool) \<Rightarrow> ('k \<Rightarrow> int) \<Rightarrow> ('k, 'v) std_map \<Rightarrow> bool" where
  "keys_sorted good rk m \<longleftrightarrow> (\<forall>k \<in> fst ` set m. good k) \<and> sorted_wrt (\<lambda>a b. rk (fst a) < rk (fst b)) m"

lemma keys_sorted_simps [simp]:
  "keys_sorted good rk []"
  "keys_sorted good rk (e # m) \<longleftrightarrow>
     good (fst e) \<and> (\<forall>e' \<in> set m. rk (fst e) < rk (fst e')) \<and> keys_sorted good rk m"
  by (auto simp: keys_sorted_def)

lemma keys_sorted_append:
  "keys_sorted good rk (m @ m') \<longleftrightarrow> keys_sorted good rk m \<and> keys_sorted good rk m'
     \<and> (\<forall>a \<in> set m. \<forall>b \<in> set m'. rk (fst a) < rk (fst b))"
  by (auto simp: keys_sorted_def sorted_wrt_append)

definition map_drop :: "('k \<Rightarrow> 'k \<Rightarrow> bool) \<Rightarrow> 'k \<Rightarrow> 'a \<Rightarrow> ('k, 'a list) std_map \<Rightarrow> ('k, 'a list) std_map" where
  "map_drop lt k x m =
     (let m' = map_at lt k [] (remove1 x) m in if map_find lt k m' = Some [] then map_erase lt k m' else m')"

locale map_order =
  fixes lt :: "'k \<Rightarrow> 'k \<Rightarrow> bool"
    and good :: "'k \<Rightarrow> bool"
    and rk :: "'k \<Rightarrow> int"
  assumes lt_rk: "good a \<Longrightarrow> good b \<Longrightarrow> lt a b \<longleftrightarrow> rk a < rk b"
begin

text \<open>Where a key is present the map splits at its entry, and all three operations act there.\<close>

lemma at_present:
  assumes "keys_sorted good rk (xs @ (k', v) # ys)" and "good k" and "rk k = rk k'"
  shows "map_find lt k (xs @ (k', v) # ys) = Some v"
    "map_at lt k d f (xs @ (k', v) # ys) = xs @ (k', f v) # ys"
    "map_erase lt k (xs @ (k', v) # ys) = xs @ ys"
  using assms by (induction xs) (auto simp: lt_rk)

text \<open>Where it is absent the map splits at the place it belongs to.\<close>

lemma at_absent:
  assumes "keys_sorted good rk m" and "good k" and "\<forall>e \<in> set m. rk (fst e) \<noteq> rk k"
  obtains xs ys where "m = xs @ ys" "\<forall>e \<in> set xs. rk (fst e) < rk k" "\<forall>e \<in> set ys. rk k < rk (fst e)"
    "\<And>d f. map_at lt k d f m = xs @ (k, f d) # ys" "map_find lt k m = None" "map_erase lt k m = m"
  using assms
proof (induction m arbitrary: thesis)
  case Nil
  show ?case by (rule Nil.prems(1) [of "[]" "[]"]) simp_all
next
  case (Cons e m)
  obtain k' v where e: "e = (k', v)" by fastforce
  show ?case
  proof (cases "rk k' < rk k")
    case True
    obtain xs ys where xy: "m = xs @ ys" "\<forall>e \<in> set xs. rk (fst e) < rk k" "\<forall>e \<in> set ys. rk k < rk (fst e)"
      "\<And>d f. map_at lt k d f m = xs @ (k, f d) # ys" "map_find lt k m = None" "map_erase lt k m = m"
      using Cons.IH Cons.prems(2-4) by auto
    show ?thesis
      by (rule Cons.prems(1) [of "e # xs" ys]) (use True xy e Cons.prems(2,3) in \<open>auto simp: lt_rk\<close>)
  next
    case False
    then have "rk k < rk k'" using Cons.prems(4) e by force
    then show ?thesis
      by (intro Cons.prems(1) [of "[]" "e # m"]) (use e Cons.prems(2,3) in \<open>auto simp: lt_rk\<close>)
  qed
qed

lemma find_Some:
  assumes "keys_sorted good rk m" and "good k"
  shows "map_find lt k m = Some v \<longleftrightarrow> (\<exists>k'. (k', v) \<in> set m \<and> rk k' = rk k)"
  using assms
proof (induction m)
  case (Cons e m)
  then show ?case by (cases e) (auto simp: lt_rk dest: order.strict_implies_not_eq)
qed simp

lemma sorted_at:
  assumes "keys_sorted good rk m" and "good k"
  shows "keys_sorted good rk (map_at lt k d f m)"
proof (cases "\<exists>e \<in> set m. rk (fst e) = rk k")
  case True
  then obtain xs k' v ys where m: "m = xs @ (k', v) # ys" "rk k = rk k'"
    by (metis prod.collapse split_list)
  then show ?thesis using assms at_present(2) [of xs k' v ys k d f] by (simp add: keys_sorted_append)
next
  case False
  then obtain xs ys where "m = xs @ ys" "\<forall>e \<in> set xs. rk (fst e) < rk k" "\<forall>e \<in> set ys. rk k < rk (fst e)"
    "map_at lt k d f m = xs @ (k, f d) # ys"
    using at_absent [OF assms] by metis
  then show ?thesis using assms by (auto simp: keys_sorted_append)
qed

text \<open>
  Maps whose values are FIFO lists. Appending to the list of a key appends behind every element of
  an at most equal rank in the concatenation of the lists; \<open>map_drop\<close> removes one element and the
  entry with it when its list becomes empty.
\<close>

lemma concat_push:
  assumes "keys_sorted good rk m" and "good k" and "\<forall>e \<in> set m. \<forall>p \<in> set (snd e). r p = rk (fst e)"
  shows "concat (map snd (map_at lt k [] (\<lambda>l. l @ [x]) m)) =
    insert_after (\<lambda>p. r p \<le> rk k) x (concat (map snd m))"
  unfolding insert_after_def using assms
proof (induction m)
  case (Cons e m)
  obtain k' l where e: "e = (k', l)" by fastforce
  have above: "\<forall>p \<in> set (concat (map snd m)). rk k' < r p" and r_l: "\<forall>p \<in> set l. r p = rk k'"
    using Cons.prems e by auto
  consider "rk k' < rk k" | "rk k < rk k'" | "rk k = rk k'" by linarith
  then show ?case
  proof cases
    case 1
    then show ?thesis
      using Cons e r_l by (simp add: lt_rk takeWhile_append2 dropWhile_append2)
  next
    case 2
    then have "\<forall>p \<in> set (l @ concat (map snd m)). \<not> r p \<le> rk k"
      using above r_l by force
    then show ?thesis
      using 2 Cons.prems e by (simp add: lt_rk takeWhile_none dropWhile_none)
  next
    case 3
    then have "\<forall>p \<in> set (concat (map snd m)). \<not> r p \<le> rk k"
      using above by force
    then show ?thesis
      using 3 Cons.prems e r_l
      by (simp add: lt_rk takeWhile_append2 dropWhile_append2 takeWhile_none dropWhile_none)
  qed
qed simp

lemma drop_present:
  assumes "keys_sorted good rk (xs @ (k', l) # ys)" and "good k" and "rk k = rk k'"
  shows "map_drop lt k x (xs @ (k', l) # ys) =
    xs @ (if remove1 x l = [] then [] else [(k', remove1 x l)]) @ ys"
proof -
  have "keys_sorted good rk (xs @ (k', remove1 x l) # ys)"
    using assms(1) by (simp add: keys_sorted_append)
  then show ?thesis
    using at_present [OF assms] at_present [of xs k' "remove1 x l" ys k] assms(2,3)
    by (auto simp: map_drop_def)
qed

end

section \<open>The two comparators of the order book\<close>

text \<open>\<^verbatim>\<open>std::greater<Price>\<close> orders the bids, \<^verbatim>\<open>std::less<Price>\<close> the asks. The Boolean says whether
  the side is the bid side.\<close>

definition side_lt :: "bool \<Rightarrow> Price \<Rightarrow> Price \<Rightarrow> bool" where
  "side_lt buy = (if buy then dgt else dlt)"

definition side_rank :: "bool \<Rightarrow> Price \<Rightarrow> int" where
  "side_rank buy p = (if buy then - rank p else rank p)"

lemma side_lt_simps [simp]: "side_lt True = dgt" "side_lt False = dlt"
  by (simp_all add: side_lt_def)

lemma side_rank_eq [simp]: "side_rank buy p = side_rank buy q \<longleftrightarrow> rank p = rank q"
  by (simp add: side_rank_def)

lemma side_lt_irrefl [simp]: "\<not> side_lt buy k k" "\<not> dlt k k" "\<not> dgt k k"
  by (simp_all add: side_lt_def dgt_def dlt_def)

interpretation price_map: map_order "side_lt buy" "\<lambda>p. \<not> is_nan p" "side_rank buy" for buy :: bool
  by unfold_locales (simp add: side_lt_def side_rank_def double_cmp)

end
