(* ===== verification/OrderBook.thy ===== *)
theory OrderBook
  imports Types ObjectPool StdMap
begin

text \<open>
  \<^verbatim>\<open>include/core/OrderBook.h\<close> and \<^verbatim>\<open>src/core/OrderBook.cpp\<close>: two maps from prices to FIFO lists of
  pointers into the pool, and the index from order ids to locations. A location's list iterator
  designates the node that holds one pointer; every pointer is pushed once, so the iterator is that
  pointer, dereferencing it gives the pointer and \<^verbatim>\<open>list::erase\<close> removes it. Erasing an iterator that
  is not of the list is undefined in C++ and leaves the list alone here; \<open>book_ok\<close> below excludes it.
\<close>

section \<open>State\<close>

type_synonym PriceLevel = "pointer list"

record OrderLocation =
  loc_side :: Side
  loc_price :: Price
  loc_iterator :: pointer

record OrderBook =
  symbol :: string
  bids :: "(Price, PriceLevel) std_map"
  asks :: "(Price, PriceLevel) std_map"
  order_lookup :: "(OrderId \<times> OrderLocation) list"
  order_pool :: "Order ObjectPool"
  next_order_id :: OrderId

definition OrderBook_new :: "string \<Rightarrow> nat \<Rightarrow> OrderBook" where
  "OrderBook_new symb pool_size =
     \<lparr>symbol = symb, bids = [], asks = [], order_lookup = [],
      order_pool = pool_new Order_zero pool_size, next_order_id = 1\<rparr>"

text \<open>\<^verbatim>\<open>*ptr\<close> and \<^verbatim>\<open>ptr->field = x\<close> for an order of the book.\<close>

definition order_at :: "OrderBook \<Rightarrow> pointer \<Rightarrow> Order" where
  "order_at b ptr = deref (order_pool b) ptr"

definition set_order :: "pointer \<Rightarrow> Order \<Rightarrow> OrderBook \<Rightarrow> OrderBook" where
  "set_order ptr ord b = b\<lparr>order_pool := store ptr ord (order_pool b)\<rparr>"

section \<open>Operations\<close>

definition take_next_order_id :: "OrderBook \<Rightarrow> OrderId \<times> OrderBook" where
  "take_next_order_id b = (next_order_id b, b\<lparr>next_order_id := next_order_id b + 1\<rparr>)"

definition add_order ::
    "Timestamp \<Rightarrow> Side \<Rightarrow> OrderType \<Rightarrow> Price \<Rightarrow> Quantity \<Rightarrow> OrderBook \<Rightarrow> pointer \<times> OrderBook" where
  "add_order now side ty price quantity b =
     (let (ptr, pool) = acquire Order_zero (order_pool b);
          ord = Order_new now (next_order_id b) side ty price quantity;
          b1 = set_order ptr ord (b\<lparr>order_pool := pool, next_order_id := next_order_id b + 1\<rparr>)
      in if side = Buy
         then (let b2 = b1\<lparr>bids := map_at dgt price [] (\<lambda>level. level @ [ptr]) (bids b1)\<rparr>;
                   it = last (the (map_find dgt price (bids b2)))
               in (ptr, b2\<lparr>order_lookup := AList.update (o_id ord) \<lparr>loc_side = side, loc_price = price, loc_iterator = it\<rparr> (order_lookup b2)\<rparr>))
         else (let b2 = b1\<lparr>asks := map_at dlt price [] (\<lambda>level. level @ [ptr]) (asks b1)\<rparr>;
                   it = last (the (map_find dlt price (asks b2)))
               in (ptr, b2\<lparr>order_lookup := AList.update (o_id ord) \<lparr>loc_side = side, loc_price = price, loc_iterator = it\<rparr> (order_lookup b2)\<rparr>)))"

text \<open>\<^verbatim>\<open>bids_[loc.price].erase(loc.iterator)\<close>, or the same on the asks.\<close>

definition erase_from_level :: "OrderLocation \<Rightarrow> OrderBook \<Rightarrow> OrderBook" where
  "erase_from_level loc b =
     (if loc_side loc = Buy
      then b\<lparr>bids := map_at dgt (loc_price loc) [] (remove1 (loc_iterator loc)) (bids b)\<rparr>
      else b\<lparr>asks := map_at dlt (loc_price loc) [] (remove1 (loc_iterator loc)) (asks b)\<rparr>)"

definition cleanup_price_level :: "Side \<Rightarrow> Price \<Rightarrow> OrderBook \<Rightarrow> OrderBook" where
  "cleanup_price_level side price b =
     (if side = Buy
      then (if map_find dgt price (bids b) = Some []
            then b\<lparr>bids := map_erase dgt price (bids b)\<rparr> else b)
      else (if map_find dlt price (asks b) = Some []
            then b\<lparr>asks := map_erase dlt price (asks b)\<rparr> else b))"

definition cancel_order :: "OrderId \<Rightarrow> OrderBook \<Rightarrow> bool \<times> OrderBook" where
  "cancel_order order_id b =
     (case map_of (order_lookup b) order_id of
        None \<Rightarrow> (False, b)
      | Some loc \<Rightarrow>
          (let ord = loc_iterator loc;
               b1 = set_order ord ((order_at b ord)\<lparr>o_status := Cancelled\<rparr>) b;
               b2 = erase_from_level loc b1;
               b3 = cleanup_price_level (loc_side loc) (loc_price loc) b2;
               b4 = b3\<lparr>order_lookup := AList.delete order_id (order_lookup b3)\<rparr>
           in (True, b4\<lparr>order_pool := release ord (order_pool b4)\<rparr>)))"

definition reduce_order :: "OrderId \<Rightarrow> Quantity \<Rightarrow> OrderBook \<Rightarrow> bool \<times> OrderBook" where
  "reduce_order order_id new_quantity b =
     (case map_of (order_lookup b) order_id of
        None \<Rightarrow> (False, b)
      | Some loc \<Rightarrow>
          (let ord = order_at b (loc_iterator loc)
           in if o_remaining_qty ord \<le> new_quantity then (False, b)
              else if new_quantity = 0 then cancel_order order_id b
              else (True, set_order (loc_iterator loc) (ord\<lparr>o_remaining_qty := new_quantity\<rparr>) b)))"

definition remove_order :: "pointer \<Rightarrow> OrderBook \<Rightarrow> OrderBook" where
  "remove_order ord b =
     (case map_of (order_lookup b) (o_id (order_at b ord)) of
        None \<Rightarrow> b
      | Some loc \<Rightarrow>
          (let b1 = erase_from_level loc b;
               b2 = cleanup_price_level (loc_side loc) (loc_price loc) b1;
               b3 = b2\<lparr>order_lookup := AList.delete (o_id (order_at b ord)) (order_lookup b2)\<rparr>
           in b3\<lparr>order_pool := release ord (order_pool b3)\<rparr>))"

section \<open>Accessors\<close>

definition best_bid :: "OrderBook \<Rightarrow> Price" where
  "best_bid b = (case bids b of [] \<Rightarrow> dzero | (price, _) # _ \<Rightarrow> price)"

definition best_ask :: "OrderBook \<Rightarrow> Price" where
  "best_ask b = (case asks b of [] \<Rightarrow> dzero | (price, _) # _ \<Rightarrow> price)"

definition spread :: "OrderBook \<Rightarrow> Price" where
  "spread b =
     (let bid = best_bid b; ask = best_ask b
      in if deq bid dzero \<or> deq ask dzero then dzero else dsub ask bid)"

definition mid_price :: "OrderBook \<Rightarrow> Price" where
  "mid_price b =
     (let bid = best_bid b; ask = best_ask b
      in if deq bid dzero \<or> deq ask dzero then dzero else ddiv (dadd bid ask) (dlit 2 1))"

definition total_bid_quantity :: "OrderBook \<Rightarrow> Quantity" where
  "total_bid_quantity b =
     fold (\<lambda>(price, level) total. fold (\<lambda>ord total. total + o_remaining_qty (order_at b ord)) level total) (bids b) 0"

definition total_ask_quantity :: "OrderBook \<Rightarrow> Quantity" where
  "total_ask_quantity b =
     fold (\<lambda>(price, level) total. fold (\<lambda>ord total. total + o_remaining_qty (order_at b ord)) level total) (asks b) 0"

definition bid_depth :: "OrderBook \<Rightarrow> nat" where
  "bid_depth b = length (bids b)"

definition ask_depth :: "OrderBook \<Rightarrow> nat" where
  "ask_depth b = length (asks b)"

definition order_count :: "OrderBook \<Rightarrow> nat" where
  "order_count b = length (order_lookup b)"

text \<open>A \<^verbatim>\<open>nullptr\<close> level is \<open>None\<close>.\<close>

definition best_bid_level :: "OrderBook \<Rightarrow> PriceLevel option" where
  "best_bid_level b = (case bids b of [] \<Rightarrow> None | (_, level) # _ \<Rightarrow> Some level)"

definition best_ask_level :: "OrderBook \<Rightarrow> PriceLevel option" where
  "best_ask_level b = (case asks b of [] \<Rightarrow> None | (_, level) # _ \<Rightarrow> Some level)"

section \<open>One view of both sides\<close>

text \<open>
  \<open>levels buy\<close> is the map of one side, \<open>ptrs buy\<close> its pointers in priority order (best level first,
  earliest arrival first within a level), \<open>queue buy\<close> the orders they point to.
\<close>

definition levels :: "bool \<Rightarrow> OrderBook \<Rightarrow> (Price, PriceLevel) std_map" where
  "levels buy b = (if buy then bids b else asks b)"

definition ptrs :: "bool \<Rightarrow> OrderBook \<Rightarrow> pointer list" where
  "ptrs buy b = concat (map snd (levels buy b))"

definition queue :: "bool \<Rightarrow> OrderBook \<Rightarrow> Order list" where
  "queue buy b = map (order_at b) (ptrs buy b)"

definition live :: "OrderBook \<Rightarrow> pointer set" where
  "live b = set (ptrs True b) \<union> set (ptrs False b)"

section \<open>Well-formed books\<close>

definition level_ok :: "OrderBook \<Rightarrow> bool \<Rightarrow> Price \<times> PriceLevel \<Rightarrow> bool" where
  "level_ok b buy e \<longleftrightarrow> snd e \<noteq> []
     \<and> sorted_wrt (\<lambda>p q. o_id (order_at b p) < o_id (order_at b q)) (snd e)
     \<and> (\<forall>p \<in> set (snd e). \<not> is_nan (o_price (order_at b p)) \<and> rank (o_price (order_at b p)) = rank (fst e)
          \<and> (o_side (order_at b p) = Buy) = buy)"

definition side_ok :: "OrderBook \<Rightarrow> bool \<Rightarrow> bool" where
  "side_ok b buy \<longleftrightarrow> keys_sorted (\<lambda>p. \<not> is_nan p) (side_rank buy) (levels buy b)
     \<and> (\<forall>e \<in> set (levels buy b). level_ok b buy e)"

definition lookup_ok :: "OrderBook \<Rightarrow> bool" where
  "lookup_ok b \<longleftrightarrow> distinct (map fst (order_lookup b))
     \<and> (\<forall>p \<in> live b. map_of (order_lookup b) (o_id (order_at b p)) =
          Some \<lparr>loc_side = o_side (order_at b p), loc_price = o_price (order_at b p), loc_iterator = p\<rparr>)
     \<and> (\<forall>i loc. map_of (order_lookup b) i = Some loc \<longrightarrow>
          loc_iterator loc \<in> live b \<and> o_id (order_at b (loc_iterator loc)) = i)"

text \<open>
  The invariant: the pool is sound and its slots in use are exactly the pointers on the book, each
  on it once; both sides are sorted, without empty levels, first-in first-out by id; the index
  and the levels agree; ids are positive and below the counter.
\<close>

definition book_ok :: "OrderBook \<Rightarrow> bool" where
  "book_ok b \<longleftrightarrow> pool_ok (order_pool b) \<and> live b = in_use (order_pool b)
     \<and> distinct (ptrs True b @ ptrs False b) \<and> side_ok b True \<and> side_ok b False \<and> lookup_ok b
     \<and> 0 < next_order_id b \<and> (\<forall>p \<in> live b. 0 < o_id (order_at b p) \<and> o_id (order_at b p) < next_order_id b)"

end
