(* ===== verification/BookInvariant.thy ===== *)
theory BookInvariant
  imports OrderBook
begin

text \<open>
  Every operation of the order book keeps \<open>book_ok\<close>. The operations are reduced to two effects: an
  order rewritten in place (\<open>set_order\<close>) and an order unlinked from its level, the index and the
  pool (\<open>remove_order\<close>).
\<close>

section \<open>Frame facts\<close>

lemma set_order_frame [simp, book_frame]:
  "bids (set_order p ord b) = bids b" "asks (set_order p ord b) = asks b"
  "symbol (set_order p ord b) = symbol b"
  "order_lookup (set_order p ord b) = order_lookup b" "next_order_id (set_order p ord b) = next_order_id b"
  "levels buy (set_order p ord b) = levels buy b" "ptrs buy (set_order p ord b) = ptrs buy b"
  "live (set_order p ord b) = live b"
  by (simp_all add: set_order_def levels_def ptrs_def live_def)

lemma ptrs_live: "p \<in> set (ptrs buy b) \<Longrightarrow> p \<in> live b"
  by (cases buy) (simp_all add: live_def)

lemma live_ptrs: "p \<in> live b \<longleftrightarrow> (\<exists>buy. p \<in> set (ptrs buy b))"
  by (auto simp: live_def) (metis (full_types))

lemma order_at_set_order:
  assumes "book_ok b" and "p \<in> live b"
  shows "order_at (set_order p ord b) q = (if q = p then ord else order_at b q)"
  using assms pool.put_get [of "order_pool b" p ord q] by (simp add: book_ok_def order_at_def set_order_def)

lemma live_ids:
  assumes "book_ok b" and "p \<in> live b"
  shows "0 < o_id (order_at b p)" "o_id (order_at b p) < next_order_id b"
  using assms by (simp_all add: book_ok_def)

lemma book_ok_side: "book_ok b \<Longrightarrow> side_ok b buy"
  by (cases buy) (simp_all add: book_ok_def)

lemma ptrs_disjoint: "book_ok b \<Longrightarrow> p \<in> set (ptrs buy b) \<Longrightarrow> p \<notin> set (ptrs (\<not> buy) b)"
  by (cases buy) (auto simp: book_ok_def)

lemma ptrs_distinct: "book_ok b \<Longrightarrow> distinct (ptrs buy b)"
  by (cases buy) (simp_all add: book_ok_def)

text \<open>A pointer of a side lies in one level, whose price and side its order has.\<close>

lemma ptrs_level:
  assumes "book_ok b" and "p \<in> set (ptrs buy b)"
  obtains xs k l ys where "levels buy b = xs @ (k, l) # ys" "p \<in> set l" "level_ok b buy (k, l)"
proof -
  obtain e where "e \<in> set (levels buy b)" "p \<in> set (snd e)"
    using assms(2) by (auto simp: ptrs_def)
  moreover have "level_ok b buy e"
    using book_ok_side [OF assms(1), of buy] \<open>e \<in> set (levels buy b)\<close> by (simp add: side_ok_def)
  ultimately show ?thesis
    using that by (metis prod.collapse split_list)
qed

lemma ptrs_side:
  assumes "book_ok b" and "p \<in> set (ptrs buy b)"
  shows "(o_side (order_at b p) = Buy) = buy" "\<not> is_nan (o_price (order_at b p))"
  using ptrs_level [OF assms] by (auto simp: level_ok_def)

lemma live_side: "book_ok b \<Longrightarrow> p \<in> live b \<Longrightarrow> p \<in> set (ptrs (o_side (order_at b p) = Buy) b)"
  using ptrs_side(1) by (fastforce simp: live_ptrs)

lemma live_lookup:
  assumes "book_ok b" and "p \<in> live b"
  shows "map_of (order_lookup b) (o_id (order_at b p)) =
    Some \<lparr>loc_side = o_side (order_at b p), loc_price = o_price (order_at b p), loc_iterator = p\<rparr>"
  using assms by (simp add: book_ok_def lookup_ok_def)

lemma live_id_inj:
  assumes "book_ok b" and "p \<in> live b" and "q \<in> live b" and "o_id (order_at b p) = o_id (order_at b q)"
  shows "p = q"
proof -
  have "Some (loc_iterator \<lparr>loc_side = o_side (order_at b p), loc_price = o_price (order_at b p), loc_iterator = p\<rparr>) =
      Some (loc_iterator \<lparr>loc_side = o_side (order_at b q), loc_price = o_price (order_at b q), loc_iterator = q\<rparr>)"
    using live_lookup [OF assms(1,2)] live_lookup [OF assms(1,3)] unfolding assms(4) by (simp only: option.inject)
  then show ?thesis by simp
qed

lemma lookup_live:
  assumes "book_ok b" and "map_of (order_lookup b) i = Some loc"
  shows "loc_iterator loc \<in> live b" "o_id (order_at b (loc_iterator loc)) = i"
    "loc = \<lparr>loc_side = o_side (order_at b (loc_iterator loc)),
            loc_price = o_price (order_at b (loc_iterator loc)), loc_iterator = loc_iterator loc\<rparr>"
proof -
  show live: "loc_iterator loc \<in> live b" and i: "o_id (order_at b (loc_iterator loc)) = i"
    using assms by (auto simp: book_ok_def lookup_ok_def)
  show "loc = \<lparr>loc_side = o_side (order_at b (loc_iterator loc)),
            loc_price = o_price (order_at b (loc_iterator loc)), loc_iterator = loc_iterator loc\<rparr>"
    using live_lookup [OF assms(1) live] assms(2) i by simp
qed

section \<open>Rewriting an order in place\<close>

text \<open>The identity of an order: what its place on the book depends on.\<close>

definition same_key :: "Order \<Rightarrow> Order \<Rightarrow> bool" where
  "same_key a b \<longleftrightarrow> o_id a = o_id b \<and> o_price a = o_price b \<and> o_side a = o_side b"

lemma same_key_updates [simp]:
  "same_key (ord\<lparr>o_remaining_qty := q\<rparr>) ord" "same_key (ord\<lparr>o_status := st\<rparr>) ord"
  "same_key (ord\<lparr>o_remaining_qty := q, o_status := st\<rparr>) ord" "same_key ord ord"
  by (simp_all add: same_key_def)

lemma set_order_ok:
  assumes ok: "book_ok b" and p: "p \<in> live b" and key: "same_key ord (order_at b p)"
  shows "book_ok (set_order p ord b)"
proof -
  let ?b = "set_order p ord b"
  have keys: "o_id (order_at ?b q) = o_id (order_at b q)" "o_price (order_at ?b q) = o_price (order_at b q)"
    "o_side (order_at ?b q) = o_side (order_at b q)" for q
    using key by (simp_all add: order_at_set_order [OF ok p] same_key_def)
  have "level_ok ?b buy e = level_ok b buy e" for buy e
    by (simp add: level_ok_def keys)
  then have "side_ok ?b buy = side_ok b buy" for buy
    by (simp add: side_ok_def)
  moreover have "lookup_ok ?b = lookup_ok b"
    by (simp add: lookup_ok_def keys)
  moreover have "pool_ok (order_pool ?b) = pool_ok (order_pool b)" "in_use (order_pool ?b) = in_use (order_pool b)"
    using ok by (simp_all add: set_order_def pool.put_use pool.put_ok book_ok_def)
  ultimately show ?thesis
    using ok by (simp add: book_ok_def keys)
qed

section \<open>Unlinking an order\<close>

lemma levels_unlink:
  "levels buy (cleanup_price_level (loc_side loc) (loc_price loc) (erase_from_level loc b)) =
     (if buy = (loc_side loc = Buy) then map_drop (side_lt buy) (loc_price loc) (loc_iterator loc) (levels buy b)
      else levels buy b)"
  by (cases buy) (auto simp: levels_def cleanup_price_level_def erase_from_level_def map_drop_def Let_def)

lemma unlink_frame [simp]:
  "order_lookup (cleanup_price_level sd pr b) = order_lookup b" "order_pool (cleanup_price_level sd pr b) = order_pool b"
  "next_order_id (cleanup_price_level sd pr b) = next_order_id b" "symbol (cleanup_price_level sd pr b) = symbol b"
  "order_lookup (erase_from_level loc b) = order_lookup b" "order_pool (erase_from_level loc b) = order_pool b"
  "next_order_id (erase_from_level loc b) = next_order_id b" "symbol (erase_from_level loc b) = symbol b"
  by (simp_all add: cleanup_price_level_def erase_from_level_def)

text \<open>The effect of \<open>remove_order\<close> on a live order, field by field.\<close>

lemma remove_order_effect:
  assumes ok: "book_ok b" and p: "p \<in> set (ptrs buy b)"
  shows "order_lookup (remove_order p b) = AList.delete (o_id (order_at b p)) (order_lookup b)"
    "order_pool (remove_order p b) = release p (order_pool b)"
    "next_order_id (remove_order p b) = next_order_id b"
    "levels (\<not> buy) (remove_order p b) = levels (\<not> buy) b"
    "levels buy (remove_order p b) = map_drop (side_lt buy) (o_price (order_at b p)) p (levels buy b)"
proof -
  have sd: "(o_side (order_at b p) = Buy) = buy" using ptrs_side [OF ok p] by simp
  note lk = live_lookup [OF ok ptrs_live [OF p]]
  let ?loc = "\<lparr>loc_side = o_side (order_at b p), loc_price = o_price (order_at b p), loc_iterator = p\<rparr>"
  have eq: "remove_order p b =
      (cleanup_price_level (o_side (order_at b p)) (o_price (order_at b p)) (erase_from_level ?loc b))
        \<lparr>order_lookup := AList.delete (o_id (order_at b p)) (order_lookup b),
         order_pool := release p (order_pool b)\<rparr>"
    by (simp add: remove_order_def lk Let_def)
  show "order_lookup (remove_order p b) = AList.delete (o_id (order_at b p)) (order_lookup b)"
    "order_pool (remove_order p b) = release p (order_pool b)"
    "next_order_id (remove_order p b) = next_order_id b"
    by (simp_all add: eq)
  have "levels s (remove_order p b) =
      levels s (cleanup_price_level (o_side (order_at b p)) (o_price (order_at b p)) (erase_from_level ?loc b))" for s
    by (simp add: eq levels_def)
  then show "levels (\<not> buy) (remove_order p b) = levels (\<not> buy) b"
    "levels buy (remove_order p b) = map_drop (side_lt buy) (o_price (order_at b p)) p (levels buy b)"
    using levels_unlink [of _ ?loc b] sd by simp_all
qed

lemma remove_order_split:
  assumes ok: "book_ok b" and p: "p \<in> set (ptrs buy b)"
  obtains xs k l ys where "levels buy b = xs @ (k, l) # ys" "p \<in> set l" "level_ok b buy (k, l)"
    "levels buy (remove_order p b) = xs @ (if remove1 p l = [] then [] else [(k, remove1 p l)]) @ ys"
proof -
  obtain xs k l ys where lv: "levels buy b = xs @ (k, l) # ys" and l: "p \<in> set l" "level_ok b buy (k, l)"
    by (rule ptrs_level [OF ok p])
  have "keys_sorted (\<lambda>p. \<not> is_nan p) (side_rank buy) (xs @ (k, l) # ys)"
    using book_ok_side [OF ok, of buy] lv by (simp add: side_ok_def)
  moreover have "\<not> is_nan (o_price (order_at b p))" "side_rank buy (o_price (order_at b p)) = side_rank buy k"
    using l by (auto simp: level_ok_def)
  ultimately have "levels buy (remove_order p b) = xs @ (if remove1 p l = [] then [] else [(k, remove1 p l)]) @ ys"
    unfolding remove_order_effect(5) [OF ok p] lv by (rule price_map.drop_present)
  with lv l show thesis by (rule that)
qed

lemma order_at_remove_order [simp]:
  assumes "book_ok b" and "p \<in> live b"
  shows "order_at (remove_order p b) q = order_at b q"
  using remove_order_effect(2) [OF assms(1) live_side [OF assms]] by (simp add: order_at_def pool.free_get)

lemma ptrs_remove_order:
  assumes ok: "book_ok b" and p: "p \<in> set (ptrs buy b)"
  shows "ptrs buy (remove_order p b) = remove1 p (ptrs buy b)" "ptrs (\<not> buy) (remove_order p b) = ptrs (\<not> buy) b"
proof -
  show "ptrs (\<not> buy) (remove_order p b) = ptrs (\<not> buy) b"
    using remove_order_effect(4) [OF ok p] by (simp add: ptrs_def)
  obtain xs k l ys where lv: "levels buy b = xs @ (k, l) # ys" "p \<in> set l"
    "levels buy (remove_order p b) = xs @ (if remove1 p l = [] then [] else [(k, remove1 p l)]) @ ys"
    by (rule remove_order_split [OF ok p])
  have "p \<notin> set (concat (map snd xs))"
    using ptrs_distinct [OF ok, of buy] lv by (auto simp: ptrs_def)
  with lv show "ptrs buy (remove_order p b) = remove1 p (ptrs buy b)"
    by (auto simp: ptrs_def remove1_append)
qed

lemma live_remove_order:
  assumes ok: "book_ok b" and p: "p \<in> live b"
  shows "live (remove_order p b) = live b - {p}"
proof -
  define buy where "buy = (o_side (order_at b p) = Buy)"
  have "p \<in> set (ptrs buy b)" unfolding buy_def by (rule live_side [OF ok p])
  with ptrs_remove_order [OF ok this] ptrs_distinct [OF ok] ptrs_disjoint [OF ok this]
  have "set (ptrs s (remove_order p b)) = set (ptrs s b) - {p}" for s
    by (cases "s = buy") auto
  then show ?thesis by (auto simp: live_def)
qed

lemma side_ok_remove_order:
  assumes ok: "book_ok b" and p: "p \<in> set (ptrs buy b)"
  shows "side_ok (remove_order p b) s"
proof -
  let ?b = "remove_order p b"
  have at: "order_at ?b q = order_at b q" for q
    by (rule order_at_remove_order [OF ok ptrs_live [OF p]])
  have lev: "level_ok ?b s e = level_ok b s e" for s e by (simp add: level_ok_def at)
  obtain xs k l ys where lv: "levels buy b = xs @ (k, l) # ys" "level_ok b buy (k, l)"
    "levels buy ?b = xs @ (if remove1 p l = [] then [] else [(k, remove1 p l)]) @ ys"
    by (rule remove_order_split [OF ok p])
  have "remove1 p l \<noteq> [] \<Longrightarrow> level_ok b buy (k, remove1 p l)"
    using lv(2) by (auto simp: level_ok_def sorted_wrt_remove1 dest: notin_set_remove1)
  with lv book_ok_side [OF ok, of buy] have "side_ok ?b buy"
    by (auto simp: side_ok_def lev keys_sorted_append)
  moreover have "side_ok ?b (\<not> buy)"
    using book_ok_side [OF ok, of "\<not> buy"] remove_order_effect(4) [OF ok p] by (simp add: side_ok_def lev)
  ultimately show ?thesis by (cases "s = buy") auto
qed

lemma remove_order_ok:
  assumes ok: "book_ok b" and p: "p \<in> live b"
  shows "book_ok (remove_order p b)"
proof -
  let ?b = "remove_order p b"
  define buy where "buy = (o_side (order_at b p) = Buy)"
  have buy: "p \<in> set (ptrs buy b)" unfolding buy_def by (rule live_side [OF ok p])
  note eff = remove_order_effect [OF ok buy] and at = order_at_remove_order [OF ok p]
    and live = live_remove_order [OF ok p]
  have use: "p \<in> in_use (order_pool b)" "pool_ok (order_pool b)" using ok p by (auto simp: book_ok_def)
  have "distinct (ptrs True ?b @ ptrs False ?b)"
    using ok ptrs_remove_order [OF ok buy] by (cases buy) (auto simp: book_ok_def dest: notin_set_remove1)
  moreover have "lookup_ok ?b"
    using ok live_id_inj [OF ok _ p]
    by (auto simp: lookup_ok_def book_ok_def eff(1) live at delete_conv' distinct_delete split: if_splits)
  ultimately show ?thesis
    using ok side_ok_remove_order [OF ok buy] use
    by (auto simp: book_ok_def eff live at pool.free_ok pool.free_use)
qed

section \<open>Cancelling and reducing\<close>

lemma cancel_order_None: "map_of (order_lookup b) i = None \<Longrightarrow> cancel_order i b = (False, b)"
  by (simp add: cancel_order_def)

text \<open>A cancel is the status change followed by the unlinking that \<open>remove_order\<close> does.\<close>

lemma cancel_order_Some:
  assumes ok: "book_ok b" and p: "p \<in> live b" and i: "i = o_id (order_at b p)"
  shows "cancel_order i b = (True, remove_order p (set_order p ((order_at b p)\<lparr>o_status := Cancelled\<rparr>) b))"
proof -
  let ?b = "set_order p ((order_at b p)\<lparr>o_status := Cancelled\<rparr>) b"
  have "o_id (order_at ?b p) = i" using i by (simp add: order_at_set_order [OF ok p])
  then show ?thesis
    using live_lookup [OF ok p] i by (simp add: cancel_order_def remove_order_def Let_def)
qed

lemma lookup_None:
  assumes ok: "book_ok b"
  shows "map_of (order_lookup b) i = None \<longleftrightarrow> i \<notin> (\<lambda>p. o_id (order_at b p)) ` live b"
proof (cases "map_of (order_lookup b) i")
  case None
  then show ?thesis using live_lookup [OF ok] by auto
next
  case (Some loc)
  then show ?thesis using lookup_live(1,2) [OF ok Some] by (metis image_eqI option.distinct(1))
qed

lemma cancel_order_ok:
  assumes ok: "book_ok b"
  shows "book_ok (snd (cancel_order i b))"
proof (cases "map_of (order_lookup b) i")
  case None
  then show ?thesis using ok by (simp add: cancel_order_None)
next
  case (Some loc)
  note l = lookup_live [OF ok Some]
  then show ?thesis
    using cancel_order_Some [OF ok l(1) l(2) [symmetric]]
    by (simp add: remove_order_ok set_order_ok [OF ok])
qed

lemma reduce_order_ok:
  assumes ok: "book_ok b"
  shows "book_ok (snd (reduce_order i q b))"
proof (cases "map_of (order_lookup b) i")
  case (Some loc)
  then show ?thesis
    using ok cancel_order_ok [OF ok] set_order_ok [OF ok lookup_live(1) [OF ok Some]]
    by (simp add: reduce_order_def Let_def)
qed (simp add: reduce_order_def ok)

section \<open>Adding an order\<close>

text \<open>The iterator stored in the index designates the pointer just appended.\<close>

lemma last_appended:
  assumes "\<And>k. \<not> lt k k"
  shows "last (the (map_find lt k (map_at lt k [] (\<lambda>l. l @ [x]) m))) = x"
  by (simp add: map_find_map_at [OF assms] split: option.splits)

lemma add_order_eq:
  assumes "acquire Order_zero (order_pool b) = (ptr, pool)"
  shows "add_order now sd ty pr q b =
    (ptr, (let ord = Order_new now (next_order_id b) sd ty pr q in
      b\<lparr>bids := (if sd = Buy then map_at dgt pr [] (\<lambda>l. l @ [ptr]) (bids b) else bids b),
        asks := (if sd = Buy then asks b else map_at dlt pr [] (\<lambda>l. l @ [ptr]) (asks b)),
        order_lookup := AList.update (next_order_id b)
          \<lparr>loc_side = sd, loc_price = pr, loc_iterator = ptr\<rparr> (order_lookup b),
        order_pool := store ptr ord pool, next_order_id := next_order_id b + 1\<rparr>))"
  using assms by (simp add: add_order_def set_order_def last_appended Let_def)

text \<open>A successful addition: a well-formed book, a price that is a number, an id counter not at its end.\<close>

definition adds ::
    "OrderBook \<Rightarrow> Timestamp \<Rightarrow> Side \<Rightarrow> OrderType \<Rightarrow> Price \<Rightarrow> Quantity \<Rightarrow> pointer \<Rightarrow> OrderBook \<Rightarrow> bool" where
  "adds b now sd ty pr q ptr b' \<longleftrightarrow> book_ok b \<and> \<not> is_nan pr \<and> next_order_id b + 1 \<noteq> 0
     \<and> add_order now sd ty pr q b = (ptr, b')"

lemma adds_fields:
  assumes "adds b now sd ty pr q ptr b'"
  obtains pool where "acquire Order_zero (order_pool b) = (ptr, pool)"
    "order_pool b' = store ptr (Order_new now (next_order_id b) sd ty pr q) pool"
    "levels (sd = Buy) b' = map_at (side_lt (sd = Buy)) pr [] (\<lambda>l. l @ [ptr]) (levels (sd = Buy) b)"
    "levels (sd \<noteq> Buy) b' = levels (sd \<noteq> Buy) b"
    "order_lookup b' = AList.update (next_order_id b) \<lparr>loc_side = sd, loc_price = pr, loc_iterator = ptr\<rparr> (order_lookup b)"
    "next_order_id b' = next_order_id b + 1"
proof -
  obtain p pool where a: "acquire Order_zero (order_pool b) = (p, pool)" by fastforce
  have "add_order now sd ty pr q b = (ptr, b')" using assms by (simp add: adds_def)
  moreover from this have [simp]: "p = ptr" by (simp add: add_order_eq [OF a])
  ultimately have b': "b' = snd (add_order now sd ty pr q b)" by simp
  show thesis
    by (rule that [of pool]; cases "sd = Buy") (use a in \<open>simp_all add: b' add_order_eq [OF a] levels_def Let_def\<close>)
qed

lemma adds_pool:
  assumes "adds b now sd ty pr q ptr b'"
  shows "pool_ok (order_pool b')" "in_use (order_pool b') = insert ptr (live b)" "ptr \<notin> live b"
    "order_at b' ptr = Order_new now (next_order_id b) sd ty pr q"
    "p \<in> live b \<Longrightarrow> order_at b' p = order_at b p"
proof -
  obtain pool where a: "acquire Order_zero (order_pool b) = (ptr, pool)"
    and s: "order_pool b' = store ptr (Order_new now (next_order_id b) sd ty pr q) pool"
    by (rule adds_fields [OF assms])
  have "pool_ok (order_pool b)" and l: "live b = in_use (order_pool b)"
    using assms by (simp_all add: adds_def book_ok_def)
  note put = pool.alloc_put [OF this(1) a]
  show "pool_ok (order_pool b')" "in_use (order_pool b') = insert ptr (live b)" "ptr \<notin> live b"
    "order_at b' ptr = Order_new now (next_order_id b) sd ty pr q"
    "p \<in> live b \<Longrightarrow> order_at b' p = order_at b p"
    by (simp_all add: s l order_at_def put)
qed

text \<open>The new order enters the queue of its side behind every order of an equal or better price.\<close>

lemma adds_ptrs:
  assumes "adds b now sd ty pr q ptr b'" and buy: "buy = (sd = Buy)"
  shows "ptrs (\<not> buy) b' = ptrs (\<not> buy) b"
    "ptrs buy b' = insert_after (\<lambda>p. side_rank buy (o_price (order_at b p)) \<le> side_rank buy pr) ptr (ptrs buy b)"
proof -
  obtain pool where lv: "levels buy b' = map_at (side_lt buy) pr [] (\<lambda>l. l @ [ptr]) (levels buy b)"
    "levels (\<not> buy) b' = levels (\<not> buy) b" unfolding buy by (rule adds_fields [OF assms(1)])
  then show "ptrs (\<not> buy) b' = ptrs (\<not> buy) b" by (simp add: ptrs_def)
  have "book_ok b" and not_nan: "\<not> is_nan pr" using assms by (simp_all add: adds_def)
  then have "keys_sorted (\<lambda>p. \<not> is_nan p) (side_rank buy) (levels buy b)"
    "\<forall>e \<in> set (levels buy b). \<forall>p \<in> set (snd e). side_rank buy (o_price (order_at b p)) = side_rank buy (fst e)"
    using book_ok_side [of b buy] by (auto simp: side_ok_def level_ok_def)
  from price_map.concat_push [OF this(1) not_nan this(2)]
  show "ptrs buy b' = insert_after (\<lambda>p. side_rank buy (o_price (order_at b p)) \<le> side_rank buy pr) ptr (ptrs buy b)"
    by (simp add: ptrs_def lv)
qed

lemma adds_live: "adds b now sd ty pr q ptr b' \<Longrightarrow> live b' = insert ptr (live b)"
  using adds_ptrs [of b now sd ty pr q ptr b' "sd = Buy"] by (cases "sd = Buy") (auto simp: live_def)

lemma adds_distinct:
  assumes "adds b now sd ty pr q ptr b'"
  shows "distinct (ptrs True b' @ ptrs False b')"
proof -
  have ok: "book_ok b" using assms by (simp add: adds_def)
  have "ptr \<notin> set (ptrs s b)" for s using adds_pool(3) [OF assms] ptrs_live by blast
  with adds_ptrs [OF assms refl] ok show ?thesis
    by (cases "sd = Buy") (auto simp: book_ok_def)
qed

lemma adds_level_old:
  assumes "adds b now sd ty pr q ptr b'" and "level_ok b s e" and "set (snd e) \<subseteq> live b"
  shows "level_ok b' s e"
proof -
  have "order_at b' p = order_at b p" if "p \<in> set (snd e)" for p
    using that assms(3) adds_pool(5) [OF assms(1)] by auto
  then show ?thesis
    using assms(2) by (auto simp: level_ok_def intro: sorted_wrt_mono_rel [rotated])
qed

lemma adds_level_new:
  assumes "adds b now sd ty pr q ptr b'" and l: "l = [] \<or> level_ok b (sd = Buy) (k, l)" "set l \<subseteq> live b"
    and k: "rank pr = rank k"
  shows "level_ok b' (sd = Buy) (k, l @ [ptr])"
proof -
  have b: "book_ok b" "\<not> is_nan pr" using assms(1) by (simp_all add: adds_def)
  have at: "order_at b' p = order_at b p" "o_id (order_at b p) < next_order_id b" if "p \<in> set l" for p
    using that l(2) adds_pool(5) [OF assms(1)] b by (auto simp: book_ok_def)
  have new: "order_at b' ptr = Order_new now (next_order_id b) sd ty pr q" by (rule adds_pool(4) [OF assms(1)])
  have "sorted_wrt (\<lambda>p q. o_id (order_at b' p) < o_id (order_at b' q)) l"
    using l(1) at(1) by (auto simp: level_ok_def intro: sorted_wrt_mono_rel [rotated])
  then show ?thesis
    using l(1) at new b k by (auto simp: level_ok_def sorted_wrt_append)
qed

lemma adds_side:
  assumes "adds b now sd ty pr q ptr b'"
  shows "side_ok b' s"
proof -
  let ?buy = "sd = Buy"
  have ok: "book_ok b" "\<not> is_nan pr" using assms by (simp_all add: adds_def)
  have sub: "e \<in> set (levels s b) \<Longrightarrow> set (snd e) \<subseteq> live b" for s e
    using ptrs_live [of _ s b] by (auto simp: ptrs_def)
  have old: "e \<in> set (levels s b) \<Longrightarrow> level_ok b' s e" for s e
    using book_ok_side [OF ok(1), of s] sub adds_level_old [OF assms, of s e] by (simp add: side_ok_def)
  obtain pool where lv: "levels ?buy b' = map_at (side_lt ?buy) pr [] (\<lambda>l. l @ [ptr]) (levels ?buy b)"
    "levels (\<not> ?buy) b' = levels (\<not> ?buy) b" by (rule adds_fields [OF assms])
  have ks: "keys_sorted (\<lambda>p. \<not> is_nan p) (side_rank ?buy) (levels ?buy b)"
    using book_ok_side [OF ok(1)] by (simp add: side_ok_def)
  have "level_ok b' ?buy e" if "e \<in> set (levels ?buy b')" for e
  proof (cases "\<exists>e \<in> set (levels ?buy b). side_rank ?buy (fst e) = side_rank ?buy pr")
    case True
    then obtain xs k l ys where m: "levels ?buy b = xs @ (k, l) # ys" "side_rank ?buy pr = side_rank ?buy k"
      by (metis prod.collapse split_list)
    then have "levels ?buy b' = xs @ (k, l @ [ptr]) # ys"
      using price_map.at_present(2) [of ?buy xs k l ys pr] ks ok(2) lv by simp
    moreover have "level_ok b' ?buy (k, l @ [ptr])"
      using book_ok_side [OF ok(1), of ?buy] sub [of "(k, l)" ?buy] m
      by (intro adds_level_new [OF assms]) (auto simp: side_ok_def)
    ultimately show ?thesis using that m old [of e ?buy] by auto
  next
    case False
    then obtain xs ys where "levels ?buy b = xs @ ys" "levels ?buy b' = xs @ (pr, [ptr]) # ys"
      using price_map.at_absent [OF ks ok(2)] lv by (metis append_Nil)
    then show ?thesis using that old [of e ?buy] adds_level_new [OF assms, of "[]" pr] by auto
  qed
  then have "side_ok b' ?buy" using price_map.sorted_at [OF ks ok(2)] lv by (simp add: side_ok_def)
  moreover have "side_ok b' (\<not> ?buy)"
    using book_ok_side [OF ok(1), of "\<not> ?buy"] old lv(2) by (simp add: side_ok_def)
  ultimately show ?thesis by (cases "s = ?buy") auto
qed

lemma adds_lookup:
  assumes "adds b now sd ty pr q ptr b'"
  shows "lookup_ok b'"
proof -
  obtain pool where lk: "order_lookup b' =
      AList.update (next_order_id b) \<lparr>loc_side = sd, loc_price = pr, loc_iterator = ptr\<rparr> (order_lookup b)"
    by (rule adds_fields [OF assms])
  have ok: "book_ok b" using assms by (simp add: adds_def)
  then have "p \<in> live b \<Longrightarrow> o_id (order_at b p) \<noteq> next_order_id b" for p
    using live_ids(2) by force
  moreover have "lookup_ok b" using ok by (simp add: book_ok_def)
  ultimately show ?thesis
    using adds_pool [OF assms]
    by (auto simp: lookup_ok_def lk adds_live [OF assms] update_conv' distinct_update split: if_splits)
qed

lemma add_order_ok:
  assumes "adds b now sd ty pr q ptr b'"
  shows "book_ok b'"
proof -
  obtain pool where n: "next_order_id b' = next_order_id b + 1" by (rule adds_fields [OF assms])
  have b: "book_ok b" "next_order_id b < next_order_id b + 1"
    using assms by (simp_all add: adds_def less_plus_1)
  have "0 < next_order_id b" using b(1) by (simp add: book_ok_def)
  with b have "0 < o_id (order_at b' p) \<and> o_id (order_at b' p) < next_order_id b'" if "p \<in> live b'" for p
    using that adds_pool(4,5) [OF assms] n live_ids [OF b(1), of p] order.strict_trans [OF _ b(2)]
    by (cases "p = ptr") (simp_all add: adds_live [OF assms])
  then show ?thesis
    using b n adds_pool [OF assms] adds_live [OF assms] adds_distinct [OF assms] adds_side [OF assms] adds_lookup [OF assms]
    by (auto simp: book_ok_def)
qed

lemma OrderBook_new_ok: "book_ok (OrderBook_new s n)"
  by (simp add: book_ok_def OrderBook_new_def live_def ptrs_def levels_def side_ok_def lookup_ok_def)

end
