(* ===== verification/BookSpec.thy ===== *)
theory BookSpec
  imports BookInvariant
begin

text \<open>
  What the order book promises, without pointers, pool or index: each side is the list of its
  orders in price-time priority. The operations on this abstract book are list operations, and the
  pointer structure refines it: \<open>abs_book\<close> commutes with every operation.
\<close>

section \<open>The abstract book\<close>

record abstract_book =
  a_bids :: "Order list"
  a_asks :: "Order list"
  a_next :: OrderId

definition abs_book :: "OrderBook \<Rightarrow> abstract_book" where
  "abs_book b = \<lparr>a_bids = queue True b, a_asks = queue False b, a_next = next_order_id b\<rparr>"

definition map_sides :: "(bool \<Rightarrow> Order list \<Rightarrow> Order list) \<Rightarrow> abstract_book \<Rightarrow> abstract_book" where
  "map_sides f a = a\<lparr>a_bids := f True (a_bids a), a_asks := f False (a_asks a)\<rparr>"

text \<open>An order joins behind every order whose price is at least as good.\<close>

definition enqueue :: "bool \<Rightarrow> Order \<Rightarrow> Order list \<Rightarrow> Order list" where
  "enqueue buy ord =
     insert_after (\<lambda>other. side_rank buy (o_price other) \<le> side_rank buy (o_price ord)) ord"

definition a_add :: "Order \<Rightarrow> abstract_book \<Rightarrow> abstract_book" where
  "a_add ord a = (map_sides (\<lambda>buy q. if buy = (o_side ord = Buy) then enqueue buy ord q else q) a)
     \<lparr>a_next := a_next a + 1\<rparr>"

definition a_cancel :: "OrderId \<Rightarrow> abstract_book \<Rightarrow> abstract_book" where
  "a_cancel i = map_sides (\<lambda>_. filter (\<lambda>ord. o_id ord \<noteq> i))"

definition a_reduce :: "OrderId \<Rightarrow> Quantity \<Rightarrow> abstract_book \<Rightarrow> abstract_book" where
  "a_reduce i q = map_sides (\<lambda>_. map (\<lambda>ord. if o_id ord = i then ord\<lparr>o_remaining_qty := q\<rparr> else ord))"

definition a_ids :: "abstract_book \<Rightarrow> OrderId set" where
  "a_ids a = o_id ` (set (a_bids a) \<union> set (a_asks a))"

section \<open>Refinement\<close>

lemma queue_order_at: "ord \<in> set (queue buy b) \<longleftrightarrow> (\<exists>p \<in> set (ptrs buy b). ord = order_at b p)"
  by (auto simp: queue_def)

lemma queue_cong:
  "ptrs s b' = ptrs s b \<Longrightarrow> \<forall>y \<in> set (ptrs s b). order_at b' y = order_at b y \<Longrightarrow> queue s b' = queue s b"
  by (simp add: queue_def)

lemma a_ids_abs: "a_ids (abs_book b) = (\<lambda>p. o_id (order_at b p)) ` live b"
  by (auto simp: a_ids_def abs_book_def queue_def live_def)

lemma queue_remove_order:
  assumes ok: "book_ok b" and p: "p \<in> live b"
  shows "queue buy (remove_order p b) = filter (\<lambda>ord. o_id ord \<noteq> o_id (order_at b p)) (queue buy b)"
proof -
  have eq: "o_id (order_at b q) \<noteq> o_id (order_at b p) \<longleftrightarrow> q \<noteq> p" if "q \<in> set (ptrs buy b)" for q
    using that live_id_inj [OF ok _ p] ptrs_live by blast
  have "ptrs buy (remove_order p b) = remove1 p (ptrs buy b)"
    using ptrs_remove_order [OF ok live_side [OF ok p]] ptrs_disjoint [OF ok live_side [OF ok p]]
    by (cases "buy = (o_side (order_at b p) = Buy)") (auto simp: remove1_idem)
  then show ?thesis
    using eq by (simp add: queue_def filter_map comp_def order_at_remove_order [OF ok p] filter_neq_remove1 [OF ptrs_distinct [OF ok]] cong: filter_cong)
qed

lemma queue_set_order:
  assumes ok: "book_ok b" and p: "p \<in> live b"
  shows "queue buy (set_order p new b) = map (\<lambda>ord. if o_id ord = o_id (order_at b p) then new else ord) (queue buy b)"
proof -
  have "o_id (order_at b q) = o_id (order_at b p) \<longleftrightarrow> q = p" if "q \<in> set (ptrs buy b)" for q
    using that live_id_inj [OF ok _ p] ptrs_live by blast
  then show ?thesis by (simp add: queue_def order_at_set_order [OF ok p])
qed

lemma queue_cancel_order:
  assumes ok: "book_ok b"
  shows "queue buy (snd (cancel_order i b)) = filter (\<lambda>ord. o_id ord \<noteq> i) (queue buy b)"
proof (cases "map_of (order_lookup b) i")
  case None
  then have "i \<notin> a_ids (abs_book b)" by (simp add: lookup_None [OF ok] a_ids_abs)
  then have "\<forall>ord \<in> set (queue buy b). o_id ord \<noteq> i"
    by (cases buy) (auto simp: a_ids_def abs_book_def)
  then show ?thesis using None by (simp add: cancel_order_None)
next
  case (Some loc)
  define p where "p = loc_iterator loc"
  have p: "p \<in> live b" "i = o_id (order_at b p)" using lookup_live(1,2) [OF ok Some] by (simp_all add: p_def)
  let ?b = "set_order p ((order_at b p)\<lparr>o_status := Cancelled\<rparr>) b"
  have b: "book_ok ?b" "p \<in> live ?b" by (simp_all add: set_order_ok [OF ok p(1)] p(1))
  have "o_id (order_at ?b p) = i" using p by (simp add: order_at_set_order [OF ok])
  then have "queue buy (snd (cancel_order i b)) = filter (\<lambda>ord. o_id ord \<noteq> i) (queue buy ?b)"
    using cancel_order_Some [OF ok p] queue_remove_order [OF b] by simp
  also have "\<dots> = filter (\<lambda>ord. o_id ord \<noteq> i) (queue buy b)"
    unfolding queue_set_order [OF ok p(1)] p(2) by (rule filter_map_same [where P = "\<lambda>ord. o_id ord \<noteq> _", unfolded not_not]) simp
  finally show ?thesis .
qed

lemma queue_adds:
  assumes "adds b now sd ty pr q ptr b'"
  shows "queue buy b' = (if buy = (sd = Buy)
    then enqueue buy (Order_new now (next_order_id b) sd ty pr q) (queue buy b) else queue buy b)"
proof -
  have at: "order_at b' p = order_at b p" if "p \<in> set (ptrs s b)" for p s
    using adds_pool(5) [OF assms] ptrs_live [OF that] by blast
  show ?thesis
  proof (cases "buy = (sd = Buy)")
    case True
    let ?P = "\<lambda>ord. side_rank buy (o_price ord) \<le> side_rank buy pr"
    have "ptrs buy b' = insert_after (\<lambda>p. ?P (order_at b' p)) ptr (ptrs buy b)"
      unfolding adds_ptrs(2) [OF assms True] using at by (intro insert_after_cong) simp
    then have "queue buy b' = insert_after ?P (order_at b' ptr) (map (order_at b') (ptrs buy b))"
      using map_insert_after [of "order_at b'" ?P] by (simp add: queue_def)
    moreover have "map (order_at b') (ptrs buy b) = queue buy b"
      using at by (simp add: queue_def)
    ultimately show ?thesis using True adds_pool(4) [OF assms] by (simp add: enqueue_def)
  next
    case False
    then have "ptrs buy b' = ptrs buy b" using adds_ptrs(1) [OF assms, of "\<not> buy"] by auto
    then show ?thesis using False at [of _ buy] by (simp add: queue_def)
  qed
qed

lemma abs_add:
  assumes "adds b now sd ty pr q ptr b'"
  shows "abs_book b' = a_add (Order_new now (next_order_id b) sd ty pr q) (abs_book b)"
proof -
  have "next_order_id b' = next_order_id b + 1" using adds_fields [OF assms] by auto
  then show ?thesis
    by (cases "sd = Buy") (auto simp: abs_book_def a_add_def map_sides_def queue_adds [OF assms])
qed

lemma cancel_order_next [simp]: "next_order_id (snd (cancel_order i b)) = next_order_id b"
  by (simp add: cancel_order_def Let_def split: option.splits)

lemma abs_cancel:
  assumes "book_ok b"
  shows "abs_book (snd (cancel_order i b)) = a_cancel i (abs_book b)" "fst (cancel_order i b) \<longleftrightarrow> i \<in> a_ids (abs_book b)"
proof -
  show "abs_book (snd (cancel_order i b)) = a_cancel i (abs_book b)"
    by (simp add: abs_book_def a_cancel_def map_sides_def queue_cancel_order [OF assms])
  show "fst (cancel_order i b) \<longleftrightarrow> i \<in> a_ids (abs_book b)"
    using lookup_None [OF assms, of i] by (auto simp: cancel_order_def a_ids_abs Let_def split: option.splits)
qed

text \<open>The remaining quantity of the order with an id, if there is one.\<close>

definition a_open :: "OrderId \<Rightarrow> abstract_book \<Rightarrow> Quantity option" where
  "a_open i a = map_option o_remaining_qty (find (\<lambda>ord. o_id ord = i) (a_bids a @ a_asks a))"

lemma find_unique:
  assumes "x \<in> set xs" and "P x" and "\<And>y. y \<in> set xs \<Longrightarrow> P y \<Longrightarrow> y = x"
  shows "find P xs = Some x"
proof (cases "find P xs")
  case None
  with assms(1,2) show ?thesis by (auto simp: find_None_iff)
next
  case (Some y)
  then have "y \<in> set xs" "P y" by (auto simp: find_Some_iff)
  with Some assms(3) show ?thesis by simp
qed

lemma a_open_live:
  assumes ok: "book_ok b" and p: "p \<in> live b"
  shows "a_open (o_id (order_at b p)) (abs_book b) = Some (o_remaining_qty (order_at b p))"
proof -
  have "find (\<lambda>ord. o_id ord = o_id (order_at b p)) (queue True b @ queue False b) = Some (order_at b p)"
  proof (rule find_unique)
    show "order_at b p \<in> set (queue True b @ queue False b)" using p by (auto simp: queue_def live_def)
    show "y = order_at b p" if "y \<in> set (queue True b @ queue False b)" "o_id y = o_id (order_at b p)" for y
    proof -
      from that(1) obtain p' where "p' \<in> live b" "y = order_at b p'" by (auto simp: queue_def live_def)
      then show ?thesis using live_id_inj [OF ok _ p, of p'] that(2) by simp
    qed
  qed simp
  then show ?thesis by (simp add: a_open_def abs_book_def)
qed

lemma a_open_None:
  "a_open i a = None \<longleftrightarrow> i \<notin> a_ids a"
  by (auto simp: a_open_def a_ids_def find_None_iff)

lemma abs_reduce:
  assumes ok: "book_ok b"
  shows "reduce_order i q b = (case a_open i (abs_book b) of
      None \<Rightarrow> (False, b)
    | Some r \<Rightarrow> (if r \<le> q then (False, b) else if q = 0 then cancel_order i b else (True, snd (reduce_order i q b))))"
    "a_open i (abs_book b) = Some r \<Longrightarrow> q < r \<Longrightarrow> q \<noteq> 0 \<Longrightarrow> abs_book (snd (reduce_order i q b)) = a_reduce i q (abs_book b)"
proof -
  have look: "map_of (order_lookup b) i = None \<longleftrightarrow> a_open i (abs_book b) = None"
    by (simp add: lookup_None [OF ok] a_open_None a_ids_abs)
  have live: "loc_iterator loc \<in> live b" "a_open i (abs_book b) = Some (o_remaining_qty (order_at b (loc_iterator loc)))"
    "i = o_id (order_at b (loc_iterator loc))"
    if "map_of (order_lookup b) i = Some loc" for loc
    using lookup_live(1,2) [OF ok that] a_open_live [OF ok, of "loc_iterator loc"] by auto
  show "reduce_order i q b = (case a_open i (abs_book b) of
      None \<Rightarrow> (False, b)
    | Some r \<Rightarrow> (if r \<le> q then (False, b) else if q = 0 then cancel_order i b else (True, snd (reduce_order i q b))))"
  proof (cases "map_of (order_lookup b) i")
    case None
    with look show ?thesis by (simp add: reduce_order_def)
  next
    case (Some loc)
    then show ?thesis by (simp add: live(2) [OF Some]) (simp add: reduce_order_def Let_def)
  qed
  assume r: "a_open i (abs_book b) = Some r" "q < r" "q \<noteq> 0"
  then obtain loc where loc: "map_of (order_lookup b) i = Some loc" using look by force
  define p where "p = loc_iterator loc"
  have p: "p \<in> live b" "i = o_id (order_at b p)" "r = o_remaining_qty (order_at b p)"
    using live [OF loc] r by (simp_all add: p_def)
  then have eq: "snd (reduce_order i q b) = set_order p ((order_at b p)\<lparr>o_remaining_qty := q\<rparr>) b"
    using loc r by (simp add: reduce_order_def Let_def p_def not_le)
  have "queue s (snd (reduce_order i q b)) = map (\<lambda>ord. if o_id ord = i then ord\<lparr>o_remaining_qty := q\<rparr> else ord) (queue s b)" for s
  proof -
    have "ord = order_at b p" if "ord \<in> set (queue s b)" "o_id ord = i" for ord
    proof -
      from that(1) obtain p' where "p' \<in> live b" "ord = order_at b p'" using ptrs_live by (auto simp: queue_def)
      then show ?thesis using live_id_inj [OF ok _ p(1), of p'] that(2) p(2) by simp
    qed
    then show ?thesis unfolding eq queue_set_order [OF ok p(1)] by (auto simp flip: p(2))
  qed
  moreover have "next_order_id (snd (reduce_order i q b)) = next_order_id b" by (simp add: eq)
  ultimately show "abs_book (snd (reduce_order i q b)) = a_reduce i q (abs_book b)"
    by (simp add: abs_book_def a_reduce_def map_sides_def)
qed

section \<open>Price-time priority\<close>

text \<open>\<open>before buy x y\<close>: on this side \<open>x\<close> trades before \<open>y\<close>.\<close>

definition before :: "bool \<Rightarrow> Order \<Rightarrow> Order \<Rightarrow> bool" where
  "before buy x y \<longleftrightarrow> side_rank buy (o_price x) < side_rank buy (o_price y)
     \<or> rank (o_price x) = rank (o_price y) \<and> o_id x < o_id y"

lemma before_rank: "before buy x y \<Longrightarrow> side_rank buy (o_price x) \<le> side_rank buy (o_price y)"
  by (auto simp: before_def side_rank_def)

lemma sorted_concat_levels:
  assumes "keys_sorted good rk m"
    and "\<forall>e \<in> set m. sorted_wrt (\<lambda>p q. f p < (f q :: 'a::order)) (snd e) \<and> (\<forall>p \<in> set (snd e). r p = rk (fst e))"
  shows "sorted_wrt (\<lambda>p q. r p < r q \<or> r p = r q \<and> f p < f q) (concat (map snd m))"
  using assms
proof (induction m)
  case (Cons e m)
  have "sorted_wrt (\<lambda>p q. r p < r q \<or> r p = r q \<and> f p < f q) (snd e)"
    using Cons.prems(2) by (auto intro: sorted_wrt_mono_rel [rotated])
  then show ?case using Cons by (auto simp: sorted_wrt_append)
qed simp

lemma queue_not_nan: "book_ok b \<Longrightarrow> ord \<in> set (queue buy b) \<Longrightarrow> \<not> is_nan (o_price ord)"
  using ptrs_side by (auto simp: queue_order_at)

lemma queue_sorted:
  assumes "book_ok b"
  shows "sorted_wrt (before buy) (queue buy b)"
proof -
  have "keys_sorted (\<lambda>p. \<not> is_nan p) (side_rank buy) (levels buy b)"
    and "\<forall>e \<in> set (levels buy b). sorted_wrt (\<lambda>p q. o_id (order_at b p) < o_id (order_at b q)) (snd e)
      \<and> (\<forall>p \<in> set (snd e). side_rank buy (o_price (order_at b p)) = side_rank buy (fst e))"
    using book_ok_side [OF assms, of buy] by (auto simp: side_ok_def level_ok_def)
  from sorted_concat_levels [OF this] show ?thesis
    by (simp add: queue_def ptrs_def sorted_wrt_map before_def)
qed

text \<open>The head of a side's queue is the front of its best level, and its price the best price.\<close>

lemma queue_head:
  assumes ok: "book_ok b"
  shows "(case levels buy b of [] \<Rightarrow> ptrs buy b = []
     | e # _ \<Rightarrow> snd e \<noteq> [] \<and> ptrs buy b \<noteq> [] \<and> hd (snd e) = hd (ptrs buy b)
         \<and> rank (o_price (order_at b (hd (ptrs buy b)))) = rank (fst e))"
proof (cases "levels buy b")
  case (Cons e m)
  then have "level_ok b buy e" using book_ok_side [OF ok, of buy] by (simp add: side_ok_def)
  then show ?thesis using Cons by (auto simp: ptrs_def level_ok_def)
qed (simp add: ptrs_def)

text \<open>\<open>best buy b\<close> is \<^verbatim>\<open>best_bid()\<close> or \<^verbatim>\<open>best_ask()\<close>.\<close>

definition best :: "bool \<Rightarrow> OrderBook \<Rightarrow> Price" where
  "best buy b = (if buy then best_bid b else best_ask b)"

lemma best_levels: "best buy b = (case levels buy b of [] \<Rightarrow> dzero | e # _ \<Rightarrow> fst e)"
  by (auto simp: best_def best_bid_def best_ask_def levels_def split: list.splits)

lemma best_rank:
  assumes ok: "book_ok b"
  shows "queue buy b = [] \<Longrightarrow> best buy b = dzero"
    "queue buy b = x # xs \<Longrightarrow> \<not> is_nan (best buy b) \<and> rank (best buy b) = rank (o_price x)"
proof -
  have ne: "ptrs buy b = [] \<longleftrightarrow> levels buy b = []"
    using queue_head [OF ok, of buy] by (cases "levels buy b") (auto simp: ptrs_def)
  then show "queue buy b = [] \<Longrightarrow> best buy b = dzero" by (simp add: queue_def best_levels)
  assume x: "queue buy b = x # xs"
  then obtain e m where e: "levels buy b = e # m" using ne by (cases "levels buy b") (auto simp: queue_def)
  have "keys_sorted (\<lambda>p. \<not> is_nan p) (side_rank buy) (levels buy b)"
    using book_ok_side [OF ok, of buy] by (simp add: side_ok_def)
  then show "\<not> is_nan (best buy b) \<and> rank (best buy b) = rank (o_price x)"
    using x queue_head [OF ok, of buy] by (auto simp: best_levels e queue_def)
qed

text \<open>The index has one entry per order on the book.\<close>

lemma order_count_live:
  assumes ok: "book_ok b"
  shows "order_count b = card (live b)" "order_count b = length (queue True b) + length (queue False b)"
proof -
  have dom: "dom (map_of (order_lookup b)) = (\<lambda>p. o_id (order_at b p)) ` live b"
    using lookup_None [OF ok] by (metis (no_types, lifting) domIff equalityI subsetI)
  have "inj_on (\<lambda>p. o_id (order_at b p)) (live b)"
    by (rule inj_onI) (rule live_id_inj [OF ok])
  then have "card (live b) = card (dom (map_of (order_lookup b)))" by (simp add: dom card_image)
  also have "\<dots> = order_count b"
    using ok distinct_card [of "map fst (order_lookup b)"]
    by (simp add: dom_map_of_conv_image_fst order_count_def book_ok_def lookup_ok_def)
  finally show "order_count b = card (live b)" by simp
  moreover have "card (live b) = length (ptrs True b @ ptrs False b)"
    unfolding live_def set_append [symmetric] using ok by (intro distinct_card) (simp add: book_ok_def)
  ultimately show "order_count b = length (queue True b) + length (queue False b)" by (simp add: queue_def)
qed

lemma total_quantity:
  "fold (\<lambda>(price, level) total. fold (\<lambda>ord total. total + o_remaining_qty (order_at b ord)) level total) m t =
     t + (\<Sum>p \<leftarrow> concat (map snd m). o_remaining_qty (order_at b p))"
proof -
  have "fold (\<lambda>ord total. total + o_remaining_qty (order_at b ord)) level t =
      t + (\<Sum>p \<leftarrow> level. o_remaining_qty (order_at b p))" for level t
    by (induction level arbitrary: t) (simp_all add: algebra_simps)
  then show ?thesis by (induction m arbitrary: t) (auto simp: algebra_simps)
qed

end
