(* ===== verification/MatchingEngine.thy ===== *)
theory MatchingEngine
  imports BookSpec
begin

text \<open>
  \<^verbatim>\<open>include/core/MatchingEngine.h\<close> and \<^verbatim>\<open>src/core/MatchingEngine.cpp\<close>. The trade callback is a
  state transformer: \<open>'s\<close> is the state of whoever registered it, threaded through \<open>submit_order\<close>. The
  mutex makes \<^verbatim>\<open>submit_order\<close> and \<^verbatim>\<open>cancel_order\<close> atomic, so a call is one function from state to
  state. \<open>now k\<close> is the \<open>k\<close>-th reading of the clock: on entry, for the order's stamp, for each trade,
  and on exit.

  \<^verbatim>\<open>while (incoming->remaining_qty > 0)\<close> need not end on a book whose index is broken: the loop is a
  \<open>partial_function\<close> whose value \<open>None\<close> means that it does not return. \<open>MatchingSpec\<close> proves that it
  returns on every well-formed book.
\<close>

section \<open>State\<close>

record EngineStats =
  total_orders :: uint64
  total_trades :: uint64
  total_cancels :: uint64
  total_rejects :: uint64
  total_volume :: uint64
  total_notional :: double
  total_latency_ns :: uint64
  min_latency_ns :: uint64
  max_latency_ns :: uint64

definition EngineStats_init :: EngineStats where
  "EngineStats_init = \<lparr>total_orders = 0, total_trades = 0, total_cancels = 0, total_rejects = 0,
     total_volume = 0, total_notional = dzero, total_latency_ns = 0,
     min_latency_ns = 0xFFFFFFFFFFFFFFFF, max_latency_ns = 0\<rparr>"

definition avg_latency_ns :: "EngineStats \<Rightarrow> double" where
  "avg_latency_ns st =
     (if 0 < total_orders st then ddiv (of_uint (total_latency_ns st)) (of_uint (total_orders st)) else dzero)"

type_synonym 's TradeCallback = "Trade \<Rightarrow> 's \<Rightarrow> 's"

record 's MatchingEngine =
  books :: "(string \<times> OrderBook) list"
  trade_callback :: "'s TradeCallback option"
  stats :: EngineStats

definition MatchingEngine_new :: "'s MatchingEngine" where
  "MatchingEngine_new = \<lparr>books = [], trade_callback = None, stats = EngineStats_init\<rparr>"

definition reset_stats :: "'s MatchingEngine \<Rightarrow> 's MatchingEngine" where
  "reset_stats e = e\<lparr>stats := EngineStats_init\<rparr>"

definition set_trade_callback :: "'s TradeCallback \<Rightarrow> 's MatchingEngine \<Rightarrow> 's MatchingEngine" where
  "set_trade_callback cb e = e\<lparr>trade_callback := Some cb\<rparr>"

text \<open>The default argument \<^verbatim>\<open>pool_size = 100000\<close> of the \<^verbatim>\<open>OrderBook\<close> constructor.\<close>

definition default_pool_size :: nat where
  "default_pool_size = 100000"

definition get_order_book :: "string \<Rightarrow> 's MatchingEngine \<Rightarrow> OrderBook \<times> 's MatchingEngine" where
  "get_order_book symb e =
     (case map_of (books e) symb of
        Some book \<Rightarrow> (book, e)
      | None \<Rightarrow> (let book = OrderBook_new symb default_pool_size
                 in (book, e\<lparr>books := AList.update symb book (books e)\<rparr>)))"

section \<open>Matching\<close>

definition execute_match :: "Timestamp \<Rightarrow> pointer \<Rightarrow> pointer \<Rightarrow> OrderBook \<Rightarrow> Trade \<times> OrderBook" where
  "execute_match now incoming resting b =
     (let fill_qty = min (o_remaining_qty (order_at b incoming)) (o_remaining_qty (order_at b resting));
          fill_price = o_price (order_at b resting);
          b1 = set_order incoming ((order_at b incoming)\<lparr>o_remaining_qty := o_remaining_qty (order_at b incoming) - fill_qty\<rparr>) b;
          b2 = set_order resting ((order_at b1 resting)\<lparr>o_remaining_qty := o_remaining_qty (order_at b1 resting) - fill_qty\<rparr>) b1;
          trade = (if o_side (order_at b2 incoming) = Buy
                   then \<lparr>t_buy_order_id = o_id (order_at b2 incoming), t_sell_order_id = o_id (order_at b2 resting),
                         t_price = fill_price, t_quantity = fill_qty, t_timestamp = now\<rparr>
                   else \<lparr>t_buy_order_id = o_id (order_at b2 resting), t_sell_order_id = o_id (order_at b2 incoming),
                         t_price = fill_price, t_quantity = fill_qty, t_timestamp = now\<rparr>)
      in (trade, b2))"

text \<open>One turn of the loop: \<open>None\<close> where the loop condition fails or the body breaks.\<close>

definition match_step :: "Timestamp \<Rightarrow> bool \<Rightarrow> pointer \<Rightarrow> OrderBook \<Rightarrow> (Trade \<times> OrderBook) option" where
  "match_step now is_buy incoming b =
     (if 0 < o_remaining_qty (order_at b incoming)
      then (case (if is_buy then best_ask_level b else best_bid_level b) of
              None \<Rightarrow> None
            | Some [] \<Rightarrow> None
            | Some (resting # _) \<Rightarrow>
                (let price_match = (if is_buy then dge (o_price (order_at b incoming)) (o_price (order_at b resting))
                                    else dle (o_price (order_at b incoming)) (o_price (order_at b resting)))
                 in if \<not> price_match then None
                    else (let (trade, b1) = execute_match now incoming resting b
                          in if is_filled (order_at b1 resting)
                             then Some (trade, remove_order resting
                               (set_order resting ((order_at b1 resting)\<lparr>o_status := Filled\<rparr>) b1))
                             else Some (trade, b1))))
      else None)"

partial_function (option) match_loop ::
    "clock \<Rightarrow> bool \<Rightarrow> pointer \<Rightarrow> OrderBook \<Rightarrow> Trade list \<Rightarrow> (Trade list \<times> OrderBook) option" where
  "match_loop now is_buy incoming b trades =
     (case match_step (now (length trades)) is_buy incoming b of
        None \<Rightarrow> Some (trades, b)
      | Some (trade, b') \<Rightarrow> match_loop now is_buy incoming b' (trades @ [trade]))"

definition match_order :: "clock \<Rightarrow> OrderBook \<Rightarrow> pointer \<Rightarrow> (Trade list \<times> OrderBook) option" where
  "match_order now book incoming =
     (case match_loop now (o_side (order_at book incoming) = Buy) incoming book [] of
        None \<Rightarrow> None
      | Some (trades, b) \<Rightarrow>
          (let ord = order_at b incoming
           in Some (trades,
                if is_filled ord then set_order incoming (ord\<lparr>o_status := Filled\<rparr>) b
                else if 0 < filled_qty ord then set_order incoming (ord\<lparr>o_status := PartiallyFilled\<rparr>) b
                else b)))"

section \<open>The entry points\<close>

text \<open>The body of the loop over the trades: statistics, then the callback.\<close>

definition record_trade :: "'s TradeCallback option \<Rightarrow> Trade \<Rightarrow> EngineStats \<times> 's \<Rightarrow> EngineStats \<times> 's" where
  "record_trade cb trade = (\<lambda>(st, s).
     (st\<lparr>total_trades := total_trades st + 1,
         total_volume := total_volume st + ucast (t_quantity trade),
         total_notional := dadd (total_notional st) (dmul (t_price trade) (of_uint (t_quantity trade)))\<rparr>,
      (case cb of None \<Rightarrow> s | Some f \<Rightarrow> f trade s)))"

text \<open>After matching: a filled order is removed, the remainder of a market or IOC order cancelled.\<close>

definition post_match :: "OrderType \<Rightarrow> pointer \<Rightarrow> OrderBook \<Rightarrow> OrderBook" where
  "post_match ty ord b =
     (if is_filled (order_at b ord) then remove_order ord b
      else if ty = Market \<or> ty = IOC
      then remove_order ord (set_order ord ((order_at b ord)\<lparr>o_status :=
             (if 0 < filled_qty (order_at b ord) then PartiallyFilled else Cancelled)\<rparr>) b)
      else b)"

definition record_latency :: "uint64 \<Rightarrow> EngineStats \<Rightarrow> EngineStats" where
  "record_latency latency st = st\<lparr>total_latency_ns := total_latency_ns st + latency,
     min_latency_ns := min (min_latency_ns st) latency, max_latency_ns := max (max_latency_ns st) latency\<rparr>"

definition effective_price :: "Side \<Rightarrow> OrderType \<Rightarrow> Price \<Rightarrow> Price" where
  "effective_price side ty price =
     (if ty = Market then (if side = Buy then dbl_max else dzero) else price)"

definition submit_order ::
    "clock \<Rightarrow> string \<Rightarrow> Side \<Rightarrow> OrderType \<Rightarrow> Price \<Rightarrow> Quantity \<Rightarrow> 's MatchingEngine \<times> 's
      \<Rightarrow> (OrderId \<times> 's MatchingEngine \<times> 's) option" where
  "submit_order now symb side ty price quantity = (\<lambda>(e, s).
     (let start = now 0;
          (book, e1) = get_order_book symb e;
          e2 = e1\<lparr>stats := (stats e1)\<lparr>total_orders := total_orders (stats e1) + 1\<rparr>\<rparr>
      in if quantity = 0 then Some (0, e2\<lparr>stats := (stats e2)\<lparr>total_rejects := total_rejects (stats e2) + 1\<rparr>\<rparr>, s)
         else if ty = Limit \<and> dle price dzero
         then Some (0, e2\<lparr>stats := (stats e2)\<lparr>total_rejects := total_rejects (stats e2) + 1\<rparr>\<rparr>, s)
         else (let (ord, book1) = add_order (now 1) side ty (effective_price side ty price) quantity book;
                   id' = o_id (order_at book1 ord)
               in case match_order (\<lambda>i. now (2 + i)) book1 ord of
                    None \<Rightarrow> None
                  | Some (trades, book2) \<Rightarrow>
                      (let (st, s') = fold (record_trade (trade_callback e2)) trades (stats e2, s);
                           book3 = post_match ty ord book2;
                           latency = now (2 + length trades) - start
                       in Some (id', e2\<lparr>books := AList.update symb book3 (books e2),
                                        stats := record_latency latency st\<rparr>, s')))))"

definition engine_cancel_order :: "string \<Rightarrow> OrderId \<Rightarrow> 's MatchingEngine \<Rightarrow> bool \<times> 's MatchingEngine" where
  "engine_cancel_order symb order_id e =
     (case map_of (books e) symb of
        None \<Rightarrow> (False, e)
      | Some book \<Rightarrow>
          (let (cancelled, book') = cancel_order order_id book;
               e1 = e\<lparr>books := AList.update symb book' (books e)\<rparr>
           in (cancelled, if cancelled
                then e1\<lparr>stats := (stats e1)\<lparr>total_cancels := total_cancels (stats e1) + 1\<rparr>\<rparr> else e1)))"

end
