(* ===== verification/MatchingSpec.thy ===== *)
theory MatchingSpec
  imports MatchingEngine
begin

text \<open>
  The matching loop against its specification: filling a quantity from the priority queue of the
  opposite side. The loop returns on every well-formed book, and what it does to the book and the
  trades it makes are those of \<open>fill_queue\<close>.
\<close>

section \<open>Filling from a queue\<close>

fun fill_queue :: "(Order \<Rightarrow> bool) \<Rightarrow> Quantity \<Rightarrow> Order list \<Rightarrow> (Order \<times> Quantity) list \<times> Quantity \<times> Order list" where
  "fill_queue match q [] = ([], q, [])"
| "fill_queue match q (r # rs) =
     (if q = 0 \<or> \<not> match r then ([], q, r # rs)
      else if q < o_remaining_qty r then ([(r, q)], 0, r\<lparr>o_remaining_qty := o_remaining_qty r - q\<rparr> # rs)
      else (let (fs, q', rs') = fill_queue match (q - o_remaining_qty r) rs
            in ((r, o_remaining_qty r) # fs, q', rs')))"

definition crosses :: "bool \<Rightarrow> Price \<Rightarrow> Order \<Rightarrow> bool" where
  "crosses is_buy limit resting =
     (if is_buy then dge limit (o_price resting) else dle limit (o_price resting))"

definition trade_of :: "bool \<Rightarrow> OrderId \<Rightarrow> Timestamp \<Rightarrow> Order \<times> Quantity \<Rightarrow> Trade" where
  "trade_of is_buy i ts = (\<lambda>(r, f).
     \<lparr>t_buy_order_id = (if is_buy then i else o_id r), t_sell_order_id = (if is_buy then o_id r else i),
      t_price = o_price r, t_quantity = f, t_timestamp = ts\<rparr>)"

fun trades_of :: "clock \<Rightarrow> nat \<Rightarrow> bool \<Rightarrow> OrderId \<Rightarrow> (Order \<times> Quantity) list \<Rightarrow> Trade list" where
  "trades_of now n is_buy i [] = []"
| "trades_of now n is_buy i (f # fs) = trade_of is_buy i (now n) f # trades_of now (Suc n) is_buy i fs"

section \<open>One turn of the loop\<close>

lemma execute_match_effect:
  assumes ok: "book_ok b" and inc: "inc \<in> live b" and res: "p \<in> live b" and ne: "inc \<noteq> p"
    and buy: "is_buy = (o_side (order_at b inc) = Buy)"
    and f: "f = min (o_remaining_qty (order_at b inc)) (o_remaining_qty (order_at b p))"
  shows "\<exists>b1. execute_match now inc p b = (trade_of is_buy (o_id (order_at b inc)) now (order_at b p, f), b1)
    \<and> book_ok b1 \<and> live b1 = live b \<and> (\<forall>s. ptrs s b1 = ptrs s b) \<and> next_order_id b1 = next_order_id b
    \<and> order_at b1 inc = (order_at b inc)\<lparr>o_remaining_qty := o_remaining_qty (order_at b inc) - f\<rparr>
    \<and> order_at b1 p = (order_at b p)\<lparr>o_remaining_qty := o_remaining_qty (order_at b p) - f\<rparr>
    \<and> (\<forall>x. x \<noteq> inc \<longrightarrow> x \<noteq> p \<longrightarrow> order_at b1 x = order_at b x)"
proof -
  let ?i = "(order_at b inc)\<lparr>o_remaining_qty := o_remaining_qty (order_at b inc) - f\<rparr>"
  let ?r = "(order_at b p)\<lparr>o_remaining_qty := o_remaining_qty (order_at b p) - f\<rparr>"
  let ?b1 = "set_order inc ?i b" and ?b2 = "set_order p ?r (set_order inc ?i b)"
  have ok1: "book_ok ?b1" by (rule set_order_ok [OF ok inc]) simp
  have at1: "order_at ?b1 x = (if x = inc then ?i else order_at b x)" for x
    by (rule order_at_set_order [OF ok inc])
  have p1: "p \<in> live ?b1" using res by simp
  have ok2: "book_ok ?b2" by (rule set_order_ok [OF ok1 p1]) (simp add: at1 ne [symmetric])
  have at2: "order_at ?b2 x = (if x = p then ?r else order_at ?b1 x)" for x
    by (rule order_at_set_order [OF ok1 p1])
  have "execute_match now inc p b = (trade_of is_buy (o_id (order_at b inc)) now (order_at b p, f), ?b2)"
    using ne buy by (simp add: execute_match_def Let_def at1 at2 trade_of_def flip: f)
  then show ?thesis using ok2 ne by (intro exI [of _ ?b2]) (simp add: at1 at2)
qed

lemma best_level_levels:
  "(if is_buy then best_ask_level b else best_bid_level b) =
     (case levels (\<not> is_buy) b of [] \<Rightarrow> None | e # _ \<Rightarrow> Some (snd e))"
  by (auto simp: best_ask_level_def best_bid_level_def levels_def split: list.splits)

lemma match_step_unfold:
  assumes ok: "book_ok b"
  shows "match_step now is_buy inc b =
    (if 0 < o_remaining_qty (order_at b inc)
     then (case ptrs (\<not> is_buy) b of
             [] \<Rightarrow> None
           | p # _ \<Rightarrow> (if \<not> crosses is_buy (o_price (order_at b inc)) (order_at b p) then None
                      else (let (trade, b1) = execute_match now inc p b
                            in if is_filled (order_at b1 p)
                               then Some (trade, remove_order p (set_order p ((order_at b1 p)\<lparr>o_status := Filled\<rparr>) b1))
                               else Some (trade, b1))))
     else None)"
proof (cases "levels (\<not> is_buy) b")
  case Nil
  then show ?thesis using queue_head [OF ok, of "\<not> is_buy"] by (simp add: match_step_def best_level_levels)
next
  case (Cons e m)
  then obtain p l ps where "snd e = p # l" "ptrs (\<not> is_buy) b = p # ps"
    using queue_head [OF ok, of "\<not> is_buy"] by (auto simp: neq_Nil_conv)
  then show ?thesis using Cons by (simp add: match_step_def best_level_levels crosses_def)
qed

lemma match_step_stop:
  assumes "book_ok b"
    and "o_remaining_qty (order_at b inc) = 0 \<or> ptrs (\<not> is_buy) b = []
      \<or> \<not> crosses is_buy (o_price (order_at b inc)) (order_at b (hd (ptrs (\<not> is_buy) b)))"
  shows "match_step now is_buy inc b = None"
  using assms(2) by (auto simp: match_step_unfold [OF assms(1)] split: list.splits)

lemma match_step_go:
  assumes ok: "book_ok b" and inc: "inc \<in> set (ptrs is_buy b)" and p: "ptrs (\<not> is_buy) b = p # ps"
    and q: "0 < o_remaining_qty (order_at b inc)"
    and x: "crosses is_buy (o_price (order_at b inc)) (order_at b p)"
    and f: "f = min (o_remaining_qty (order_at b inc)) (o_remaining_qty (order_at b p))"
  shows "\<exists>b'. match_step now is_buy inc b = Some (trade_of is_buy (o_id (order_at b inc)) now (order_at b p, f), b')
    \<and> book_ok b' \<and> ptrs is_buy b' = ptrs is_buy b \<and> next_order_id b' = next_order_id b
    \<and> order_at b' inc = (order_at b inc)\<lparr>o_remaining_qty := o_remaining_qty (order_at b inc) - f\<rparr>
    \<and> (\<forall>y. y \<noteq> inc \<longrightarrow> y \<noteq> p \<longrightarrow> order_at b' y = order_at b y)
    \<and> (if f = o_remaining_qty (order_at b p) then ptrs (\<not> is_buy) b' = ps
       else ptrs (\<not> is_buy) b' = p # ps
         \<and> order_at b' p = (order_at b p)\<lparr>o_remaining_qty := o_remaining_qty (order_at b p) - f\<rparr>)"
proof -
  have res: "p \<in> live b" and ne: "inc \<noteq> p"
    using ptrs_live [of p "\<not> is_buy" b] ptrs_disjoint [OF ok inc] p by auto
  have buy: "is_buy = (o_side (order_at b inc) = Buy)" using ptrs_side(1) [OF ok inc] by simp
  obtain b1 where m: "execute_match now inc p b = (trade_of is_buy (o_id (order_at b inc)) now (order_at b p, f), b1)"
    and b1: "book_ok b1" "live b1 = live b" "\<forall>s. ptrs s b1 = ptrs s b" "next_order_id b1 = next_order_id b"
    "order_at b1 inc = (order_at b inc)\<lparr>o_remaining_qty := o_remaining_qty (order_at b inc) - f\<rparr>"
    "order_at b1 p = (order_at b p)\<lparr>o_remaining_qty := o_remaining_qty (order_at b p) - f\<rparr>"
    "\<forall>x. x \<noteq> inc \<longrightarrow> x \<noteq> p \<longrightarrow> order_at b1 x = order_at b x"
    using execute_match_effect [OF ok ptrs_live [OF inc] res ne buy f] by blast
  have filled: "is_filled (order_at b1 p) \<longleftrightarrow> f = o_remaining_qty (order_at b p)"
    by (auto simp: is_filled_def b1)
  show ?thesis
  proof (cases "f = o_remaining_qty (order_at b p)")
    case False
    then show ?thesis using m b1 p q x filled by (simp add: match_step_unfold [OF ok])
  next
    case True
    let ?b2 = "set_order p ((order_at b1 p)\<lparr>o_status := Filled\<rparr>) b1"
    have p1: "p \<in> live b1" using res b1 by simp
    have ok2: "book_ok ?b2" by (rule set_order_ok [OF b1(1) p1]) simp
    have p2: "p \<in> set (ptrs (\<not> is_buy) ?b2)" "p \<in> live ?b2" using b1 p res by auto
    have "book_ok (remove_order p ?b2)" by (rule remove_order_ok [OF ok2 p2(2)])
    moreover have "ptrs (\<not> is_buy) (remove_order p ?b2) = ps" "ptrs is_buy (remove_order p ?b2) = ptrs is_buy b"
      using ptrs_remove_order [OF ok2 p2(1)] b1 p by auto
    moreover have "order_at (remove_order p ?b2) y = (if y = p then (order_at b1 p)\<lparr>o_status := Filled\<rparr> else order_at b1 y)" for y
      by (simp add: order_at_remove_order [OF ok2 p2(2)] order_at_set_order [OF b1(1) p1])
    ultimately show ?thesis
      using m b1 p q x filled True ne remove_order_effect(3) [OF ok2 p2(1)]
      by (simp add: match_step_unfold [OF ok])
  qed
qed

section \<open>The whole loop\<close>

text \<open>What a state the loop has left tells of the state it started from.\<close>

definition matched :: "bool \<Rightarrow> pointer \<Rightarrow> OrderBook \<Rightarrow> Quantity \<Rightarrow> Order list \<Rightarrow> OrderBook \<Rightarrow> bool" where
  "matched is_buy inc b q rs b' \<longleftrightarrow> book_ok b' \<and> ptrs is_buy b' = ptrs is_buy b \<and> queue (\<not> is_buy) b' = rs
     \<and> next_order_id b' = next_order_id b \<and> order_at b' inc = (order_at b inc)\<lparr>o_remaining_qty := q\<rparr>
     \<and> (\<forall>y \<in> set (ptrs is_buy b). y \<noteq> inc \<longrightarrow> order_at b' y = order_at b y)"

lemma match_loop_stop:
  "match_step (now (length trades)) is_buy inc b = None \<Longrightarrow> match_loop now is_buy inc b trades = Some (trades, b)"
  by (simp add: match_loop.simps)

lemma match_loop_go:
  "match_step (now (length trades)) is_buy inc b = Some (t, b')
   \<Longrightarrow> match_loop now is_buy inc b trades = match_loop now is_buy inc b' (trades @ [t])"
  by (subst match_loop.simps) simp

text \<open>One step of the loop as the queue of the opposite side sees it: the head is consumed or reduced.\<close>

lemma match_step_queue:
  assumes ok: "book_ok b" and inc: "inc \<in> set (ptrs is_buy b)"
    and queue: "queue (\<not> is_buy) b = r # rest"
    and go: "0 < o_remaining_qty (order_at b inc)" "crosses is_buy (o_price (order_at b inc)) r"
    and f: "f = min (o_remaining_qty (order_at b inc)) (o_remaining_qty r)"
  obtains b' where "match_step t is_buy inc b = Some (trade_of is_buy (o_id (order_at b inc)) t (r, f), b')"
    "book_ok b'" "ptrs is_buy b' = ptrs is_buy b" "next_order_id b' = next_order_id b"
    "order_at b' inc = (order_at b inc)\<lparr>o_remaining_qty := o_remaining_qty (order_at b inc) - f\<rparr>"
    "\<forall>y \<in> set (ptrs is_buy b). y \<noteq> inc \<longrightarrow> order_at b' y = order_at b y"
    "queue (\<not> is_buy) b' =
       (if f = o_remaining_qty r then rest else r\<lparr>o_remaining_qty := o_remaining_qty r - f\<rparr> # rest)"
proof -
  obtain p ps where ps: "ptrs (\<not> is_buy) b = p # ps" "order_at b p = r" "map (order_at b) ps = rest"
    using queue by (auto simp: queue_def)
  obtain b' where b': "match_step t is_buy inc b = Some (trade_of is_buy (o_id (order_at b inc)) t (r, f), b')"
    "book_ok b'" "ptrs is_buy b' = ptrs is_buy b" "next_order_id b' = next_order_id b"
    "order_at b' inc = (order_at b inc)\<lparr>o_remaining_qty := o_remaining_qty (order_at b inc) - f\<rparr>"
    and others: "\<forall>y. y \<noteq> inc \<longrightarrow> y \<noteq> p \<longrightarrow> order_at b' y = order_at b y"
    and rest: "if f = o_remaining_qty r then ptrs (\<not> is_buy) b' = ps
      else ptrs (\<not> is_buy) b' = p # ps \<and> order_at b' p = r\<lparr>o_remaining_qty := o_remaining_qty r - f\<rparr>"
    using match_step_go [OF ok inc ps(1), of f t] go f ps(2) by auto
  have "inc \<notin> set (p # ps)" "distinct (p # ps)" and p: "\<forall>y \<in> set (ptrs is_buy b). y \<noteq> p"
    using ptrs_disjoint [OF ok inc] ptrs_distinct [OF ok, of "\<not> is_buy"] ptrs_disjoint [OF ok, of _ is_buy] ps
    by auto
  then have "map (order_at b') ps = rest" using others ps(3) by auto
  then have "queue (\<not> is_buy) b' =
      (if f = o_remaining_qty r then rest else r\<lparr>o_remaining_qty := o_remaining_qty r - f\<rparr> # rest)"
    using rest by (auto simp: queue_def split: if_splits)
  then show thesis using that b' others p by blast
qed

text \<open>Filling from a queue whose head is consumed whole goes on with the rest of the queue.\<close>

lemma fill_queue_consume:
  assumes "fill_queue match q (r # rest) = (fs, q', rs)"
    and "\<not> (q = 0 \<or> \<not> match r \<or> q < o_remaining_qty r)"
  obtains fs' where "fill_queue match (q - o_remaining_qty r) rest = (fs', q', rs)"
    "fs = (r, o_remaining_qty r) # fs'"
  using assms by (auto split: prod.splits)

lemma match_loop_spec:
  assumes "book_ok b" and "inc \<in> set (ptrs is_buy b)"
    and "fill_queue (crosses is_buy (o_price (order_at b inc))) (o_remaining_qty (order_at b inc)) (queue (\<not> is_buy) b)
      = (fs, q, rs)"
  shows "\<exists>b'. match_loop now is_buy inc b trades =
      Some (trades @ trades_of now (length trades) is_buy (o_id (order_at b inc)) fs, b')
    \<and> matched is_buy inc b q rs b'"
  using assms
proof (induction "queue (\<not> is_buy) b" arbitrary: b trades fs)
  case Nil
  then have "match_step (now (length trades)) is_buy inc b = None"
    by (intro match_step_stop) (auto simp: queue_def)
  then show ?case using Nil by (auto simp: match_loop_stop matched_def)
next
  case (Cons r rest)
  note ok = Cons.prems(1) and inc = Cons.prems(2) and fill = Cons.prems(3) [folded Cons.hyps(2)]
  let ?q = "o_remaining_qty (order_at b inc)" and ?x = "crosses is_buy (o_price (order_at b inc))"
  show ?case
  proof (cases "?q = 0 \<or> \<not> ?x r")
    case True
    then have "match_step (now (length trades)) is_buy inc b = None"
      using Cons.hyps(2) by (intro match_step_stop [OF ok]) (auto simp: queue_def)
    then show ?thesis using True ok fill Cons.hyps(2) [symmetric] by (auto simp: match_loop_stop matched_def)
  next
    case go: False
    define f where "f = min ?q (o_remaining_qty r)"
    let ?t = "trade_of is_buy (o_id (order_at b inc)) (now (length trades)) (r, f)"
    obtain b' where step: "match_step (now (length trades)) is_buy inc b = Some (?t, b')"
      and b': "book_ok b'" "ptrs is_buy b' = ptrs is_buy b" "next_order_id b' = next_order_id b"
        "order_at b' inc = (order_at b inc)\<lparr>o_remaining_qty := ?q - f\<rparr>"
        "\<forall>y \<in> set (ptrs is_buy b). y \<noteq> inc \<longrightarrow> order_at b' y = order_at b y"
        "queue (\<not> is_buy) b' =
           (if f = o_remaining_qty r then rest else r\<lparr>o_remaining_qty := o_remaining_qty r - f\<rparr> # rest)"
      using match_step_queue [OF ok inc Cons.hyps(2) [symmetric] _ _ f_def] go by (auto simp: word_gt_0)
    note loop = match_loop_go [of now trades is_buy inc b ?t b', OF step]
    show ?thesis
    proof (cases "?q < o_remaining_qty r")
      case True
      then have f: "f = ?q" "f \<noteq> o_remaining_qty r" by (auto simp: f_def)
      then have "match_loop now is_buy inc b' (trades @ [?t]) = Some (trades @ [?t], b')"
        using b' by (intro match_loop_stop match_step_stop) auto
      then show ?thesis using loop b' f fill go True by (auto simp: matched_def)
    next
      case False
      then have f: "f = o_remaining_qty r" by (simp add: f_def min_def not_less)
      obtain fs' where fs': "fill_queue ?x (?q - f) rest = (fs', q, rs)" "fs = (r, f) # fs'"
        using fill_queue_consume [OF fill] go False f by auto
      have "rest = queue (\<not> is_buy) b'" "inc \<in> set (ptrs is_buy b')" using b' f inc by simp_all
      from Cons.hyps(1) [OF this(1) b'(1) this(2), of fs' "trades @ [?t]"]
      show ?thesis using loop b' f fs' by (auto simp: matched_def)
    qed
  qed
qed

section \<open>What filling from a queue does\<close>

lemma unat_diff: "(a::'a::len word) \<le> b \<Longrightarrow> unat (b - a) = unat b - unat a"
  by (rule unat_sub)

text \<open>Nothing is lost or created: what was filled and what is left add up.\<close>

lemma fill_queue_conserves:
  "fill_queue match q qs = (fs, q', rs) \<Longrightarrow> (\<Sum>(r, f) \<leftarrow> fs. unat f) + unat q' = unat q"
proof (induction match q qs arbitrary: fs q' rs rule: fill_queue.induct)
  case (2 match q r rest)
  show ?case
  proof (cases "q = 0 \<or> \<not> match r \<or> q < o_remaining_qty r")
    case False
    then obtain fs' where fs': "fill_queue match (q - o_remaining_qty r) rest = (fs', q', rs)"
      "fs = (r, o_remaining_qty r) # fs'"
      using "2.prems" by (blast elim: fill_queue_consume)
    have "o_remaining_qty r \<le> q" using False by (simp add: not_less)
    then show ?thesis
      using "2.IH" [OF _ _ fs'(1)] False fs'(2) by (simp add: unat_diff word_le_nat_alt)
  qed (use "2.prems" in \<open>auto split: if_splits\<close>)
qed auto

text \<open>The orders filled are a prefix of the queue, every one of them matching; all but the last are
  filled completely, and what is left of the queue is the rest, its head possibly reduced.\<close>

lemma fill_queue_prefix:
  "fill_queue match q qs = (fs, q', rs) \<Longrightarrow>
     map fst fs = take (length fs) qs \<and> (\<forall>(r, f) \<in> set fs. match r \<and> f \<le> o_remaining_qty r)
     \<and> (rs = drop (length fs) qs
        \<or> (\<exists>r f. fs \<noteq> [] \<and> last fs = (r, f) \<and> f < o_remaining_qty r \<and> q' = 0
             \<and> rs = r\<lparr>o_remaining_qty := o_remaining_qty r - f\<rparr> # drop (length fs) qs))"
proof (induction match q qs arbitrary: fs q' rs rule: fill_queue.induct)
  case (2 match q r rest)
  show ?case
  proof (cases "q = 0 \<or> \<not> match r \<or> q < o_remaining_qty r")
    case True
    then show ?thesis using "2.prems" by (auto split: if_splits)
  next
    case False
    then obtain fs' where fs': "fill_queue match (q - o_remaining_qty r) rest = (fs', q', rs)"
      "fs = (r, o_remaining_qty r) # fs'"
      using "2.prems" by (blast elim: fill_queue_consume)
    show ?thesis using "2.IH" [OF _ _ fs'(1)] False fs'(2) by auto
  qed
qed auto

text \<open>Filling goes on as long as it can.\<close>

lemma fill_queue_stops:
  "fill_queue match q qs = (fs, q', rs) \<Longrightarrow> q' = 0 \<or> rs = [] \<or> \<not> match (hd rs)"
proof (induction match q qs arbitrary: fs q' rs rule: fill_queue.induct)
  case (2 match q r rest)
  show ?case
  proof (cases "q = 0 \<or> \<not> match r \<or> q < o_remaining_qty r")
    case False
    then obtain fs' where fs': "fill_queue match (q - o_remaining_qty r) rest = (fs', q', rs)"
      using "2.prems" by (auto split: prod.splits)
    show ?thesis using "2.IH" [OF _ _ fs'] False by auto
  qed (use "2.prems" in \<open>auto split: if_splits\<close>)
qed auto

lemma fill_queue_pos:
  assumes "fill_queue match q qs = (fs, q', rs)" and "\<forall>r \<in> set qs. 0 < o_remaining_qty r"
  shows "\<forall>(r, f) \<in> set fs. 0 < f" "\<forall>r \<in> set rs. 0 < o_remaining_qty r" "q' \<le> q"
proof -
  have "(\<forall>(r, f) \<in> set fs. 0 < f) \<and> (\<forall>r \<in> set rs. 0 < o_remaining_qty r)"
    using assms
  proof (induction match q qs arbitrary: fs q' rs rule: fill_queue.induct)
    case (2 match q r rest)
    show ?case
    proof (cases "q = 0 \<or> \<not> match r \<or> q < o_remaining_qty r")
      case True
      then show ?thesis
        using "2.prems" by (auto simp: word_gt_0 split: if_splits)
    next
      case False
      then obtain fs' where fs': "fill_queue match (q - o_remaining_qty r) rest = (fs', q', rs)"
        "fs = (r, o_remaining_qty r) # fs'"
        using "2.prems" by (auto split: prod.splits)
      show ?thesis using "2.IH" [OF _ _ fs'(1)] False fs'(2) "2.prems" by auto
    qed
  qed auto
  then show "\<forall>(r, f) \<in> set fs. 0 < f" "\<forall>r \<in> set rs. 0 < o_remaining_qty r" by simp_all
  show "q' \<le> q" using fill_queue_conserves [OF assms(1)] by (simp add: word_le_nat_alt)
qed

text \<open>The orders left on the queue are orders of it, up to the quantity they still have.\<close>

lemma fill_queue_rest:
  assumes "fill_queue match q qs = (fs, q', rs)" and "r' \<in> set rs"
  obtains r where "r \<in> set qs" "same_key r' r" "o_quantity r' = o_quantity r" "o_remaining_qty r' \<le> o_remaining_qty r"
    "o_type r' = o_type r"
  using assms
proof (induction match q qs arbitrary: fs q' rs thesis rule: fill_queue.induct)
  case (2 match q r rest)
  show ?case
  proof (cases "q = 0 \<or> \<not> match r \<or> q < o_remaining_qty r")
    case True
    moreover have "o_remaining_qty r - q \<le> o_remaining_qty r" if "q < o_remaining_qty r"
      using that by (simp add: word_le_nat_alt unat_diff [OF order.strict_implies_order])
    ultimately show ?thesis
      using "2.prems"(2,3) "2.prems"(1) [of r] "2.prems"(1) [of r'] by (auto split: if_splits)
  next
    case False
    then obtain fs' where fs': "fill_queue match (q - o_remaining_qty r) rest = (fs', q', rs)"
      using "2.prems" by (auto split: prod.splits)
    show ?thesis by (rule "2.IH" [OF _ _ _ fs' "2.prems"(3)]) (use False "2.prems"(1) in auto)
  qed
qed auto

section \<open>One submission seen from the book\<close>

text \<open>The specification of a submission: fill from the opposite queue, then rest or drop the remainder.\<close>

definition remainder :: "Order \<Rightarrow> Quantity \<Rightarrow> Order" where
  "remainder ord q = ord\<lparr>o_remaining_qty := q,
     o_status := (if q = o_quantity ord then o_status ord else PartiallyFilled)\<rparr>"

definition may_rest :: "OrderType \<Rightarrow> bool" where
  "may_rest ty \<longleftrightarrow> ty \<noteq> Market \<and> ty \<noteq> IOC"

definition a_submit :: "Order \<Rightarrow> abstract_book \<Rightarrow> (Order \<times> Quantity) list \<times> abstract_book" where
  "a_submit ord a =
     (let buy = (o_side ord = Buy);
          (fs, q, rs) = fill_queue (crosses buy (o_price ord)) (o_remaining_qty ord) (if buy then a_asks a else a_bids a);
          own = (if buy then a_bids a else a_asks a);
          own' = (if 0 < q \<and> may_rest (o_type ord) then enqueue buy (remainder ord q) own else own)
      in (fs, \<lparr>a_bids = (if buy then own' else rs), a_asks = (if buy then rs else own'), a_next = a_next a + 1\<rparr>))"

lemma queue_inserted:
  assumes "adds b now sd ty pr q ptr b1" and buy: "buy = (sd = Buy)" and "ptrs buy b' = ptrs buy b1"
    and "\<forall>y \<in> set (ptrs buy b). order_at b' y = order_at b y" and "o_price (order_at b' ptr) = pr"
  shows "queue buy b' = enqueue buy (order_at b' ptr) (queue buy b)"
proof -
  let ?P = "\<lambda>ord. side_rank buy (o_price ord) \<le> side_rank buy pr"
  have "ptrs buy b' = insert_after (\<lambda>p. ?P (order_at b' p)) ptr (ptrs buy b)"
    unfolding assms(3) adds_ptrs(2) [OF assms(1) buy] using assms(4) by (intro insert_after_cong) simp
  then have "queue buy b' = insert_after ?P (order_at b' ptr) (map (order_at b') (ptrs buy b))"
    using map_insert_after [of "order_at b'" ?P] by (simp add: queue_def)
  moreover have "map (order_at b') (ptrs buy b) = queue buy b" using assms(4) by (simp add: queue_def)
  ultimately show ?thesis using assms(5) by (simp add: enqueue_def)
qed

lemma filter_enqueue:
  assumes "\<forall>y \<in> set ys. o_id y \<noteq> o_id x"
  shows "filter (\<lambda>y. o_id y \<noteq> o_id x) (enqueue buy x ys) = ys"
proof -
  have "filter (\<lambda>y. o_id y \<noteq> o_id x) (takeWhile P ys) @ filter (\<lambda>y. o_id y \<noteq> o_id x) (dropWhile P ys) = ys" for P
    using assms by (simp add: filter_id_conv flip: filter_append)
  then show ?thesis by (simp add: enqueue_def insert_after_def)
qed

lemma old_ids:
  assumes "book_ok b" and "ord \<in> set (queue buy b)"
  shows "0 < o_id ord" "o_id ord < next_order_id b" "\<not> is_nan (o_price ord)" "(o_side ord = Buy) = buy"
  using assms live_ids ptrs_side ptrs_live unfolding queue_order_at by blast+

text \<open>After the loop: the book is matched, the incoming order carries its remaining quantity.\<close>

lemma match_order_spec:
  assumes add: "adds b now0 sd ty pr q ptr b1" and buy: "buy = (sd = Buy)"
    and fill: "fill_queue (crosses buy pr) q (queue (\<not> buy) b) = (fs, q', rs)"
  shows "\<exists>b2. match_order now b1 ptr = Some (trades_of now 0 buy (next_order_id b) fs, b2)
    \<and> book_ok b2 \<and> ptr \<in> set (ptrs buy b2) \<and> next_order_id b2 = next_order_id b + 1 \<and> queue (\<not> buy) b2 = rs
    \<and> order_at b2 ptr = (remainder (Order_new now0 (next_order_id b) sd ty pr q) q')
        \<lparr>o_status := (if q' = 0 then Filled else if q' = q then Accepted else PartiallyFilled)\<rparr>
    \<and> queue buy b2 = enqueue buy (order_at b2 ptr) (queue buy b)"
proof -
  note new = adds_pool(4) [OF add] and ok1 = add_order_ok [OF add]
  have ptr: "ptr \<in> set (ptrs buy b1)" using adds_ptrs(2) [OF add buy] by simp
  have "fill_queue (crosses buy (o_price (order_at b1 ptr))) (o_remaining_qty (order_at b1 ptr)) (queue (\<not> buy) b1) = (fs, q', rs)"
    using fill queue_adds [OF add, of "\<not> buy"] buy by (simp add: new)
  from match_loop_spec [OF ok1 ptr this, of now "[]"] obtain b2 where
    loop: "match_loop now buy ptr b1 [] = Some (trades_of now 0 buy (next_order_id b) fs, b2)"
    and m: "matched buy ptr b1 q' rs b2" by (auto simp: new)
  have b2: "book_ok b2" "ptrs buy b2 = ptrs buy b1" "queue (\<not> buy) b2 = rs" "next_order_id b2 = next_order_id b + 1"
    "order_at b2 ptr = (Order_new now0 (next_order_id b) sd ty pr q)\<lparr>o_remaining_qty := q'\<rparr>"
    using m adds_fields [OF add] by (auto simp: matched_def new)
  have same: "\<forall>y \<in> set (ptrs buy b). order_at b2 y = order_at b y"
    using m adds_pool(3,5) [OF add] adds_ptrs(2) [OF add buy] ptrs_live [of _ buy b] by (auto simp: matched_def)
  let ?ord = "order_at b2 ptr"
  define b3 where "b3 = (if is_filled ?ord then set_order ptr (?ord\<lparr>o_status := Filled\<rparr>) b2
    else if 0 < filled_qty ?ord then set_order ptr (?ord\<lparr>o_status := PartiallyFilled\<rparr>) b2 else b2)"
  have live: "ptr \<in> live b2" "ptr \<in> set (ptrs buy b2)" using ptr b2(2) ptrs_live [of ptr buy b2] by auto
  have order: "match_order now b1 ptr = Some (trades_of now 0 buy (next_order_id b) fs, b3)"
    using loop new buy by (simp add: match_order_def b3_def Let_def)
  have b3: "book_ok b3" "ptrs s b3 = ptrs s b2" "next_order_id b3 = next_order_id b2" for s
    using set_order_ok [OF b2(1) live(1)] b2(1) by (auto simp: b3_def)
  have at3: "y \<noteq> ptr \<Longrightarrow> order_at b3 y = order_at b2 y" for y
    by (simp add: b3_def order_at_set_order [OF b2(1) live(1)])
  have "order_at b3 ptr = (remainder (Order_new now0 (next_order_id b) sd ty pr q) q')
        \<lparr>o_status := (if q' = 0 then Filled else if q' = q then Accepted else PartiallyFilled)\<rparr>"
    by (auto simp: b3_def order_at_set_order [OF b2(1) live(1)] b2(5) is_filled_def filled_qty_def
        remainder_def Order_new_def word_gt_0)
  moreover have "ptr \<notin> set (ptrs (\<not> buy) b2)" using ptrs_disjoint [OF b2(1) live(2)] .
  then have "queue (\<not> buy) b3 = rs"
    unfolding b2(3) [symmetric] by (intro queue_cong b3 ballI at3) auto
  moreover have "ptr \<notin> set (ptrs buy b)" using adds_pool(3) [OF add] ptrs_live by blast
  then have "\<forall>y \<in> set (ptrs buy b). order_at b3 y = order_at b y" using same at3 by metis
  ultimately show ?thesis
    using order b3 b2 live queue_inserted [OF add buy, of b3] by (auto simp: remainder_def)
qed

text \<open>Taking the submitted order out again, whatever status it was given last, leaves its own side as it
  was before the submission and the other side as matching left it.\<close>

lemma remove_submitted:
  assumes ok: "book_ok b" "book_ok b2" and ptr: "ptr \<in> set (ptrs buy b2)"
    and nxt: "next_order_id b2 = next_order_id b + 1" and rs: "queue (\<not> buy) b2 = rs"
    and id: "o_id (order_at b2 ptr) = next_order_id b"
    and own: "queue buy b2 = enqueue buy (order_at b2 ptr) (queue buy b)"
    and b'_cases: "b' = b2 \<or> b' = set_order ptr ((order_at b2 ptr)\<lparr>o_status := st\<rparr>) b2"
  shows "queue buy (remove_order ptr b') = queue buy b" "queue (\<not> buy) (remove_order ptr b') = rs"
    "next_order_id (remove_order ptr b') = next_order_id b + 1" "book_ok (remove_order ptr b')"
proof -
  have live: "ptr \<in> live b2" by (rule ptrs_live [OF ptr])
  have b': "book_ok b'" "ptr \<in> live b'" "ptr \<in> set (ptrs buy b')" "next_order_id b' = next_order_id b + 1"
    "o_id (order_at b' ptr) = next_order_id b" "\<And>y. y \<noteq> ptr \<Longrightarrow> order_at b' y = order_at b2 y" "\<And>s. ptrs s b' = ptrs s b2"
    using b'_cases ok(2) ptr nxt live id set_order_ok [OF ok(2) live] by (auto simp: order_at_set_order [OF ok(2) live])
  have "queue (\<not> buy) b' = rs"
    unfolding rs [symmetric] using ptrs_disjoint [OF ok(2) ptr] by (intro queue_cong b'(6,7) ballI) auto
  moreover have "o_id r \<noteq> next_order_id b" if "r \<in> set rs" for r
    using that ptrs_disjoint [OF ok(2) ptr] live_id_inj [OF ok(2) live] ptrs_live [of _ "\<not> buy" b2] id
    unfolding rs [symmetric] queue_order_at by metis
  ultimately show "queue (\<not> buy) (remove_order ptr b') = rs"
    using queue_remove_order [OF b'(1,2)] b'(5) by (simp add: filter_id_conv)
  have old: "\<forall>y \<in> set (queue buy b). o_id y \<noteq> next_order_id b" using old_ids(2) [OF ok(1)] by force
  have "filter (\<lambda>y. o_id y \<noteq> next_order_id b) (queue buy b') = filter (\<lambda>y. o_id y \<noteq> next_order_id b) (queue buy b2)"
    using b'_cases id
    by (auto simp: queue_set_order [OF ok(2) live] filter_map_same [where P = "\<lambda>y. o_id y \<noteq> _", unfolded not_not])
  then show "queue buy (remove_order ptr b') = queue buy b"
    using queue_remove_order [OF b'(1,2)] b'(5) own filter_enqueue [of "queue buy b" "order_at b2 ptr" buy] old id
    by simp
  show "next_order_id (remove_order ptr b') = next_order_id b + 1" "book_ok (remove_order ptr b')"
    using b' remove_order_effect(3) [OF b'(1,3)] remove_order_ok [OF b'(1,2)] by simp_all
qed

text \<open>The book after the whole submission is the one the specification gives.\<close>

lemma post_match_spec:
  assumes add: "adds b now0 sd ty pr q ptr b1" and buy: "buy = (sd = Buy)"
    and fill: "fill_queue (crosses buy pr) q (queue (\<not> buy) b) = (fs, q', rs)"
  defines "ord \<equiv> Order_new now0 (next_order_id b) sd ty pr q"
  shows "\<exists>b2. match_order now b1 ptr = Some (trades_of now 0 buy (next_order_id b) fs, b2)
    \<and> book_ok (post_match ty ptr b2) \<and> abs_book (post_match ty ptr b2) = snd (a_submit ord (abs_book b))"
proof -
  have ok: "book_ok b" using add by (simp add: adds_def)
  obtain b2 where m: "match_order now b1 ptr = Some (trades_of now 0 buy (next_order_id b) fs, b2)"
    and b2: "book_ok b2" "ptr \<in> set (ptrs buy b2)" "next_order_id b2 = next_order_id b + 1" "queue (\<not> buy) b2 = rs"
    and at2: "order_at b2 ptr = (remainder ord q')
        \<lparr>o_status := (if q' = 0 then Filled else if q' = q then Accepted else PartiallyFilled)\<rparr>"
    and own: "queue buy b2 = enqueue buy (order_at b2 ptr) (queue buy b)"
    using match_order_spec [OF add buy fill] unfolding ord_def by blast
  have live: "ptr \<in> live b2" by (rule ptrs_live [OF b2(2)])
  have id2: "o_id (order_at b2 ptr) = next_order_id b" by (simp add: at2 remainder_def ord_def)
  note removed = remove_submitted [OF ok b2 id2 own]
  have fill': "fill_queue (crosses (o_side ord = Buy) (o_price ord)) (o_remaining_qty ord)
      (if o_side ord = Buy then queue False b else queue True b) = (fs, q', rs)"
    using fill buy by (cases buy) (auto simp: ord_def)
  have "book_ok (post_match ty ptr b2) \<and> abs_book (post_match ty ptr b2) = snd (a_submit ord (abs_book b))"
  proof (cases "0 < q' \<and> may_rest ty")
    case True
    then have "post_match ty ptr b2 = b2" "order_at b2 ptr = remainder ord q'"
      by (auto simp: post_match_def is_filled_def at2 may_rest_def remainder_def ord_def word_gt_0)
    then show ?thesis
      using True b2 own buy fill' by (cases buy) (auto simp: a_submit_def abs_book_def ord_def)
  next
    case False
    have "o_remaining_qty (order_at b2 ptr) = q'" by (simp add: at2 remainder_def)
    with False obtain b' st where "post_match ty ptr b2 = remove_order ptr b'"
      "b' = b2 \<or> b' = set_order ptr ((order_at b2 ptr)\<lparr>o_status := st\<rparr>) b2"
      unfolding post_match_def is_filled_def may_rest_def word_gt_0 by metis
    then show ?thesis
      using False removed [of b' st] buy fill' by (cases buy) (auto simp: a_submit_def abs_book_def ord_def)
  qed
  with m show ?thesis by blast
qed

end
