(* ===== verification/EngineSpec.thy ===== *)
theory EngineSpec
  imports MatchingSpec
begin

text \<open>
  The engine's invariant and what each entry point does to it. \<open>a_inv\<close> says of an abstract book that
  its orders are open limit orders and that it is not crossed: every bid is below every ask.
\<close>

section \<open>The invariant of a book between calls\<close>

definition resting :: "Order \<Rightarrow> bool" where
  "resting ord \<longleftrightarrow> 0 < o_remaining_qty ord \<and> o_remaining_qty ord \<le> o_quantity ord \<and> may_rest (o_type ord)"

definition a_side :: "bool \<Rightarrow> abstract_book \<Rightarrow> Order list" where
  "a_side buy a = (if buy then a_bids a else a_asks a)"

definition uncrossed :: "abstract_book \<Rightarrow> bool" where
  "uncrossed a \<longleftrightarrow> (\<forall>x \<in> set (a_bids a). \<forall>y \<in> set (a_asks a). rank (o_price x) < rank (o_price y))"

definition a_inv :: "abstract_book \<Rightarrow> bool" where
  "a_inv a \<longleftrightarrow> (\<forall>ord \<in> set (a_bids a) \<union> set (a_asks a). resting ord) \<and> uncrossed a"

definition book_inv :: "OrderBook \<Rightarrow> bool" where
  "book_inv b \<longleftrightarrow> book_ok b \<and> a_inv (abs_book b)"

lemma a_side_abs [simp]: "a_side buy (abs_book b) = queue buy b"
  by (cases buy) (simp_all add: a_side_def abs_book_def)

lemma uncrossed_side:
  "uncrossed a \<longleftrightarrow> (\<forall>x \<in> set (a_side buy a). \<forall>y \<in> set (a_side (\<not> buy) a).
     side_rank (\<not> buy) (o_price x) < side_rank (\<not> buy) (o_price y))"
  by (cases buy) (auto simp: uncrossed_def a_side_def side_rank_def)

lemma a_inv_side: "a_inv a \<longleftrightarrow> (\<forall>ord \<in> set (a_side buy a) \<union> set (a_side (\<not> buy) a). resting ord) \<and> uncrossed a"
  by (cases buy) (auto simp: a_inv_def a_side_def)

lemma crosses_rank:
  "\<not> is_nan p \<Longrightarrow> \<not> is_nan (o_price r) \<Longrightarrow>
     crosses buy p r \<longleftrightarrow> side_rank (\<not> buy) (o_price r) \<le> side_rank (\<not> buy) p"
  by (simp add: crosses_def double_cmp side_rank_def)

section \<open>A submission keeps the invariant\<close>

lemma a_submit_sides:
  assumes "fill_queue (crosses (o_side ord = Buy) (o_price ord)) (o_remaining_qty ord) (a_side (o_side ord \<noteq> Buy) a) = (fs, q, rs)"
  shows "fst (a_submit ord a) = fs" "a_side (o_side ord \<noteq> Buy) (snd (a_submit ord a)) = rs"
    "a_side (o_side ord = Buy) (snd (a_submit ord a)) =
       (if 0 < q \<and> may_rest (o_type ord) then enqueue (o_side ord = Buy) (remainder ord q) (a_side (o_side ord = Buy) a)
        else a_side (o_side ord = Buy) a)"
    "a_next (snd (a_submit ord a)) = a_next a + 1"
  using assms unfolding a_submit_def a_side_def Let_def by (cases "o_side ord = Buy", simp_all)+

lemma a_ids_sides: "a_ids a = o_id ` (set (a_side buy a) \<union> set (a_side (\<not> buy) a))"
  by (cases buy) (auto simp: a_ids_def a_side_def)

text \<open>The ids on the book after a submission, and those of the orders it fills.\<close>

lemma a_submit_ids:
  assumes "a_submit ord a = (fs, a')"
  shows "a_ids a' \<subseteq> a_ids a \<union> (if may_rest (o_type ord) then {o_id ord} else {})"
    "(r, f) \<in> set fs \<Longrightarrow> o_id r \<in> a_ids a" "a_next a' = a_next a + 1"
proof -
  obtain q rs where fill: "fill_queue (crosses (o_side ord = Buy) (o_price ord)) (o_remaining_qty ord) (a_side (o_side ord \<noteq> Buy) a) = (fs, q, rs)"
    using a_submit_sides(1) assms by (metis fst_conv prod_cases3)
  note sides = a_submit_sides [OF fill, unfolded assms, simplified]
  have ids: "a_ids x = o_id ` (set (a_side (o_side ord = Buy) x) \<union> set (a_side (o_side ord \<noteq> Buy) x))" for x
    by (cases "o_side ord = Buy") (auto simp: a_ids_def a_side_def)
  have "o_id r' \<in> o_id ` set (a_side (o_side ord \<noteq> Buy) a)" if "r' \<in> set rs" for r'
    using fill_queue_rest [OF fill that] by (metis same_key_def image_eqI)
  then show "a_ids a' \<subseteq> a_ids a \<union> (if may_rest (o_type ord) then {o_id ord} else {})"
    by (auto simp: ids sides enqueue_def remainder_def split: if_splits)
  have "map fst fs = take (length fs) (a_side (o_side ord \<noteq> Buy) a)" using fill_queue_prefix [OF fill] by blast
  then have "fst ` set fs \<subseteq> set (a_side (o_side ord \<noteq> Buy) a)" by (metis list.set_map set_take_subset)
  then show "(r, f) \<in> set fs \<Longrightarrow> o_id r \<in> a_ids a" by (force simp: ids)
  show "a_next a' = a_next a + 1" by (rule sides(4))
qed


text \<open>If the head of the remaining queue does not cross, no order of it does.\<close>

lemma none_cross:
  assumes "sorted_wrt (before (\<not> buy)) qs" and "\<forall>r \<in> set qs. \<not> is_nan (o_price r)" and "\<not> is_nan p"
    and fill: "fill_queue (crosses buy p) q0 qs = (fs, q, rs)" and "0 < q" and "r \<in> set rs"
  shows "side_rank (\<not> buy) p < side_rank (\<not> buy) (o_price r)"
proof -
  have rs: "rs = drop (length fs) qs" using fill_queue_prefix [OF fill] \<open>0 < q\<close> by auto
  then have "sorted_wrt (before (\<not> buy)) rs" "\<forall>r \<in> set rs. \<not> is_nan (o_price r)"
    using assms(1,2) by (auto simp: sorted_wrt_drop dest: in_set_dropD)
  moreover have "rs \<noteq> []" "\<not> crosses buy p (hd rs)"
    using fill_queue_stops [OF fill] \<open>0 < q\<close> \<open>r \<in> set rs\<close> by auto
  ultimately obtain y ys where y: "rs = y # ys" "\<not> crosses buy p y" "\<not> is_nan (o_price y)" "\<forall>x \<in> set ys. before (\<not> buy) y x"
    by (cases rs) auto
  then have "side_rank (\<not> buy) p < side_rank (\<not> buy) (o_price y)"
    using \<open>\<not> is_nan p\<close> by (simp add: crosses_rank not_le)
  moreover have "side_rank (\<not> buy) (o_price y) \<le> side_rank (\<not> buy) (o_price r)"
    using \<open>r \<in> set rs\<close> y before_rank [of "\<not> buy" y r] by auto
  ultimately show ?thesis by simp
qed

lemma a_submit_inv:
  assumes inv: "a_inv a" and sorted: "\<And>buy. sorted_wrt (before buy) (a_side buy a)"
    and nan: "\<And>buy. \<forall>r \<in> set (a_side buy a). \<not> is_nan (o_price r)" and pr: "\<not> is_nan (o_price ord)"
    and qty: "o_remaining_qty ord = o_quantity ord"
  shows "a_inv (snd (a_submit ord a))"
proof -
  define buy where "buy = (o_side ord = Buy)"
  obtain fs q rs where fill: "fill_queue (crosses buy (o_price ord)) (o_remaining_qty ord) (a_side (\<not> buy) a) = (fs, q, rs)"
    by (metis prod_cases3)
  note sides = a_submit_sides [of ord a fs q rs, folded buy_def, OF fill]
  let ?a = "snd (a_submit ord a)"
  have inv': "\<forall>r \<in> set (a_side s a). resting r" for s using inv by (cases s) (auto simp: a_inv_def a_side_def)
  note pos = fill_queue_pos [OF fill]
  have rest: "\<exists>r \<in> set (a_side (\<not> buy) a). same_key r' r \<and> resting r'" if r': "r' \<in> set rs" for r'
  proof -
    obtain r where r: "r \<in> set (a_side (\<not> buy) a)" "same_key r' r" "o_quantity r' = o_quantity r"
      "o_remaining_qty r' \<le> o_remaining_qty r" "o_type r' = o_type r"
      by (rule fill_queue_rest [OF fill r'])
    have "0 < o_remaining_qty r'" using pos(2) inv' r' by (auto simp: resting_def)
    then have "resting r'" using inv' r by (fastforce simp: resting_def)
    with r show ?thesis by blast
  qed
  have own: "x \<in> set (a_side buy a) \<or> 0 < q \<and> may_rest (o_type ord) \<and> x = remainder ord q"
    if "x \<in> set (a_side buy ?a)" for x
    using that sides(3) by (auto simp: enqueue_def split: if_splits)
  have "q \<le> o_quantity ord" using pos(3) inv' qty by (auto simp: resting_def)
  then have "resting x" if "x \<in> set (a_side buy ?a)" for x
    using own [OF that] inv' by (auto simp: resting_def remainder_def)
  moreover have "side_rank (\<not> buy) (o_price x) < side_rank (\<not> buy) (o_price y)"
    if x: "x \<in> set (a_side buy ?a)" and y: "y \<in> set rs" for x y
  proof -
    obtain y' where y': "y' \<in> set (a_side (\<not> buy) a)" "o_price y = o_price y'"
      using rest [OF y] by (auto simp: same_key_def)
    from own [OF x] show ?thesis
    proof
      assume "x \<in> set (a_side buy a)"
      then show ?thesis using inv y' by (auto simp: a_inv_def uncrossed_side [of a buy])
    next
      assume "0 < q \<and> may_rest (o_type ord) \<and> x = remainder ord q"
      then show ?thesis
        using none_cross [OF sorted nan pr fill _ y] by (simp add: remainder_def)
    qed
  qed
  ultimately show ?thesis
    using rest sides(2) by (auto simp: a_inv_side [of ?a buy] uncrossed_side [of ?a buy])
qed

section \<open>The engine\<close>

definition book_of :: "'s MatchingEngine \<Rightarrow> string \<Rightarrow> OrderBook" where
  "book_of e symb = fst (get_order_book symb e)"

definition engine_ok :: "'s MatchingEngine \<Rightarrow> bool" where
  "engine_ok e \<longleftrightarrow> distinct (map fst (books e)) \<and> (\<forall>b \<in> snd ` set (books e). book_inv b)"

lemma book_inv_new: "book_inv (OrderBook_new s n)"
  using OrderBook_new_ok [of s n]
  by (auto simp: book_inv_def a_inv_def uncrossed_def abs_book_def queue_def ptrs_def levels_def OrderBook_new_def)

lemma book_of_eq: "book_of e symb = (case map_of (books e) symb of Some b \<Rightarrow> b | None \<Rightarrow> OrderBook_new symb default_pool_size)"
  by (auto simp: book_of_def get_order_book_def Let_def split: option.splits)

lemma engine_ok_book: "engine_ok e \<Longrightarrow> book_inv (book_of e symb)"
  by (auto simp: book_of_eq engine_ok_def book_inv_new split: option.splits dest!: map_of_SomeD)

lemma queue_resting: "engine_ok e \<Longrightarrow> r \<in> set (queue s (book_of e symb)) \<Longrightarrow> resting r"
  using engine_ok_book [of e symb] by (cases s) (auto simp: book_inv_def a_inv_def abs_book_def)

lemma engine_ok_update:
  assumes "engine_ok e" and "book_inv b" and "books e' = AList.update symb b (books e)"
  shows "engine_ok e'"
proof -
  have "snd ` set (AList.update symb b bs) \<subseteq> insert b (snd ` set bs)" for bs :: "(string \<times> OrderBook) list"
    by (induction bs) auto
  then have "\<forall>b' \<in> snd ` set (books e'). book_inv b'"
    using assms unfolding engine_ok_def by (metis insertE subsetD)
  with assms show ?thesis by (simp add: engine_ok_def distinct_update)
qed

lemma MatchingEngine_new_ok: "engine_ok MatchingEngine_new"
  by (simp add: engine_ok_def MatchingEngine_new_def)

text \<open>Which orders the engine takes, and what one that is taken must satisfy for the theorems: its
  price is a number and the book's id counter is not at its end.\<close>

definition accepted :: "OrderType \<Rightarrow> Price \<Rightarrow> Quantity \<Rightarrow> bool" where
  "accepted ty price quantity \<longleftrightarrow> quantity \<noteq> 0 \<and> \<not> (ty = Limit \<and> dle price dzero)"

definition submittable :: "'s MatchingEngine \<Rightarrow> string \<Rightarrow> OrderType \<Rightarrow> Price \<Rightarrow> bool" where
  "submittable e symb ty price \<longleftrightarrow> engine_ok e \<and> (ty = Market \<or> \<not> is_nan price)
     \<and> next_order_id (book_of e symb) + 1 \<noteq> 0"

definition incoming_order :: "clock \<Rightarrow> 's MatchingEngine \<Rightarrow> string \<Rightarrow> Side \<Rightarrow> OrderType \<Rightarrow> Price \<Rightarrow> Quantity \<Rightarrow> Order" where
  "incoming_order now e symb sd ty price q =
     Order_new (now 1) (next_order_id (book_of e symb)) sd ty (effective_price sd ty price) q"

lemma effective_price_nan: "ty = Market \<or> \<not> is_nan price \<Longrightarrow> \<not> is_nan (effective_price sd ty price)"
  by (auto simp: effective_price_def)

section \<open>What a submission does\<close>

lemma get_order_book_eq:
  "get_order_book symb e = (book_of e symb, snd (get_order_book symb e))"
  by (simp add: book_of_def)

lemma get_order_book_frame [simp]:
  "stats (snd (get_order_book symb e)) = stats e"
  "trade_callback (snd (get_order_book symb e)) = trade_callback e"
  by (auto simp: get_order_book_def Let_def split: option.splits)

lemma get_order_book_books:
  "map_of (books (snd (get_order_book symb e))) = (map_of (books e))(symb \<mapsto> book_of e symb)"
  by (auto simp: get_order_book_def book_of_eq Let_def update_conv' fun_eq_iff split: option.splits)

lemma get_order_book_same: "books e' = books (snd (get_order_book symb e)) \<Longrightarrow> book_of e' symb' = book_of e symb'"
  using get_order_book_books [of symb e] by (auto simp: book_of_eq split: option.splits)

lemma get_order_book_ok: "engine_ok e \<Longrightarrow> engine_ok (snd (get_order_book symb e))"
  using engine_ok_update [OF _ book_inv_new, of e "snd (get_order_book symb e)" symb symb default_pool_size]
  by (auto simp: get_order_book_def Let_def split: option.splits)

text \<open>The statistics and the callback state after a list of trades.\<close>

lemma fold_record_trade:
  "fold (record_trade cb) trades (st, s) =
     (let st' = fold (\<lambda>t st. fst (record_trade cb t (st, s))) trades st
      in (st', fold (\<lambda>t s. case cb of None \<Rightarrow> s | Some f \<Rightarrow> f t s) trades s))"
  by (induction trades arbitrary: st s) (simp_all add: record_trade_def Let_def)

definition run_callback :: "'s TradeCallback option \<Rightarrow> Trade list \<Rightarrow> 's \<Rightarrow> 's" where
  "run_callback cb = fold (\<lambda>t s. case cb of None \<Rightarrow> s | Some f \<Rightarrow> f t s)"

lemma run_callback_Nil [simp]: "run_callback cb [] s = s"
  by (simp add: run_callback_def)

lemma run_callback_Cons: "run_callback cb (t # ts) s = run_callback cb ts (case cb of None \<Rightarrow> s | Some f \<Rightarrow> f t s)"
  by (simp add: run_callback_def)

lemma snd_fold_record_trade: "snd (fold (record_trade cb) trades (st, s)) = run_callback cb trades s"
  by (simp add: fold_record_trade run_callback_def Let_def)

lemma record_trade_totals:
  "total_orders (fst (fold (record_trade cb) trades (st, s))) = total_orders st"
  "total_cancels (fst (fold (record_trade cb) trades (st, s))) = total_cancels st"
  "total_rejects (fst (fold (record_trade cb) trades (st, s))) = total_rejects st"
  "total_trades (fst (fold (record_trade cb) trades (st, s))) = total_trades st + of_nat (length trades)"
  "total_volume (fst (fold (record_trade cb) trades (st, s))) =
     total_volume st + (\<Sum>t \<leftarrow> trades. ucast (t_quantity t))"
  by (induction trades arbitrary: st s) (simp_all add: record_trade_def algebra_simps)

lemma record_latency_frame [simp]:
  "total_orders (record_latency l st) = total_orders st" "total_trades (record_latency l st) = total_trades st"
  "total_cancels (record_latency l st) = total_cancels st" "total_rejects (record_latency l st) = total_rejects st"
  "total_volume (record_latency l st) = total_volume st" "total_notional (record_latency l st) = total_notional st"
  by (simp_all add: record_latency_def)

text \<open>A rejected order changes nothing but the counters, and creates the book of its symbol.\<close>

lemma submit_rejected:
  assumes "\<not> accepted ty price q"
  shows "\<exists>e'. submit_order now symb sd ty price q (e, s) = Some (0, e', s)
    \<and> books e' = books (snd (get_order_book symb e)) \<and> trade_callback e' = trade_callback e
    \<and> stats e' = (stats e)\<lparr>total_orders := total_orders (stats e) + 1, total_rejects := total_rejects (stats e) + 1\<rparr>"
  using assms
  by (subst submit_order_def, subst get_order_book_eq) (auto simp: accepted_def Let_def)

lemma submit_accepted:
  assumes acc: "accepted ty price q" and sub: "submittable e symb ty price"
    and spec: "a_submit (incoming_order now e symb sd ty price q) (abs_book (book_of e symb)) = (fs, a')"
    and trades: "trades = trades_of (\<lambda>i. now (2 + i)) 0 (sd = Buy) (next_order_id (book_of e symb)) fs"
  shows "\<exists>e'. submit_order now symb sd ty price q (e, s) =
      Some (next_order_id (book_of e symb), e', run_callback (trade_callback e) trades s)
    \<and> engine_ok e' \<and> abs_book (book_of e' symb) = a' \<and> trade_callback e' = trade_callback e
    \<and> map_of (books e') = (map_of (books e))(symb \<mapsto> book_of e' symb)
    \<and> stats e' = record_latency (now (2 + length trades) - now 0)
        (fst (fold (record_trade (trade_callback e)) trades ((stats e)\<lparr>total_orders := total_orders (stats e) + 1\<rparr>, s)))"
proof -
  define b where "b = book_of e symb"
  define pr where "pr = effective_price sd ty price"
  let ?ord = "Order_new (now 1) (next_order_id b) sd ty pr q" and ?buy = "sd = Buy"
  have ord: "incoming_order now e symb sd ty price q = ?ord" by (simp add: incoming_order_def b_def pr_def)
  have ok: "engine_ok e" and inv: "book_inv b" and wrap: "next_order_id b + 1 \<noteq> 0" and nan: "\<not> is_nan pr"
    using sub engine_ok_book [of e symb] effective_price_nan [of ty price sd] by (auto simp: submittable_def b_def pr_def)
  obtain ptr b1 where a: "add_order (now 1) sd ty pr q b = (ptr, b1)" by fastforce
  then have add: "adds b (now 1) sd ty pr q ptr b1" using inv nan wrap by (simp add: adds_def book_inv_def)
  obtain fs' q' rs where fill: "fill_queue (crosses ?buy pr) q (queue (\<not> ?buy) b) = (fs', q', rs)"
    by (metis prod_cases3)
  have "fs' = fs"
    using a_submit_sides(1) [of ?ord "abs_book b" fs' q' rs] fill spec by (simp add: ord b_def)
  obtain b2 where m: "match_order (\<lambda>i. now (2 + i)) b1 ptr = Some (trades, b2)"
    and b3: "book_ok (post_match ty ptr b2)" "abs_book (post_match ty ptr b2) = a'"
    using post_match_spec [OF add refl fill, of "\<lambda>i. now (2 + i)"] spec \<open>fs' = fs\<close> trades
    by (auto simp: ord b_def)
  define b3 where "b3 = post_match ty ptr b2"
  have "book_inv b3"
  proof -
    have "a_inv (snd (a_submit ?ord (abs_book b)))"
      using inv nan queue_sorted [of b] old_ids(3) [of b] by (intro a_submit_inv) (auto simp: book_inv_def)
    then show ?thesis using b3 spec by (simp add: book_inv_def b3_def ord b_def)
  qed
  define e1 where "e1 = snd (get_order_book symb e)"
  have e1: "engine_ok e1" using get_order_book_ok [OF ok] by (simp add: e1_def)
  define st where "st = fold (record_trade (trade_callback e)) trades ((stats e)\<lparr>total_orders := total_orders (stats e) + 1\<rparr>, s)"
  define e' where "e' = e1\<lparr>books := AList.update symb b3 (books e1),
    stats := record_latency (now (2 + length trades) - now 0) (fst st)\<rparr>"
  have gob: "get_order_book symb e = (b, e1)" by (simp add: b_def e1_def book_of_def)
  have fr: "stats e1 = stats e" "trade_callback e1 = trade_callback e" by (simp_all add: e1_def)
  have "q \<noteq> 0" "\<not> (ty = Limit \<and> dle price dzero)" using acc by (auto simp: accepted_def)
  then have "submit_order now symb sd ty price q (e, s) = Some (next_order_id b, e', snd st)"
    using a m adds_pool(4) [OF add]
    by (auto simp: submit_order_def gob Let_def fr pr_def e'_def b3_def st_def split: prod.split)
  moreover have "map_of (books e') = (map_of (books e))(symb \<mapsto> b3)"
    using get_order_book_books [of symb e] by (simp add: e'_def e1_def update_conv')
  moreover from this have "book_of e' symb = b3" by (simp add: book_of_eq)
  moreover have "engine_ok e'" by (rule engine_ok_update [OF e1 \<open>book_inv b3\<close>, of _ symb]) (simp add: e'_def)
  ultimately show ?thesis
    using b3 by (intro exI [of _ e']) (simp add: b_def st_def snd_fold_record_trade b3_def [symmetric] e'_def e1_def)
qed

section \<open>Cancelling through the engine\<close>

lemma a_cancel_inv: "a_inv a \<Longrightarrow> a_inv (a_cancel i a)"
  by (auto simp: a_inv_def a_cancel_def map_sides_def uncrossed_def)

lemma cancel_book_inv: "book_inv b \<Longrightarrow> book_inv (snd (cancel_order i b))"
  by (simp add: book_inv_def cancel_order_ok abs_cancel a_cancel_inv)

lemma engine_cancel_ok:
  assumes "engine_ok e"
  shows "engine_ok (snd (engine_cancel_order symb i e))"
proof (cases "map_of (books e) symb")
  case None
  with assms show ?thesis by (simp add: engine_cancel_order_def)
next
  case (Some b)
  then have "book_inv b" using engine_ok_book [OF assms, of symb] by (simp add: book_of_eq)
  then show ?thesis
    using Some by (intro engine_ok_update [OF assms cancel_book_inv, of b _ symb i])
      (simp_all add: engine_cancel_order_def Let_def case_prod_unfold)
qed

lemma engine_cancel_effect:
  assumes "engine_ok e"
  shows "fst (engine_cancel_order symb i e) \<longleftrightarrow> i \<in> a_ids (abs_book (book_of e symb))"
    "abs_book (book_of (snd (engine_cancel_order symb i e)) symb) = a_cancel i (abs_book (book_of e symb))"
    "symb' \<noteq> symb \<Longrightarrow> map_of (books (snd (engine_cancel_order symb i e))) symb' = map_of (books e) symb'"
    "trade_callback (snd (engine_cancel_order symb i e)) = trade_callback e"
    "stats (snd (engine_cancel_order symb i e)) = (if fst (engine_cancel_order symb i e)
       then (stats e)\<lparr>total_cancels := total_cancels (stats e) + 1\<rparr> else stats e)"
proof -
  have b: "book_ok (book_of e symb)" using engine_ok_book [OF assms, of symb] by (simp add: book_inv_def)
  have new: "a_bids (abs_book (OrderBook_new s n)) = []" "a_asks (abs_book (OrderBook_new s n)) = []" for s n
    by (simp_all add: abs_book_def queue_def ptrs_def levels_def OrderBook_new_def)
  show "fst (engine_cancel_order symb i e) \<longleftrightarrow> i \<in> a_ids (abs_book (book_of e symb))"
    using abs_cancel(2) [OF b, of i]
    by (auto simp: engine_cancel_order_def book_of_eq Let_def case_prod_unfold new a_ids_def split: option.splits)
  show "abs_book (book_of (snd (engine_cancel_order symb i e)) symb) = a_cancel i (abs_book (book_of e symb))"
    using abs_cancel(1) [OF b, of i]
    by (auto simp: engine_cancel_order_def book_of_eq Let_def case_prod_unfold new a_cancel_def map_sides_def
        update_conv' split: option.splits)
qed (auto simp: engine_cancel_order_def Let_def case_prod_unfold update_conv' split: option.splits)

lemma book_of_cong: "map_of (books e') symb = map_of (books e) symb \<Longrightarrow> book_of e' symb = book_of e symb"
  by (simp add: book_of_eq)

text \<open>A submission, taken or rejected, changes no other book and not the callback.\<close>

lemma submit_frame:
  assumes "submit_order now symb sd ty price q (e, s) = Some (i, e', s')"
  shows "symb' \<noteq> symb \<Longrightarrow> map_of (books e') symb' = map_of (books e) symb'" "trade_callback e' = trade_callback e"
proof -
  obtain e1 where gob: "get_order_book symb e = (book_of e symb, e1)" using get_order_book_eq by blast
  then have "map_of (books e1) = (map_of (books e))(symb \<mapsto> book_of e symb)" "trade_callback e1 = trade_callback e"
    using get_order_book_books [of symb e] get_order_book_frame(2) [of symb e] by simp_all
  then show "symb' \<noteq> symb \<Longrightarrow> map_of (books e') symb' = map_of (books e) symb'" "trade_callback e' = trade_callback e"
    using assms by (auto simp: submit_order_def gob Let_def update_conv' split: prod.splits if_splits option.splits)
qed

end
