(* ===== verification/BookCorrect.thy ===== *)
theory BookCorrect
  imports BookSpec
begin

text \<open>
  The theorems on the order book and its pool: every operation keeps the invariant \<open>book_ok\<close> and
  implements its counterpart on the abstract book; price-time priority, best prices, totals; no slot
  of the pool is lost or shared. Each theorem with hypotheses is followed by an instance on a
  concrete book.
\<close>

section \<open>Concrete books\<close>

definition p100 :: Price where
  "p100 = Double False 0x4059000000000000"

definition p101 :: Price where
  "p101 = Double False 0x4059400000000000"

lemma p100_p101 [simp]:
  "\<not> is_nan p100" "\<not> is_nan p101" "rank p100 = 0x4059000000000000" "rank p101 = 0x4059400000000000"
  by (simp_all add: p100_def p101_def is_nan_def inf_mag_def rank_def)

definition book0 :: OrderBook where
  "book0 = OrderBook_new ''AAPL'' 2"

text \<open>A bid of 10 at 100 (id 1, slot 1 of the pool).\<close>

definition book1 :: OrderBook where
  "book1 = snd (add_order 7 Buy Limit p100 10 book0)"

lemma book0_ok [simp]: "book_ok book0" "next_order_id book0 = 1"
  by (simp_all add: book0_def OrderBook_new_ok) (simp add: OrderBook_new_def)

lemma adds_book1: "adds book0 7 Buy Limit p100 10 (fst (add_order 7 Buy Limit p100 10 book0)) book1"
  by (simp add: adds_def book1_def)

lemma queue_book0 [simp]: "queue buy book0 = []"
  by (simp add: queue_def ptrs_def levels_def book0_def OrderBook_new_def)

lemma book1_ok [simp]: "book_ok book1" "next_order_id book1 = 2"
  using add_order_ok [OF adds_book1] adds_fields [OF adds_book1] by auto

lemma queue_book1 [simp]:
  "queue True book1 = [Order_new 7 1 Buy Limit p100 10]" "queue False book1 = []"
  using queue_adds [OF adds_book1, of True] queue_adds [OF adds_book1, of False]
  by (simp_all add: enqueue_def insert_after_def)

lemma abs_book1: "abs_book book1 = \<lparr>a_bids = [Order_new 7 1 Buy Limit p100 10], a_asks = [], a_next = 2\<rparr>"
  by (simp add: abs_book_def)

section \<open>Operations implement the abstract book\<close>

text \<open>C10. Adding an order with a price that is a number, as long as the id counter is not at its
  end, keeps the invariant, gives the order the next id, stores it in a slot no other order uses and
  puts it behind every order of its side whose price is at least as good.\<close>

theorem add_order_refines:
  assumes "book_ok b" and "\<not> is_nan price" and "next_order_id b + 1 \<noteq> 0"
    and "add_order now side ty price quantity b = (ptr, b')"
  shows "book_ok b' \<and> abs_book b' = a_add (Order_new now (next_order_id b) side ty price quantity) (abs_book b)
    \<and> ptr \<notin> live b \<and> live b' = insert ptr (live b)
    \<and> order_at b' ptr = Order_new now (next_order_id b) side ty price quantity
    \<and> (\<forall>p \<in> live b. order_at b' p = order_at b p)"
proof -
  have add: "adds b now side ty price quantity ptr b'" using assms by (simp add: adds_def)
  show ?thesis
    using add_order_ok [OF add] abs_add [OF add] adds_pool(3-5) [OF add] adds_live [OF add] by simp
qed

theorem add_order_refines_witness:
  "book_ok (snd (add_order 9 Sell Limit p101 4 book1))
   \<and> abs_book (snd (add_order 9 Sell Limit p101 4 book1)) =
      \<lparr>a_bids = [Order_new 7 1 Buy Limit p100 10], a_asks = [Order_new 9 2 Sell Limit p101 4], a_next = 3\<rparr>"
proof -
  have "add_order 9 Sell Limit p101 4 book1 = (fst (add_order 9 Sell Limit p101 4 book1), snd (add_order 9 Sell Limit p101 4 book1))"
    by simp
  from add_order_refines [OF _ _ _ this] show ?thesis
    by (simp add: abs_book1 a_add_def map_sides_def enqueue_def insert_after_def)
qed

text \<open>Cancelling answers whether the id is that of an order on the book, takes exactly that order
  off it and leaves the rest of both queues as it was.\<close>

theorem cancel_order_refines:
  assumes "book_ok b"
  shows "book_ok (snd (cancel_order i b)) \<and> abs_book (snd (cancel_order i b)) = a_cancel i (abs_book b)
    \<and> (fst (cancel_order i b) \<longleftrightarrow> i \<in> a_ids (abs_book b))"
  using cancel_order_ok [OF assms] abs_cancel [OF assms] by blast

theorem cancel_order_refines_witness:
  "fst (cancel_order 1 book1) \<and> abs_book (snd (cancel_order 1 book1)) = \<lparr>a_bids = [], a_asks = [], a_next = 2\<rparr>
   \<and> \<not> fst (cancel_order 5 book1)"
  using cancel_order_refines [of book1 1] cancel_order_refines [of book1 5]
  by (simp add: abs_book1 a_cancel_def map_sides_def a_ids_def)

text \<open>\<open>reduce_order\<close> refuses an unknown id and a quantity that is not below the remaining one,
  cancels on 0, and otherwise sets the remaining quantity of that order in place, so that it keeps
  its position in the queue.\<close>

theorem reduce_order_refines:
  assumes "book_ok b"
  shows "book_ok (snd (reduce_order i q b)) \<and>
    (case a_open i (abs_book b) of
       None \<Rightarrow> reduce_order i q b = (False, b)
     | Some r \<Rightarrow>
         if r \<le> q then reduce_order i q b = (False, b)
         else fst (reduce_order i q b) \<and> abs_book (snd (reduce_order i q b)) =
                (if q = 0 then a_cancel i (abs_book b) else a_reduce i q (abs_book b)))"
proof (cases "a_open i (abs_book b)")
  case None
  then show ?thesis using abs_reduce(1) [OF assms, of i q] assms by simp
next
  case (Some r)
  then have "i \<in> a_ids (abs_book b)" using a_open_None [of i "abs_book b"] by auto
  moreover from this have "fst (reduce_order i q b)" if "\<not> r \<le> q"
    using that Some by (subst abs_reduce(1) [OF assms]) (simp add: abs_cancel [OF assms])
  moreover have "reduce_order i q b = (if r \<le> q then (False, b) else cancel_order i b)" if "r \<le> q \<or> q = 0"
    using that Some by (subst abs_reduce(1) [OF assms]) auto
  ultimately show ?thesis
    using abs_reduce(2) [OF assms Some, of q] Some reduce_order_ok [OF assms, of i q] abs_cancel [OF assms, of i]
    by (auto simp: not_le)
qed

theorem reduce_order_refines_witness:
  "abs_book (snd (reduce_order 1 4 book1)) =
     \<lparr>a_bids = [(Order_new 7 1 Buy Limit p100 10)\<lparr>o_remaining_qty := 4\<rparr>], a_asks = [], a_next = 2\<rparr>
   \<and> abs_book (snd (reduce_order 1 0 book1)) = \<lparr>a_bids = [], a_asks = [], a_next = 2\<rparr>
   \<and> reduce_order 1 10 book1 = (False, book1) \<and> reduce_order 3 1 book1 = (False, book1)"
  using reduce_order_refines [of book1 3 1] reduce_order_refines [of book1 1 10]
    reduce_order_refines [of book1 1 0] reduce_order_refines [of book1 1 4]
  by (simp add: abs_book1 a_open_def a_cancel_def a_reduce_def map_sides_def)

text \<open>C12. Cancelling the order just added gives back the book as it was, but for the id counter: the
  same queues, and the same slots of the pool in use holding the same orders.\<close>

theorem add_cancel_roundtrip:
  assumes "book_ok b" and "\<not> is_nan price" and "next_order_id b + 1 \<noteq> 0"
    and "add_order now side ty price quantity b = (ptr, b')"
    and "cancel_order (next_order_id b) b' = (c, b'')"
  shows "c \<and> abs_book b'' = (abs_book b)\<lparr>a_next := next_order_id b + 1\<rparr> \<and> live b'' = live b"
proof (intro conjI)
  let ?ord = "Order_new now (next_order_id b) side ty price quantity"
  have add: "adds b now side ty price quantity ptr b'" using assms by (simp add: adds_def)
  note ok' = add_order_ok [OF add]
  have ptr: "ptr \<in> live b'" "o_id (order_at b' ptr) = next_order_id b" "ptr \<notin> live b"
    using adds_live [OF add] adds_pool(3,4) [OF add] by auto
  then have "next_order_id b \<in> a_ids (abs_book b')" unfolding a_ids_abs by force
  then show c using abs_cancel(2) [OF ok', of "next_order_id b"] assms(5) by simp
  have "\<forall>y \<in> set (queue s b). o_id y \<noteq> o_id ?ord" for s
    using live_ids [OF assms(1)] ptrs_live [of _ s b] by (fastforce simp: queue_def)
  then have "filter (\<lambda>y. o_id y \<noteq> next_order_id b) (queue s b') = queue s b" for s
    by (auto simp: queue_adds [OF add] enqueue_def filter_insert_after filter_id_conv)
  moreover have "next_order_id b' = next_order_id b + 1" using adds_fields [OF add] by auto
  ultimately show "abs_book b'' = (abs_book b)\<lparr>a_next := next_order_id b + 1\<rparr>"
    using abs_cancel(1) [OF ok', of "next_order_id b"] assms(5)
    by (simp add: abs_book_def a_cancel_def map_sides_def)
  let ?b = "set_order ptr ((order_at b' ptr)\<lparr>o_status := Cancelled\<rparr>) b'"
  have "b'' = remove_order ptr ?b" using cancel_order_Some [OF ok' ptr(1)] ptr(2) assms(5) by auto
  then show "live b'' = live b"
    using live_remove_order [of ?b ptr] set_order_ok [OF ok' ptr(1)] ptr adds_live [OF add] by auto
qed

theorem add_cancel_roundtrip_witness:
  "abs_book (snd (cancel_order 2 (snd (add_order 9 Buy Limit p101 4 book1)))) = (abs_book book1)\<lparr>a_next := 3\<rparr>"
proof -
  have "add_order 9 Buy Limit p101 4 book1 = (fst (add_order 9 Buy Limit p101 4 book1), snd (add_order 9 Buy Limit p101 4 book1))"
    by simp
  from add_cancel_roundtrip [OF _ _ _ this prod.collapse [symmetric]] show ?thesis by simp
qed

section \<open>Queries\<close>


definition book2 :: OrderBook where
  "book2 = snd (add_order 8 Buy Limit p101 4 book1)"

lemma book2_ok [simp]:
  "book_ok book2" "queue True book2 = [Order_new 8 2 Buy Limit p101 4, Order_new 7 1 Buy Limit p100 10]"
proof -
  have add: "adds book1 8 Buy Limit p101 4 (fst (add_order 8 Buy Limit p101 4 book1)) book2"
    by (simp add: adds_def book2_def)
  show "book_ok book2" by (rule add_order_ok [OF add])
  show "queue True book2 = [Order_new 8 2 Buy Limit p101 4, Order_new 7 1 Buy Limit p100 10]"
    using queue_adds [OF add, of True] by (simp add: enqueue_def insert_after_def side_rank_def)
qed


text \<open>\<open>best_bid\<close> and \<open>best_ask\<close> are the highest bid and the lowest ask on the book, the price of the
  order that trades next; 0 stands for an empty side.\<close>

theorem best_prices:
  assumes "book_ok b"
  shows "(if queue True b = [] then best_bid b = dzero
      else deq (best_bid b) (o_price (hd (queue True b))) \<and> (\<forall>ord \<in> set (queue True b). dge (best_bid b) (o_price ord)))
    \<and> (if queue False b = [] then best_ask b = dzero
      else deq (best_ask b) (o_price (hd (queue False b))) \<and> (\<forall>ord \<in> set (queue False b). dle (best_ask b) (o_price ord)))"
proof -
  have "if queue buy b = [] then best buy b = dzero
    else deq (best buy b) (o_price (hd (queue buy b)))
      \<and> (\<forall>ord \<in> set (queue buy b). if buy then dge (best buy b) (o_price ord) else dle (best buy b) (o_price ord))" for buy
  proof (cases "queue buy b")
    case Nil
    then show ?thesis by (simp add: best_rank(1) [OF assms])
  next
    case (Cons x xs)
    note r = best_rank(2) [OF assms Cons]
    have nan: "\<forall>ord \<in> set (queue buy b). \<not> is_nan (o_price ord)" using queue_not_nan [OF assms] by blast
    have "side_rank buy (o_price x) \<le> side_rank buy (o_price ord)" if "ord \<in> set (queue buy b)" for ord
      using queue_sorted [OF assms, of buy] that before_rank unfolding Cons by auto
    then show ?thesis using r nan unfolding Cons by (auto simp: double_cmp side_rank_def)
  qed
  from this [of True] this [of False] show ?thesis unfolding best_def if_True if_False by blast
qed

theorem best_prices_witness: "deq (best_bid book1) p100 \<and> best_ask book1 = dzero"
  using best_prices [of book1] by simp

text \<open>Totals are the sum of the remaining quantities of a side, modulo $2^{32}$: the accumulator
  is a \<^verbatim>\<open>Quantity\<close>.\<close>

theorem total_quantities:
  "unat (total_bid_quantity b) = (\<Sum>ord \<leftarrow> queue True b. unat (o_remaining_qty ord)) mod 2 ^ 32
   \<and> unat (total_ask_quantity b) = (\<Sum>ord \<leftarrow> queue False b. unat (o_remaining_qty ord)) mod 2 ^ 32"
  unfolding total_bid_quantity_def total_ask_quantity_def total_quantity
  by (simp add: unat_sum_list queue_def ptrs_def levels_def comp_def)

section \<open>The pool\<close>



text \<open>\<open>acquire\<close> always succeeds, growing the storage when the free list is empty. The slot is one
  nobody uses, it is counted as in use from then on, and objects in use stay where they are.\<close>

theorem acquire_fresh:
  assumes "pool_ok pool" and "acquire dflt pool = (ptr, pool')"
  shows "pool_ok pool' \<and> ptr \<notin> in_use pool \<and> in_use pool' = insert ptr (in_use pool)
    \<and> capacity pool' = (if free_list pool = [] then capacity pool + 1 else capacity pool)
    \<and> (\<forall>q \<in> in_use pool. deref pool' q = deref pool q)"
  using pool.alloc_ok [OF assms] pool.alloc_fresh [OF assms] pool.alloc_get [OF assms] assms(2)
  by (auto simp: acquire_def capacity_def Let_def split: if_splits)

theorem acquire_fresh_witness:
  "fst (acquire (0::nat) (pool_new 0 1)) = 0 \<and> in_use (snd (acquire (0::nat) (pool_new 0 1))) = {0}"
proof -
  have "acquire (0::nat) (pool_new 0 1) = (0, snd (acquire 0 (pool_new 0 1)))" by (simp add: acquire_def pool_new_eq)
  from acquire_fresh [OF pool_new_ok(1) this] show ?thesis by (simp add: acquire_def pool_new_eq in_use_def lessThan_Suc)
qed

end
