(* ===== verification/EngineCorrect.thy ===== *)
theory EngineCorrect
  imports EngineSpec BookCorrect
begin

text \<open>
  The theorems on the matching engine: the matching loop returns and implements the specification;
  a submission keeps the invariant of the engine, trades at the right prices with the right orders,
  loses no quantity, leaves no crossing order behind, and touches no other symbol.

  The trades of a submission are observed the way a client does, through the trade callback:
  \<open>recorder\<close> is the callback that collects them in a list.
\<close>

section \<open>Trades\<close>

definition recorder :: "Trade list TradeCallback" where
  "recorder trade trades = trades @ [trade]"

definition aggressor :: "bool \<Rightarrow> Trade \<Rightarrow> OrderId" where
  "aggressor buy t = (if buy then t_buy_order_id t else t_sell_order_id t)"

lemma run_recorder [simp]: "run_callback (Some recorder) trades ts = ts @ trades"
  by (induction trades arbitrary: ts) (simp_all add: run_callback_def recorder_def)

lemma trades_of_quantity [simp]: "(\<Sum>t \<leftarrow> trades_of now n buy i fs. f (t_quantity t)) = (\<Sum>(r, q) \<leftarrow> fs. f q)"
  by (induction fs arbitrary: n) (auto simp: trade_of_def)

lemma trades_of_map:
  "length (trades_of now n buy i fs) = length fs"
  "map (aggressor (\<not> buy)) (trades_of now n buy i fs) = map (\<lambda>(r, q). o_id r) fs"
  "map t_price (trades_of now n buy i fs) = map (\<lambda>(r, q). o_price r) fs"
  by (induction fs arbitrary: n) (auto simp: trade_of_def aggressor_def)

lemma trades_of_mem:
  assumes "t \<in> set (trades_of now n buy i fs)"
  obtains r q where "(r, q) \<in> set fs" "aggressor buy t = i" "aggressor (\<not> buy) t = o_id r"
    "t_price t = o_price r" "t_quantity t = q"
proof -
  have "\<exists>f \<in> set fs. \<exists>ts. t = trade_of buy i ts f" using assms by (induction fs arbitrary: n) auto
  then show thesis using that by (auto simp: trade_of_def aggressor_def)
qed

lemma fill_queue_hit:
  assumes "fill_queue match q qs = (fs, q', rs)"
  shows "map (\<lambda>(r, f). g r) fs = take (length fs) (map g qs)"
  using arg_cong [OF fill_queue_prefix [OF assms, THEN conjunct1], of "map g"]
  by (simp add: take_map comp_def case_prod_unfold)

lemma fill_queue_liquidity:
  "fill_queue match q qs = (fs, q', rs) \<Longrightarrow>
     (\<Sum>r \<leftarrow> qs. unat (o_remaining_qty r)) = (\<Sum>(r, f) \<leftarrow> fs. unat f) + (\<Sum>r \<leftarrow> rs. unat (o_remaining_qty r))"
proof (induction match q qs arbitrary: fs q' rs rule: fill_queue.induct)
  case (2 match q r rest)
  show ?case
  proof (cases "q = 0 \<or> \<not> match r \<or> q < o_remaining_qty r")
    case True
    then show ?thesis
      using "2.prems" by (auto simp: unat_diff [OF order.strict_implies_order] word_less_nat_alt split: if_splits)
  next
    case False
    then obtain fs' where fs': "fill_queue match (q - o_remaining_qty r) rest = (fs', q', rs)"
      "fs = (r, o_remaining_qty r) # fs'"
      using "2.prems" by (auto split: prod.splits)
    show ?thesis using "2.IH" [OF _ _ fs'(1)] False fs'(2) by auto
  qed
qed auto

section \<open>What a submission does, seen from outside\<close>

definition opposite :: "'s MatchingEngine \<Rightarrow> string \<Rightarrow> Side \<Rightarrow> Order list" where
  "opposite e symb sd = queue (sd \<noteq> Buy) (book_of e symb)"

lemma submit_observed:
  assumes acc: "accepted ty price q" and sub: "submittable e symb ty price" and rec: "trade_callback e = Some recorder"
    and submit: "submit_order now symb sd ty price q (e, []) = Some (i, e', ts)"
  obtains fs q' rs where
    "fill_queue (crosses (sd = Buy) (effective_price sd ty price)) q (opposite e symb sd) = (fs, q', rs)"
    "i = next_order_id (book_of e symb)" "ts = trades_of (\<lambda>i. now (2 + i)) 0 (sd = Buy) i fs"
    "engine_ok e'" "opposite e' symb sd = rs"
    "queue (sd = Buy) (book_of e' symb) =
       (if 0 < q' \<and> may_rest ty
        then enqueue (sd = Buy) (remainder (incoming_order now e symb sd ty price q) q') (queue (sd = Buy) (book_of e symb))
        else queue (sd = Buy) (book_of e symb))"
proof -
  let ?ord = "incoming_order now e symb sd ty price q" and ?b = "book_of e symb"
  obtain fs q' rs where fill: "fill_queue (crosses (sd = Buy) (effective_price sd ty price)) q (opposite e symb sd) = (fs, q', rs)"
    by (metis prod_cases3)
  have ord: "o_side ?ord = sd" "o_price ?ord = effective_price sd ty price" "o_remaining_qty ?ord = q" "o_type ?ord = ty"
    by (simp_all add: incoming_order_def)
  note sides = a_submit_sides [of ?ord "abs_book ?b" fs q' rs, unfolded ord a_side_abs, OF fill [unfolded opposite_def]]
  from submit_accepted [OF acc sub, of now sd fs "snd (a_submit ?ord (abs_book ?b))", OF _ refl, of "[]"] sides(1) rec
  have e': "i = next_order_id ?b" "ts = trades_of (\<lambda>i. now (2 + i)) 0 (sd = Buy) i fs"
    "engine_ok e'" "abs_book (book_of e' symb) = snd (a_submit ?ord (abs_book ?b))"
    using submit by (auto simp: prod_eq_iff)
  show thesis
    using that [OF fill e'(1-3)] sides(2,3) unfolding e'(4) [symmetric] a_side_abs opposite_def by blast
qed

lemma submittable_ok: "submittable e symb ty price \<Longrightarrow> book_ok (book_of e symb)"
  using engine_ok_book [of e symb] by (simp add: submittable_def book_inv_def)

section \<open>The matching loop\<close>

text \<open>C7. Matching returns on every well-formed book, and what it does is what the specification
  says: fill the incoming quantity from the opposite queue, in priority order, as long as
  prices cross; one trade per order hit.\<close>

theorem match_loop_correct:
  assumes "book_ok b" and "incoming \<in> set (ptrs is_buy b)"
    and "fill_queue (crosses is_buy (o_price (order_at b incoming))) (o_remaining_qty (order_at b incoming)) (queue (\<not> is_buy) b)
      = (fs, q, rs)"
  shows "\<exists>b'. match_loop now is_buy incoming b [] = Some (trades_of now 0 is_buy (o_id (order_at b incoming)) fs, b')
    \<and> book_ok b' \<and> queue (\<not> is_buy) b' = rs \<and> ptrs is_buy b' = ptrs is_buy b
    \<and> order_at b' incoming = (order_at b incoming)\<lparr>o_remaining_qty := q\<rparr>
    \<and> (\<forall>p \<in> set (ptrs is_buy b) - {incoming}. order_at b' p = order_at b p)"
  using match_loop_spec [OF assms, of now "[]"] by (auto simp: matched_def)

text \<open>On a book with a bid of 10 at 100, an ask of 4 just added at 100 matches it.\<close>

theorem match_loop_correct_witness:
  "\<exists>b'. match_loop (\<lambda>_. 0) False (fst (add_order 9 Sell Limit p100 4 book1)) (snd (add_order 9 Sell Limit p100 4 book1)) [] =
      Some ([\<lparr>t_buy_order_id = 1, t_sell_order_id = 2, t_price = p100, t_quantity = 4, t_timestamp = 0\<rparr>], b')
    \<and> queue True b' = [(Order_new 7 1 Buy Limit p100 10)\<lparr>o_remaining_qty := 6\<rparr>]"
proof -
  obtain ptr b where a: "add_order 9 Sell Limit p100 4 book1 = (ptr, b)" by fastforce
  then have add: "adds book1 9 Sell Limit p100 4 ptr b" by (simp add: adds_def)
  have "ptr \<in> set (ptrs False b)" using adds_ptrs(2) [OF add, of False] by simp
  from match_loop_correct [OF add_order_ok [OF add] this, of _ _ _ "\<lambda>_. 0"] show ?thesis
    using adds_pool(4) [OF add] queue_adds [OF add, of True]
    by (fastforce simp: a crosses_def double_cmp trade_of_def)
qed

text \<open>C1. \<open>submit_order\<close> returns for every valid order: the trades given to the callback and the book it
  leaves are those of the specification \<open>a_submit\<close>, and the engine's invariant holds again.\<close>

theorem submit_order_refines:
  assumes "accepted ty price q" and "submittable e symb ty price"
  shows "\<exists>e' fs. submit_order now symb sd ty price q (e, s) =
      Some (next_order_id (book_of e symb), e',
        run_callback (trade_callback e) (trades_of (\<lambda>i. now (2 + i)) 0 (sd = Buy) (next_order_id (book_of e symb)) fs) s)
    \<and> a_submit (incoming_order now e symb sd ty price q) (abs_book (book_of e symb)) = (fs, abs_book (book_of e' symb))
    \<and> engine_ok e'"
proof -
  obtain fs a' where "a_submit (incoming_order now e symb sd ty price q) (abs_book (book_of e symb)) = (fs, a')" by fastforce
  from submit_accepted [OF assms this refl, of s] this show ?thesis by auto
qed

section \<open>Concrete engines\<close>

definition engine0 :: "Trade list MatchingEngine" where
  "engine0 = set_trade_callback recorder MatchingEngine_new"

text \<open>An ask of 10 at 100 rests on AAPL.\<close>

definition engine1 :: "Trade list MatchingEngine" where
  "engine1 = fst (snd (the (submit_order (\<lambda>_. 0) ''AAPL'' Sell Limit p100 10 (engine0, []))))"

lemma engine0_ok [simp]:
  "engine_ok engine0" "trade_callback engine0 = Some recorder" "books engine0 = []"
  "book_of engine0 symb = OrderBook_new symb default_pool_size"
  by (simp_all add: engine0_def set_trade_callback_def engine_ok_def MatchingEngine_new_def book_of_eq)

lemma abs_new [simp]: "abs_book (OrderBook_new symb n) = \<lparr>a_bids = [], a_asks = [], a_next = 1\<rparr>"
  by (simp add: abs_book_def queue_def ptrs_def levels_def OrderBook_new_def)

lemma next_new [simp]: "next_order_id (OrderBook_new symb n) = 1"
  by (simp add: OrderBook_new_def)

lemma accepted_positive [simp]: "accepted ty p100 q \<longleftrightarrow> q \<noteq> 0" "accepted ty p101 q \<longleftrightarrow> q \<noteq> 0"
  by (auto simp: accepted_def dle_def rank_consts)

lemma effective_price_limit [simp]: "ty \<noteq> Market \<Longrightarrow> effective_price sd ty price = price"
  by (simp add: effective_price_def)

lemma submit_engine1:
  "submit_order (\<lambda>_. 0) ''AAPL'' Sell Limit p100 10 (engine0, []) = Some (1, engine1, [])"
  "engine_ok engine1 \<and> trade_callback engine1 = Some recorder
   \<and> abs_book (book_of engine1 ''AAPL'') = \<lparr>a_bids = [], a_asks = [Order_new 0 1 Sell Limit p100 10], a_next = 2\<rparr>"
proof -
  have "a_submit (incoming_order (\<lambda>_. 0) engine0 ''AAPL'' Sell Limit p100 10) (abs_book (book_of engine0 ''AAPL'')) =
    ([], \<lparr>a_bids = [], a_asks = [Order_new 0 1 Sell Limit p100 10], a_next = 2\<rparr>)"
    by (simp add: a_submit_def incoming_order_def enqueue_def insert_after_def remainder_def may_rest_def Order_new_def)
  from submit_accepted [OF _ _ this refl, of "[]"]
  show "submit_order (\<lambda>_. 0) ''AAPL'' Sell Limit p100 10 (engine0, []) = Some (1, engine1, [])"
    "engine_ok engine1 \<and> trade_callback engine1 = Some recorder
     \<and> abs_book (book_of engine1 ''AAPL'') = \<lparr>a_bids = [], a_asks = [Order_new 0 1 Sell Limit p100 10], a_next = 2\<rparr>"
    by (auto simp: submittable_def engine1_def)
qed

lemma engine1_queue [simp]:
  "engine_ok engine1" "trade_callback engine1 = Some recorder" "next_order_id (book_of engine1 ''AAPL'') = 2"
  "queue True (book_of engine1 ''AAPL'') = []" "queue False (book_of engine1 ''AAPL'') = [Order_new 0 1 Sell Limit p100 10]"
  using submit_engine1(2) by (simp_all add: abs_book_def)

lemma engine1_submittable [simp]:
  "submittable engine1 ''AAPL'' ty p100" "submittable engine1 ''AAPL'' ty p101"
  by (simp_all add: submittable_def)

theorem submit_order_refines_witness:
  "\<exists>e'. submit_order (\<lambda>_. 0) ''AAPL'' Buy Limit p101 14 (engine1, []) =
      Some (2, e', [\<lparr>t_buy_order_id = 2, t_sell_order_id = 1, t_price = p100, t_quantity = 10, t_timestamp = 0\<rparr>])
    \<and> abs_book (book_of e' ''AAPL'') =
        \<lparr>a_bids = [\<lparr>o_id = 2, o_price = p101, o_quantity = 14, o_remaining_qty = 4, o_timestamp = 0, o_side = Buy,
          o_type = Limit, o_status = PartiallyFilled\<rparr>], a_asks = [], a_next = 3\<rparr>"
  using submit_order_refines [of Limit p101 14 engine1 "''AAPL''" "\<lambda>_. 0" Buy "[]"]
  by (auto simp: submit_engine1(2) a_submit_def incoming_order_def crosses_def double_cmp trade_of_def enqueue_def
      insert_after_def remainder_def may_rest_def Order_new_def)

section \<open>Quantities\<close>

abbreviation filled :: "Trade list \<Rightarrow> nat" where
  "filled ts \<equiv> (\<Sum>t \<leftarrow> ts. unat (t_quantity t))"

lemma open_after_submit:
  assumes ok: "book_ok (book_of e symb)" and ok': "engine_ok e'" and i: "i = next_order_id (book_of e symb)"
    and fill: "fill_queue match q (opposite e symb sd) = (fs, q', rs)" and rs: "opposite e' symb sd = rs"
    and own: "queue (sd = Buy) (book_of e' symb) = (if 0 < q' \<and> may_rest ty
        then enqueue (sd = Buy) (remainder (incoming_order now e symb sd ty price q) q') (queue (sd = Buy) (book_of e symb))
        else queue (sd = Buy) (book_of e symb))"
  shows "a_open i (abs_book (book_of e' symb)) = (if 0 < q' \<and> may_rest ty then Some q' else None)"
proof (cases "0 < q' \<and> may_rest ty")
  case True
  let ?b' = "book_of e' symb" and ?ord = "incoming_order now e symb sd ty price q"
  have b': "book_ok ?b'" using engine_ok_book [OF ok', of symb] by (simp add: book_inv_def)
  from True have "remainder ?ord q' \<in> set (queue (sd = Buy) ?b')" by (simp add: own enqueue_def)
  then obtain p where "p \<in> live ?b'" "order_at ?b' p = remainder ?ord q'"
    unfolding queue_order_at using ptrs_live by metis
  with a_open_live [OF b' this(1)] True show ?thesis by (simp add: remainder_def incoming_order_def i)
next
  case False
  have old: "o_id x \<noteq> i" if "x \<in> set (queue s (book_of e symb))" for x s using old_ids(2) [OF ok that] by (simp add: i)
  have "o_id x \<noteq> i" if "x \<in> set (queue s (book_of e' symb))" for x s
  proof (cases "s = (sd = Buy)")
    case True
    then show ?thesis using that False own old by auto
  next
    case s: False
    then have "x \<in> set rs" using that rs by (auto simp: opposite_def)
    from fill_queue_rest [OF fill this] show ?thesis
      using old [of _ "sd \<noteq> Buy"] by (metis opposite_def same_key_def)
  qed
  then have "i \<notin> a_ids (abs_book (book_of e' symb))" by (auto simp: a_ids_def abs_book_def)
  with False show ?thesis by (auto simp: a_open_None)
qed

text \<open>C2. No quantity is created or lost. The opposite side loses exactly what was traded, the order
  is filled by at most its quantity, and it is on the book afterwards exactly if something of it is
  left and its type may rest, with exactly what is left. So a market or IOC order never rests.\<close>

theorem quantity_conserved:
  assumes "accepted ty price q" and "submittable e symb ty price" and "trade_callback e = Some recorder"
    and "submit_order now symb sd ty price q (e, []) = Some (i, e', ts)"
  shows "filled ts \<le> unat q
    \<and> (\<Sum>r \<leftarrow> opposite e symb sd. unat (o_remaining_qty r)) = filled ts + (\<Sum>r \<leftarrow> opposite e' symb sd. unat (o_remaining_qty r))
    \<and> a_open i (abs_book (book_of e' symb)) =
        (if filled ts < unat q \<and> ty \<noteq> Market \<and> ty \<noteq> IOC then Some (q - of_nat (filled ts)) else None)"
proof -
  from submit_observed [OF assms] obtain fs q' rs where
    fill: "fill_queue (crosses (sd = Buy) (effective_price sd ty price)) q (opposite e symb sd) = (fs, q', rs)"
    and i: "i = next_order_id (book_of e symb)" and ts: "ts = trades_of (\<lambda>i. now (2 + i)) 0 (sd = Buy) i fs"
    and ok': "engine_ok e'" and rs: "opposite e' symb sd = rs"
    and own: "queue (sd = Buy) (book_of e' symb) = (if 0 < q' \<and> may_rest ty
        then enqueue (sd = Buy) (remainder (incoming_order now e symb sd ty price q) q') (queue (sd = Buy) (book_of e symb))
        else queue (sd = Buy) (book_of e symb))"
    by metis
  have sum: "filled ts + unat q' = unat q" using fill_queue_conserves [OF fill] by (simp add: ts)
  have "a_open i (abs_book (book_of e' symb)) = (if 0 < q' \<and> may_rest ty then Some q' else None)"
    by (rule open_after_submit [OF submittable_ok [OF assms(2)] ok' i fill rs own])
  moreover have "q' = q - of_nat (filled ts)"
    using arg_cong [OF sum, of "of_nat :: nat \<Rightarrow> Quantity"] by (simp add: algebra_simps)
  moreover have "0 < q' \<longleftrightarrow> filled ts < unat q" using sum by (simp add: word_gt_0 unat_gt_0 flip: sum)
  ultimately show ?thesis
    using sum fill_queue_liquidity [OF fill] rs by (auto simp: ts may_rest_def)
qed

text \<open>The submission the witnesses use: a buy of 4 against the ask of 10.\<close>

definition engine2 :: "Trade list MatchingEngine" where
  "engine2 = fst (snd (the (submit_order (\<lambda>_. 0) ''AAPL'' Buy IOC p101 4 (engine1, []))))"

definition trade2 :: Trade where
  "trade2 = \<lparr>t_buy_order_id = 2, t_sell_order_id = 1, t_price = p100, t_quantity = 4, t_timestamp = 0\<rparr>"

lemma submit_engine2:
  "submit_order (\<lambda>_. 0) ''AAPL'' Buy IOC p101 4 (engine1, []) = Some (2, engine2, [trade2])"
  "abs_book (book_of engine2 ''AAPL'') =
     \<lparr>a_bids = [], a_asks = [(Order_new 0 1 Sell Limit p100 10)\<lparr>o_remaining_qty := 6\<rparr>], a_next = 3\<rparr>"
proof -
  have "a_submit (incoming_order (\<lambda>_. 0) engine1 ''AAPL'' Buy IOC p101 4) (abs_book (book_of engine1 ''AAPL'')) =
    ([(Order_new 0 1 Sell Limit p100 10, 4)],
     \<lparr>a_bids = [], a_asks = [(Order_new 0 1 Sell Limit p100 10)\<lparr>o_remaining_qty := 6\<rparr>], a_next = 3\<rparr>)"
    by (simp add: submit_engine1(2) a_submit_def incoming_order_def crosses_def double_cmp)
  from submit_accepted [OF _ _ this refl, of "[]"]
  show "submit_order (\<lambda>_. 0) ''AAPL'' Buy IOC p101 4 (engine1, []) = Some (2, engine2, [trade2])"
    "abs_book (book_of engine2 ''AAPL'') =
       \<lparr>a_bids = [], a_asks = [(Order_new 0 1 Sell Limit p100 10)\<lparr>o_remaining_qty := 6\<rparr>], a_next = 3\<rparr>"
    by (auto simp: engine2_def trade_of_def trade2_def)
qed

theorem quantity_conserved_witness:
  "opposite engine2 ''AAPL'' Buy = [(Order_new 0 1 Sell Limit p100 10)\<lparr>o_remaining_qty := 6\<rparr>]
   \<and> (10::nat) = filled [trade2] + (\<Sum>r \<leftarrow> opposite engine2 ''AAPL'' Buy. unat (o_remaining_qty r))
   \<and> a_open 2 (abs_book (book_of engine2 ''AAPL'')) = None"
  using quantity_conserved [OF _ _ _ submit_engine2(1)] submit_engine2(2)
  by (simp add: opposite_def abs_book_def trade2_def)

section \<open>Prices and priority\<close>

text \<open>C3. Trades are with the orders at the head of the opposite queue, in priority order, one each, at
  the resting order's price, which is never worse than the incoming limit; every trade moves a
  positive quantity and names the incoming order on its side.\<close>

theorem trades_by_priority:
  assumes "accepted ty price q" and "submittable e symb ty price" and "trade_callback e = Some recorder"
    and "submit_order now symb sd ty price q (e, []) = Some (i, e', ts)"
  shows "map (aggressor (sd \<noteq> Buy)) ts = take (length ts) (map o_id (opposite e symb sd))
    \<and> map t_price ts = take (length ts) (map o_price (opposite e symb sd))
    \<and> (\<forall>t \<in> set ts. aggressor (sd = Buy) t = i \<and> 0 < t_quantity t
         \<and> (if sd = Buy then dge (effective_price sd ty price) (t_price t) else dle (effective_price sd ty price) (t_price t)))"
proof -
  from submit_observed [OF assms] obtain fs q' rs where
    fill: "fill_queue (crosses (sd = Buy) (effective_price sd ty price)) q (opposite e symb sd) = (fs, q', rs)"
    and ts: "ts = trades_of (\<lambda>i. now (2 + i)) 0 (sd = Buy) i fs" by metis
  note pre = fill_queue_prefix [OF fill]
  have "\<forall>r \<in> set (opposite e symb sd). 0 < o_remaining_qty r"
    using assms(2) queue_resting [of e _ _ symb] by (simp add: submittable_def resting_def opposite_def)
  then have pos: "\<forall>(r, f) \<in> set fs. 0 < f" by (rule fill_queue_pos(1) [OF fill])
  show ?thesis
    using pre pos by (auto simp: ts trades_of_map fill_queue_hit [OF fill] crosses_def elim!: trades_of_mem)
qed

theorem trades_by_priority_witness:
  "map (aggressor False) [trade2] = take 1 (map o_id (opposite engine1 ''AAPL'' Buy))
   \<and> map t_price [trade2] = take 1 (map o_price (opposite engine1 ''AAPL'' Buy)) \<and> dge p101 (t_price trade2)"
  using trades_by_priority [OF _ _ _ submit_engine2(1)] by (auto simp: opposite_def trade2_def)

text \<open>C8. Matching does not stop early: if the order was not completely filled, no order left on the
  opposite side has a price that crosses its limit.\<close>

theorem nothing_left_to_trade:
  assumes "accepted ty price q" and "submittable e symb ty price" and "trade_callback e = Some recorder"
    and "submit_order now symb sd ty price q (e, []) = Some (i, e', ts)" and "filled ts < unat q"
    and "r \<in> set (opposite e' symb sd)"
  shows "if sd = Buy then dlt (effective_price sd ty price) (o_price r) else dgt (effective_price sd ty price) (o_price r)"
proof -
  let ?p = "effective_price sd ty price"
  from submit_observed [OF assms(1-4)] obtain fs q' rs where
    fill: "fill_queue (crosses (sd = Buy) ?p) q (opposite e symb sd) = (fs, q', rs)"
    and ts: "ts = trades_of (\<lambda>i. now (2 + i)) 0 (sd = Buy) i fs" and rs: "opposite e' symb sd = rs" by metis
  note ok = submittable_ok [OF assms(2)]
  have "0 < q'" using fill_queue_conserves [OF fill] assms(5) by (auto simp: ts word_gt_0)
  have nan: "\<not> is_nan ?p" using assms(2) effective_price_nan by (auto simp: submittable_def)
  have qs: "\<forall>r \<in> set (opposite e symb sd). \<not> is_nan (o_price r)" "sorted_wrt (before (\<not> (sd = Buy))) (opposite e symb sd)"
    using queue_not_nan [OF ok] queue_sorted [OF ok] by (auto simp: opposite_def)
  have r: "r \<in> set rs" using assms(6) rs by simp
  have "side_rank (\<not> (sd = Buy)) ?p < side_rank (\<not> (sd = Buy)) (o_price r)"
    by (rule none_cross [OF qs(2,1) nan fill \<open>0 < q'\<close> r])
  moreover have "\<not> is_nan (o_price r)"
    using fill_queue_rest [OF fill r] qs(1) by (metis same_key_def)
  ultimately show ?thesis using nan by (auto simp: double_cmp side_rank_def)
qed

text \<open>A buy of 14 limited at 100 takes the 10 and finds nothing more; the ask at 101 stays.\<close>

theorem nothing_left_to_trade_witness:
  "\<exists>e' ts. submit_order (\<lambda>_. 0) ''AAPL'' Sell Limit p101 5 (engine1, []) = Some (2, e', ts) \<and> ts = []
    \<and> (\<exists>e'' ts'. submit_order (\<lambda>_. 0) ''AAPL'' Buy IOC p100 14 (e', []) = Some (3, e'', ts') \<and> filled ts' = 10
    \<and> (\<exists>r. opposite e'' ''AAPL'' Buy = [r] \<and> dlt p100 (o_price r)))"
proof -
  let ?r = "Order_new 0 2 Sell Limit p101 5"
  have "a_submit (incoming_order (\<lambda>_. 0) engine1 ''AAPL'' Sell Limit p101 5) (abs_book (book_of engine1 ''AAPL'')) =
    ([], \<lparr>a_bids = [], a_asks = [Order_new 0 1 Sell Limit p100 10, ?r], a_next = 3\<rparr>)"
    by (simp add: submit_engine1(2) a_submit_def incoming_order_def enqueue_def insert_after_def remainder_def may_rest_def
        side_rank_def Order_new_def)
  from submit_accepted [OF _ _ this refl, of "[]"] obtain e' where
    e': "submit_order (\<lambda>_. 0) ''AAPL'' Sell Limit p101 5 (engine1, []) = Some (2, e', [])" "engine_ok e'"
    "abs_book (book_of e' ''AAPL'') = \<lparr>a_bids = [], a_asks = [Order_new 0 1 Sell Limit p100 10, ?r], a_next = 3\<rparr>"
    "trade_callback e' = Some recorder" by auto
  have nxt: "next_order_id (book_of e' ''AAPL'') = 3" using e'(3) by (simp add: abs_book_def)
  have sub: "submittable e' ''AAPL'' IOC p100" using e'(2) nxt by (simp add: submittable_def)
  have "a_submit (incoming_order (\<lambda>_. 0) e' ''AAPL'' Buy IOC p100 14) (abs_book (book_of e' ''AAPL'')) =
    ([(Order_new 0 1 Sell Limit p100 10, 10)], \<lparr>a_bids = [], a_asks = [?r], a_next = 4\<rparr>)"
    by (simp add: e'(3) a_submit_def incoming_order_def crosses_def double_cmp may_rest_def)
  from submit_accepted [OF _ sub this refl, of "[]"] obtain e'' ts' where
    e'': "submit_order (\<lambda>_. 0) ''AAPL'' Buy IOC p100 14 (e', []) = Some (3, e'', ts')" "filled ts' = 10"
    "abs_book (book_of e'' ''AAPL'') = \<lparr>a_bids = [], a_asks = [?r], a_next = 4\<rparr>"
    by (auto simp: nxt e'(4) trade_of_def)
  then have "opposite e'' ''AAPL'' Buy = [?r]" by (simp add: opposite_def abs_book_def)
  moreover from this have "dlt p100 (o_price ?r)"
    using nothing_left_to_trade [OF _ sub e'(4) e''(1), of ?r] e''(2) by simp
  ultimately show ?thesis using e' e'' by blast
qed

section \<open>Errors, isolation, cancelling\<close>



text \<open>Books of different symbols are independent: submitting to or cancelling on one symbol leaves
  every other book, and the callback, as they are.\<close>

theorem symbols_isolated:
  assumes "submit_order now symb sd ty price q (e, s) = Some (i, e', s')" and "symb' \<noteq> symb"
  shows "book_of e' symb' = book_of e symb' \<and> trade_callback e' = trade_callback e
    \<and> book_of (snd (engine_cancel_order symb j e)) symb' = book_of e symb'"
proof -
  have "map_of (books (snd (engine_cancel_order symb j e))) symb' = map_of (books e) symb'"
    using assms(2) by (auto simp: engine_cancel_order_def Let_def case_prod_unfold update_conv' split: option.splits)
  then show ?thesis using submit_frame [OF assms(1)] assms(2) book_of_cong by metis
qed

theorem symbols_isolated_witness: "book_of engine2 ''MSFT'' = book_of engine1 ''MSFT''"
  using symbols_isolated [OF submit_engine2(1), of "''MSFT''"] by simp

text \<open>Cancelling through the engine succeeds exactly for the ids on that symbol's book, takes that
  order off it, counts the success and keeps the invariant; an unknown symbol is refused.\<close>

theorem engine_cancel_correct:
  assumes "engine_ok e" and "engine_cancel_order symb i e = (c, e')"
  shows "engine_ok e' \<and> (c \<longleftrightarrow> i \<in> a_ids (abs_book (book_of e symb)))
    \<and> abs_book (book_of e' symb) = a_cancel i (abs_book (book_of e symb))
    \<and> total_cancels (stats e') = total_cancels (stats e) + (if c then 1 else 0)
    \<and> (map_of (books e) symb = None \<longrightarrow> \<not> c \<and> e' = e)"
proof -
  have "c = fst (engine_cancel_order symb i e)" "e' = snd (engine_cancel_order symb i e)" using assms(2) by simp_all
  moreover have "map_of (books e) symb = None \<longrightarrow> \<not> c \<and> e' = e"
    using assms(2) by (auto simp: engine_cancel_order_def)
  ultimately show ?thesis
    using engine_cancel_ok [OF assms(1), of symb i] engine_cancel_effect(1,2,5) [OF assms(1), where symb = symb and i = i]
    by simp
qed

theorem engine_cancel_correct_witness:
  "fst (engine_cancel_order ''AAPL'' 1 engine1) \<and> \<not> fst (engine_cancel_order ''AAPL'' 2 engine1)
   \<and> a_asks (abs_book (book_of (snd (engine_cancel_order ''AAPL'' 1 engine1)) ''AAPL'')) = []"
  using engine_cancel_correct [OF engine1_queue(1) prod.collapse [symmetric], of "''AAPL''" 1]
    engine_cancel_correct [OF engine1_queue(1) prod.collapse [symmetric], of "''AAPL''" 2]
  by (simp add: submit_engine1(2) a_ids_def a_cancel_def map_sides_def)

end
