(* ===== verification/EngineRuns.thy ===== *)
theory EngineRuns
  imports EngineCorrect
begin

text \<open>
  The engine as a state machine. \<^verbatim>\<open>submit_order\<close> and \<^verbatim>\<open>cancel_order\<close> hold the mutex, so what any number
  of threads do with them is a sequence of calls; the other public functions do not lock, and a step
  stands for such a call made while no other is in progress. \<open>engine_step\<close> is one call and
  \<open>engine_run\<close> a sequence. The invariants hold along every run in which prices are numbers and no id counter has
  come to its end.
\<close>

datatype 's call =
    Submit string Side OrderType Price Quantity clock
  | Cancel string OrderId
  | GetBook string
  | SetCallback "'s TradeCallback"
  | ResetStats

fun legal :: "'s MatchingEngine \<Rightarrow> 's call \<Rightarrow> bool" where
  "legal e (Submit symb sd ty price q now) \<longleftrightarrow>
     (ty = Market \<or> \<not> is_nan price) \<and> next_order_id (book_of e symb) + 1 \<noteq> 0"
| "legal e _ \<longleftrightarrow> True"

fun is_submit :: "'s call \<Rightarrow> bool" where
  "is_submit (Submit _ _ _ _ _ _) \<longleftrightarrow> True"
| "is_submit _ \<longleftrightarrow> False"

fun keeps_stats :: "'s call \<Rightarrow> bool" where
  "keeps_stats (SetCallback _) \<longleftrightarrow> False"
| "keeps_stats ResetStats \<longleftrightarrow> False"
| "keeps_stats _ \<longleftrightarrow> True"

inductive engine_step :: "'s MatchingEngine \<times> 's \<Rightarrow> 's call \<Rightarrow> 's MatchingEngine \<times> 's \<Rightarrow> bool" where
  submit: "submit_order now symb sd ty price q (e, s) = Some (i, e', s') \<Longrightarrow>
     engine_step (e, s) (Submit symb sd ty price q now) (e', s')"
| cancel: "engine_cancel_order symb i e = (c, e') \<Longrightarrow> engine_step (e, s) (Cancel symb i) (e', s)"
| get_book: "get_order_book symb e = (b, e') \<Longrightarrow> engine_step (e, s) (GetBook symb) (e', s)"
| set_callback: "engine_step (e, s) (SetCallback cb) (set_trade_callback cb e, s)"
| reset: "engine_step (e, s) ResetStats (reset_stats e, s)"

inductive_cases engine_stepE [elim!]:
  "engine_step (e, s) (Submit symb sd ty price q now) es'"
  "engine_step (e, s) (Cancel symb i) es'"
  "engine_step (e, s) (GetBook symb) es'"
  "engine_step (e, s) (SetCallback cb) es'"
  "engine_step (e, s) ResetStats es'"

inductive engine_run :: "'s MatchingEngine \<times> 's \<Rightarrow> 's call list \<Rightarrow> 's MatchingEngine \<times> 's \<Rightarrow> bool" where
  start: "engine_run es [] es"
| call: "engine_run es calls (e, s) \<Longrightarrow> legal e c \<Longrightarrow> engine_step (e, s) c es' \<Longrightarrow> engine_run es (calls @ [c]) es'"

section \<open>Steps keep the invariant and never block\<close>

lemma submit_ok:
  assumes ok: "engine_ok e" and legal: "legal e (Submit symb sd ty price q now)"
    and submit: "submit_order now symb sd ty price q (e, s) = Some (i, e', s')"
  shows "engine_ok e'"
proof (cases "accepted ty price q")
  case True
  obtain fs a' where "a_submit (incoming_order now e symb sd ty price q) (abs_book (book_of e symb)) = (fs, a')" by fastforce
  from submit_accepted [OF True _ this refl, of s] ok legal submit show ?thesis by (auto simp: submittable_def)
next
  case False
  from submit_rejected [OF False, of now symb sd e s] submit get_order_book_ok [OF ok, of symb]
  show ?thesis by (auto simp: engine_ok_def)
qed

lemma engine_step_ok:
  assumes "engine_step (e, s) c (e', s')" and "engine_ok e" and "legal e c"
  shows "engine_ok e'"
proof (cases c)
  case (Submit symb sd ty price q now)
  then show ?thesis using assms submit_ok [OF assms(2)] by blast
next
  case (Cancel symb i)
  then show ?thesis using assms engine_cancel_ok [OF assms(2), of symb i] by auto
next
  case (GetBook symb)
  then show ?thesis using assms get_order_book_ok [OF assms(2), of symb] by auto
next
  case (SetCallback cb)
  then show ?thesis using assms by (auto simp: set_trade_callback_def engine_ok_def)
next
  case ResetStats
  then show ?thesis using assms by (auto simp: reset_stats_def engine_ok_def)
qed

lemma engine_run_ok:
  assumes "engine_run es calls es'" and "engine_ok (fst es)"
  shows "engine_ok (fst es')"
  using assms
proof (induction rule: engine_run.induct)
  case (call es calls e s c es')
  then show ?case using engine_step_ok [of e s c "fst es'" "snd es'"] by simp
qed simp

lemma engine_step_total:
  assumes "engine_ok e" and "legal e c"
  shows "\<exists>es'. engine_step (e, s) c es'"
proof (cases c)
  case (Submit symb sd ty price q now)
  have "\<exists>i e' s'. submit_order now symb sd ty price q (e, s) = Some (i, e', s')"
  proof (cases "accepted ty price q")
    case True
    obtain fs a' where "a_submit (incoming_order now e symb sd ty price q) (abs_book (book_of e symb)) = (fs, a')" by fastforce
    from submit_accepted [OF True _ this refl, of s] assms Submit show ?thesis by (auto simp: submittable_def)
  qed (use submit_rejected [of ty price q now symb sd e s] in blast)
  then show ?thesis unfolding Submit by (metis engine_step.submit)
next
  case (Cancel symb i)
  then show ?thesis using engine_step.cancel by (metis prod.collapse)
next
  case (GetBook symb)
  then show ?thesis using engine_step.get_book by (metis prod.collapse)
qed (auto intro: engine_step.intros)

section \<open>Counters along a run\<close>

lemma submit_counters:
  assumes "submit_order now symb sd ty price q (e, s) = Some (i, e', s')"
  obtains trades where "s' = run_callback (trade_callback e) trades s"
    "total_orders (stats e') = total_orders (stats e) + 1"
    "total_trades (stats e') = total_trades (stats e) + of_nat (length trades)"
    "total_volume (stats e') = total_volume (stats e) + (\<Sum>t \<leftarrow> trades. ucast (t_quantity t))"
    "total_cancels (stats e') = total_cancels (stats e)"
proof -
  obtain e1 where gob: "get_order_book symb e = (book_of e symb, e1)" using get_order_book_eq by blast
  then have e1: "stats e1 = stats e" "trade_callback e1 = trade_callback e"
    using get_order_book_frame [of symb e] by simp_all
  let ?st = "(stats e)\<lparr>total_orders := total_orders (stats e) + 1\<rparr>"
  have fold: "s2 = run_callback (trade_callback e) trades s \<and> total_orders st2 = total_orders (stats e) + 1
      \<and> total_trades st2 = total_trades (stats e) + of_nat (length trades)
      \<and> total_volume st2 = total_volume (stats e) + (\<Sum>t \<leftarrow> trades. ucast (t_quantity t))
      \<and> total_cancels st2 = total_cancels (stats e)"
    if "fold (record_trade (trade_callback e)) trades (?st, s) = (st2, s2)" for trades st2 s2
    using snd_fold_record_trade [of "trade_callback e" trades ?st s] record_trade_totals [of "trade_callback e" trades ?st s] that
    by simp
  show thesis
  proof (cases "accepted ty price q")
    case True
    then obtain trades st2 l where "fold (record_trade (trade_callback e)) trades (?st, s) = (st2, s')" "stats e' = record_latency l st2"
      using assms by (auto simp: submit_order_def gob e1 accepted_def Let_def split: prod.splits if_splits option.splits)
    with fold [OF this(1)] that [of trades] show thesis by simp
  next
    case False
    with assms that [of "[]"] show thesis by (auto simp: submit_order_def gob e1 accepted_def Let_def split: if_splits)
  qed
qed

section \<open>Theorems\<close>

text \<open>C4. Whatever the calls so far, every book of the engine satisfies its invariant and no book is
  crossed: with orders on both sides, the best bid is below the best ask.\<close>

theorem engine_never_crossed:
  assumes "engine_run (MatchingEngine_new, s0) calls (e, s)"
  shows "engine_ok e \<and> (best_bid_level (book_of e symb) = None \<or> best_ask_level (book_of e symb) = None
    \<or> dlt (best_bid (book_of e symb)) (best_ask (book_of e symb)))"
proof -
  let ?b = "book_of e symb"
  have ok: "engine_ok e" using engine_run_ok [OF assms] MatchingEngine_new_ok by simp
  then have inv: "book_inv ?b" by (rule engine_ok_book)
  then have b: "book_ok ?b" by (simp add: book_inv_def)
  have level: "best_bid_level ?b = None \<longleftrightarrow> queue True ?b = []" "best_ask_level ?b = None \<longleftrightarrow> queue False ?b = []"
    using queue_head [OF b, of True] queue_head [OF b, of False]
    by (auto simp: best_bid_level_def best_ask_level_def levels_def queue_def split: list.splits)
  have "dlt (best_bid ?b) (best_ask ?b)" if q: "queue True ?b = x # xs" "queue False ?b = y # ys" for x xs y ys
    using best_rank(2) [OF b q(1)] best_rank(2) [OF b q(2)] inv q
    by (simp add: best_def book_inv_def a_inv_def uncrossed_def abs_book_def double_cmp)
  with ok level show ?thesis by (cases "queue True ?b"; cases "queue False ?b") auto
qed

text \<open>C9. No call ever blocks or fails to return, whatever the calls before it, and its outcome is
  determined.\<close>

theorem engine_never_stuck:
  assumes "engine_run (MatchingEngine_new, s0) calls (e, s)" and "legal e c"
  shows "\<exists>!es'. engine_step (e, s) c es'"
proof -
  have "engine_ok e" using engine_run_ok [OF assms(1)] MatchingEngine_new_ok by simp
  then obtain es' where "engine_step (e, s) c es'" using engine_step_total [OF _ assms(2)] by metis
  moreover have "es'' = es'" if "engine_step (e, s) c es''" for es''
    using calculation that by (cases c) auto
  ultimately show ?thesis by blast
qed

text \<open>The counters count: along a run with one callback and no reset, \<open>total_orders\<close> is the number of
  submissions, \<open>total_trades\<close> and \<open>total_volume\<close> are the number and the volume of the trades the
  callback has been given (modulo $2^{64}$).\<close>

theorem counters_count:
  assumes "engine_run (engine0, []) calls (e, ts)" and "list_all keeps_stats calls"
  shows "total_orders (stats e) = of_nat (length (filter is_submit calls))
    \<and> total_trades (stats e) = of_nat (length ts)
    \<and> total_volume (stats e) = (\<Sum>t \<leftarrow> ts. ucast (t_quantity t))"
proof -
  have "trade_callback (fst es') = Some recorder \<and> total_orders (stats (fst es')) = of_nat (length (filter is_submit calls))
    \<and> total_trades (stats (fst es')) = of_nat (length (snd es'))
    \<and> total_volume (stats (fst es')) = (\<Sum>t \<leftarrow> snd es'. ucast (t_quantity t))"
    if "engine_run es calls es'" "es = (engine0, [])" "list_all keeps_stats calls" for es es'
    using that
  proof (induction rule: engine_run.induct)
    case (start es)
    then show ?case by (simp add: engine0_def set_trade_callback_def MatchingEngine_new_def EngineStats_init_def)
  next
    case (call es calls e s c es')
    then have IH: "trade_callback e = Some recorder" "total_orders (stats e) = of_nat (length (filter is_submit calls))"
      "total_trades (stats e) = of_nat (length s)" "total_volume (stats e) = (\<Sum>t \<leftarrow> s. ucast (t_quantity t))" by auto
    show ?case
    proof (cases c)
      case (Submit symb sd ty price q now)
      then obtain i where sub: "submit_order now symb sd ty price q (e, s) = Some (i, fst es', snd es')" using call.hyps(3) by auto
      from submit_counters [OF sub] obtain trades where
        "snd es' = run_callback (trade_callback e) trades s" "total_orders (stats (fst es')) = total_orders (stats e) + 1"
        "total_trades (stats (fst es')) = total_trades (stats e) + of_nat (length trades)"
        "total_volume (stats (fst es')) = total_volume (stats e) + (\<Sum>t \<leftarrow> trades. ucast (t_quantity t))" .
      with submit_frame(2) [OF sub] IH show ?thesis by (simp add: Submit)
    next
      case (Cancel symb i)
      then show ?thesis using call.hyps(3) IH
        by (auto simp: engine_cancel_order_def Let_def case_prod_unfold split: option.splits if_splits)
    next
      case (GetBook symb)
      then have "fst es' = snd (get_order_book symb e)" "snd es' = s" using call.hyps(3) by auto
      with IH GetBook show ?thesis by simp
    qed (use call.prems in auto)
  qed
  from this [OF assms(1) refl assms(2)] show ?thesis by simp
qed

section \<open>A concrete run\<close>

lemma run1: "engine_run (engine0, []) [Submit ''AAPL'' Sell Limit p100 10 (\<lambda>_. 0)] (engine1, [])"
  using engine_run.call [OF engine_run.start _ engine_step.submit, OF _ submit_engine1(1)] by simp

lemma run2: "engine_run (engine0, []) [Submit ''AAPL'' Sell Limit p100 10 (\<lambda>_. 0), Submit ''AAPL'' Buy IOC p101 4 (\<lambda>_. 0)] (engine2, [trade2])"
  using engine_run.call [OF run1 _ engine_step.submit, OF _ submit_engine2(1)] by simp

lemma engine_run_append:
  assumes "engine_run es1 calls2 es2" and "engine_run es0 calls1 es1"
  shows "engine_run es0 (calls1 @ calls2) es2"
  using assms
proof (induction rule: engine_run.induct)
  case (call es calls e s c es')
  then have "engine_run es0 ((calls1 @ calls) @ [c]) es'" by (blast intro: engine_run.call)
  then show ?case by simp
qed simp

lemma run0: "engine_run (MatchingEngine_new, []) [SetCallback recorder] (engine0, [])"
  using engine_run.call [OF engine_run.start _ engine_step.set_callback] by (simp add: engine0_def)

theorem engine_never_crossed_witness:
  "engine_ok engine2 \<and> (best_bid_level (book_of engine2 ''AAPL'') = None \<or> best_ask_level (book_of engine2 ''AAPL'') = None
    \<or> dlt (best_bid (book_of engine2 ''AAPL'')) (best_ask (book_of engine2 ''AAPL'')))"
  by (rule engine_never_crossed [OF engine_run_append [OF run2 run0]])

theorem engine_never_stuck_witness: "\<exists>!es'. engine_step (engine2, [trade2]) (Cancel ''AAPL'' 1) es'"
  by (rule engine_never_stuck [OF engine_run_append [OF run2 run0]]) simp

theorem counters_count_witness:
  "total_orders (stats engine2) = 2 \<and> total_trades (stats engine2) = 1 \<and> total_volume (stats engine2) = 4"
  using counters_count [OF run2] by (simp add: trade2_def)

end
