(* ===== verification/MessageLoop.thy ===== *)
theory MessageLoop
  imports EngineRuns
begin

text \<open>
  The interface between the engine and the loops that feed it, the socket server and the tape
  replay. A handler turns one message into a reply and a new state, or does not return. The locale
  \<open>message_handler\<close> states what such a loop relies on: with an invariant that carries a bound
  \<open>k\<close> on the ids given out so far, handling a legal message returns, keeps the invariant and gives out at
  most one id. From that, every finite sequence of messages is handled completely.
\<close>

fun run_all :: "('m \<Rightarrow> 's \<Rightarrow> ('r \<times> 's) option) \<Rightarrow> 'm list \<Rightarrow> 's \<Rightarrow> ('r list \<times> 's) option" where
  "run_all handle [] s = Some ([], s)"
| "run_all handle (m # ms) s =
     (case handle m s of
        None \<Rightarrow> None
      | Some (r, s1) \<Rightarrow> (case run_all handle ms s1 of None \<Rightarrow> None | Some (rs, s2) \<Rightarrow> Some (r # rs, s2)))"

locale message_handler =
  fixes inv :: "nat \<Rightarrow> 's \<Rightarrow> bool"
    and legal :: "'m \<Rightarrow> bool"
    and handle :: "'m \<Rightarrow> 's \<Rightarrow> ('r \<times> 's) option"
    and bound :: nat
  assumes handles: "inv k s \<Longrightarrow> legal m \<Longrightarrow> k + 1 < bound \<Longrightarrow> \<exists>r s'. handle m s = Some (r, s') \<and> inv (k + 1) s'"
begin

lemma run_all_handles:
  assumes "inv k s" and "\<forall>m \<in> set ms. legal m" and "k + length ms < bound"
  shows "\<exists>rs s'. run_all handle ms s = Some (rs, s') \<and> length rs = length ms \<and> inv (k + length ms) s'"
  using assms
proof (induction ms arbitrary: k s)
  case (Cons m ms)
  then obtain r s1 where 1: "handle m s = Some (r, s1)" "inv (k + 1) s1" using handles [of k s m] by auto
  from Cons.IH [OF 1(2)] Cons.prems(2,3) obtain rs s' where
    "run_all handle ms s1 = Some (rs, s')" "length rs = length ms" "inv (k + 1 + length ms) s'" by auto
  with 1(1) show ?case by simp
qed simp

text \<open>Handling two sequences one after the other is handling their concatenation.\<close>

lemma run_all_append:
  "run_all handle (ms @ ms') s =
     (case run_all handle ms s of None \<Rightarrow> None | Some (rs, s1) \<Rightarrow>
        (case run_all handle ms' s1 of None \<Rightarrow> None | Some (rs', s2) \<Rightarrow> Some (rs @ rs', s2)))"
  by (induction ms arbitrary: s) (auto split: option.splits)

end

section \<open>What the engine promises its clients\<close>

definition ids_below :: "nat \<Rightarrow> 's MatchingEngine \<Rightarrow> bool" where
  "ids_below k e \<longleftrightarrow> (\<forall>symb. unat (next_order_id (book_of e symb)) \<le> k)"

definition engine_inv :: "nat \<Rightarrow> 's MatchingEngine \<Rightarrow> bool" where
  "engine_inv k e \<longleftrightarrow> engine_ok e \<and> ids_below k e"

lemma engine_inv_new: "engine_inv 1 MatchingEngine_new"
  using MatchingEngine_new_ok
  by (simp add: engine_inv_def ids_below_def book_of_eq) (simp add: MatchingEngine_new_def OrderBook_new_def)

lemma next_id_suc:
  assumes "engine_inv k e" and "k + 1 < 2 ^ 64"
  shows "unat (next_order_id (book_of e symb) + 1) = unat (next_order_id (book_of e symb)) + 1"
    "next_order_id (book_of e symb) + 1 \<noteq> 0"
proof -
  have "unat (next_order_id (book_of e symb)) \<le> k" using assms(1) by (simp add: engine_inv_def ids_below_def)
  then have "unat (next_order_id (book_of e symb)) + 1 < 2 ^ 64" using assms(2) by simp
  from unat_suc [OF this] show "unat (next_order_id (book_of e symb) + 1) = unat (next_order_id (book_of e symb)) + 1"
    "next_order_id (book_of e symb) + 1 \<noteq> 0" .
qed

lemma submit_engine_inv:
  assumes inv: "engine_inv k e" and price: "ty = Market \<or> \<not> is_nan price" and k: "k + 1 < 2 ^ 64"
  obtains i e' s' where "submit_order now symb sd ty price q (e, s) = Some (i, e', s')" "engine_inv (k + 1) e'"
proof -
  have ok: "engine_ok e" and ids: "ids_below k e" using inv by (simp_all add: engine_inv_def)
  have le: "unat (next_order_id (book_of e x)) \<le> k" for x using ids by (simp add: ids_below_def)
  note suc = next_id_suc [OF inv k]
  have legal: "legal e (Submit symb sd ty price q now)" using price suc(2) by simp
  obtain es' where "engine_step (e, s) (Submit symb sd ty price q now) es'"
    using engine_step_total [OF ok legal] by metis
  then obtain i e' s' where sub: "submit_order now symb sd ty price q (e, s) = Some (i, e', s')" by auto
  have "unat (next_order_id (book_of e' x)) \<le> k + 1" for x
  proof (cases "x = symb")
    case False
    then show ?thesis using submit_frame(1) [OF sub False] le [of x] book_of_cong [of e' x e] by simp
  next
    case x: True
    show ?thesis
    proof (cases "accepted ty price q")
      case True
      have "submittable e symb ty price" using ok legal by (simp add: submittable_def)
      from submit_accepted [OF True this surjective_pairing refl, of now sd s] sub
      have "abs_book (book_of e' symb) = snd (a_submit (incoming_order now e symb sd ty price q) (abs_book (book_of e symb)))"
        by auto
      then have "next_order_id (book_of e' symb) = next_order_id (book_of e symb) + 1"
        by (simp add: abs_book_def a_submit_def Let_def case_prod_unfold)
      then show ?thesis using suc le x by simp
    next
      case False
      from submit_rejected [OF this, of now symb sd e s] sub have "book_of e' x = book_of e x"
        using get_order_book_same [of e' symb e] by auto
      then show ?thesis using le [of x] by simp
    qed
  qed
  then have "engine_inv (k + 1) e'" using submit_ok [OF ok legal sub] by (simp add: engine_inv_def ids_below_def)
  with sub show thesis by (rule that)
qed

lemma cancel_engine_inv:
  assumes "engine_inv k e"
  shows "engine_inv k (snd (engine_cancel_order symb i e))"
proof -
  have ok: "engine_ok e" using assms by (simp add: engine_inv_def)
  have "next_order_id (book_of (snd (engine_cancel_order symb i e)) x) = next_order_id (book_of e x)" for x
    by (auto simp: engine_cancel_order_def book_of_eq Let_def case_prod_unfold update_conv' split: option.splits)
  then show ?thesis using assms engine_cancel_ok [OF ok] by (simp add: engine_inv_def ids_below_def)
qed

lemma engine_inv_mono: "engine_inv k e \<Longrightarrow> k \<le> k' \<Longrightarrow> engine_inv k' e"
  by (auto simp: engine_inv_def ids_below_def intro: order_trans)

end
