(* ===== verification/Protocol.thy ===== *)
theory Protocol
  imports Types "HOL-Library.AList"
begin

text \<open>
  \<^verbatim>\<open>include/network/Protocol.h\<close>: the packed message structs and their bytes. The program sends the
  bytes of the structs themselves, so integers and doubles are little-endian on the platforms it
  builds on, and an enumeration is its underlying byte.
\<close>

section \<open>Bytes\<close>

type_synonym byte = "8 word"

primrec le_bytes :: "nat \<Rightarrow> nat \<Rightarrow> byte list" where
  "le_bytes 0 v = []"
| "le_bytes (Suc n) v = of_nat (v mod 256) # le_bytes n (v div 256)"

primrec le_val :: "byte list \<Rightarrow> nat" where
  "le_val [] = 0"
| "le_val (b # bs) = unat b + 256 * le_val bs"

lemma length_le_bytes [simp]: "length (le_bytes n v) = n"
  by (induction n arbitrary: v) simp_all

lemma le_val_bound: "le_val bs < 256 ^ length bs"
proof (induction bs)
  case (Cons b bs)
  have "unat b < 256" using unat_bound [of b] by simp
  then show ?case using Cons by simp
qed simp

lemma le_val_bytes [simp]: "le_val (le_bytes n v) = v mod 256 ^ n"
proof (induction n arbitrary: v)
  case (Suc n)
  have "unat (of_nat (v mod 256) :: byte) = v mod 256" by (simp add: unat_of_nat)
  then show ?case using Suc by (simp add: mod_mult2_eq)
qed simp

lemma le_bytes_val: "length bs = n \<Longrightarrow> le_bytes n (le_val bs) = bs"
proof (induction n arbitrary: bs)
  case (Suc n)
  then obtain b bs' where bs: "bs = b # bs'" "length bs' = n" by (cases bs) auto
  have "unat b < 256" using unat_bound [of b] by simp
  then show ?case using Suc.IH [OF bs(2)] by (simp add: bs)
qed simp

definition word_bytes :: "nat \<Rightarrow> 'a::len word \<Rightarrow> byte list" where
  "word_bytes n w = le_bytes n (unat w)"

definition bytes_word :: "byte list \<Rightarrow> 'a::len word" where
  "bytes_word bs = of_nat (le_val bs)"

lemma length_word_bytes [simp]: "length (word_bytes n w) = n"
  by (simp add: word_bytes_def)

lemma bytes_word_bytes:
  "256 ^ n = (2::nat) ^ LENGTH('a) \<Longrightarrow> bytes_word (word_bytes n w) = (w :: 'a::len word)"
  using unat_bound [of w] by (simp add: bytes_word_def word_bytes_def)

lemma word_bytes_word:
  "256 ^ n = (2::nat) ^ LENGTH('a) \<Longrightarrow> length bs = n \<Longrightarrow> word_bytes n (bytes_word bs :: 'a::len word) = bs"
  using le_val_bound [of bs] by (simp add: bytes_word_def word_bytes_def unat_of_nat le_bytes_val)

lemma word_bytes_inj:
  "word_bytes 8 (v :: 64 word) = word_bytes 8 w \<longleftrightarrow> v = w" "word_bytes 4 (x :: 32 word) = word_bytes 4 y \<longleftrightarrow> x = y"
proof -
  have "inj (word_bytes 8 :: 64 word \<Rightarrow> _)" by (rule inj_on_inverseI, rule bytes_word_bytes) simp
  then show "word_bytes 8 v = word_bytes 8 w \<longleftrightarrow> v = w" by (rule inj_eq)
  have "inj (word_bytes 4 :: 32 word \<Rightarrow> _)" by (rule inj_on_inverseI, rule bytes_word_bytes) simp
  then show "word_bytes 4 x = word_bytes 4 y \<longleftrightarrow> x = y" by (rule inj_eq)
qed

text \<open>A double is its 64 bits, sign first.\<close>

definition double_bits :: "double \<Rightarrow> nat" where
  "double_bits d = (if sign_bit d then 2 ^ 63 else 0) + unat (mag d)"

definition bits_double :: "nat \<Rightarrow> double" where
  "bits_double v = Double (2 ^ 63 \<le> v mod 2 ^ 64) (of_nat (v mod 2 ^ 63))"

lemma bits_double_bits: "bits_double (double_bits d) = d" and double_bits_bound: "double_bits d < 2 ^ 64"
proof -
  have "unat (mag d) < 2 ^ 63" using unat_bound [of "mag d"] by simp
  then show "bits_double (double_bits d) = d" "double_bits d < 2 ^ 64"
    by (cases d; simp add: bits_double_def double_bits_def)+
qed

lemma double_bits_double: "v < 2 ^ 64 \<Longrightarrow> double_bits (bits_double v) = v"
proof -
  assume v: "v < 2 ^ 64"
  have "v mod 2 ^ 63 = (if 2 ^ 63 \<le> v then v - 2 ^ 63 else v)"
    using v by (auto simp: mod_if)
  then show ?thesis using v by (auto simp: double_bits_def bits_double_def unat_of_nat)
qed

definition byte_of_Side :: "Side \<Rightarrow> byte" where
  "byte_of_Side side = (case side of Buy \<Rightarrow> 0 | Sell \<Rightarrow> 1 | OtherSide b \<Rightarrow> b)"

definition Side_of_byte :: "byte \<Rightarrow> Side" where
  "Side_of_byte b = (if b = 0 then Buy else if b = 1 then Sell else OtherSide b)"

definition byte_of_OrderType :: "OrderType \<Rightarrow> byte" where
  "byte_of_OrderType ty = (case ty of Limit \<Rightarrow> 0 | Market \<Rightarrow> 1 | IOC \<Rightarrow> 2 | OtherType b \<Rightarrow> b)"

definition OrderType_of_byte :: "byte \<Rightarrow> OrderType" where
  "OrderType_of_byte b = (if b = 0 then Limit else if b = 1 then Market else if b = 2 then IOC else OtherType b)"

fun byte_of_OrderStatus :: "OrderStatus \<Rightarrow> byte" where
  "byte_of_OrderStatus Accepted = 0"
| "byte_of_OrderStatus Filled = 1"
| "byte_of_OrderStatus PartiallyFilled = 2"
| "byte_of_OrderStatus Cancelled = 3"
| "byte_of_OrderStatus Rejected = 4"

lemma byte_of_Side_of_byte [simp]: "byte_of_Side (Side_of_byte b) = b"
  by (simp add: byte_of_Side_def Side_of_byte_def)

lemma byte_of_OrderType_of_byte [simp]: "byte_of_OrderType (OrderType_of_byte b) = b"
  by (simp add: byte_of_OrderType_def OrderType_of_byte_def)

section \<open>Messages\<close>

text \<open>\<^verbatim>\<open>MessageType\<close> values of the wire.\<close>

datatype MessageType = NewOrder | CancelOrder | ExecReport

fun byte_of_MessageType :: "MessageType \<Rightarrow> byte" where
  "byte_of_MessageType NewOrder = 1"
| "byte_of_MessageType CancelOrder = 2"
| "byte_of_MessageType ExecReport = 3"

record OrderMessage =
  om_symbol :: "byte list"
  om_side :: Side
  om_order_type :: OrderType
  om_price :: Price
  om_quantity :: Quantity

record CancelMessage =
  cm_symbol :: "byte list"
  cm_order_id :: OrderId

record ExecutionReport =
  er_order_id :: OrderId
  er_status :: OrderStatus
  er_price :: Price
  er_quantity :: Quantity
  er_remaining_qty :: Quantity

text \<open>\<^verbatim>\<open>set_symbol\<close>: zero the eight bytes, then copy at most seven. \<^verbatim>\<open>get_symbol\<close>: the bytes before the
  first zero.\<close>

definition byte_of_char :: "char \<Rightarrow> byte" where
  "byte_of_char c = of_nat (of_char c)"

definition set_symbol :: "string \<Rightarrow> byte list" where
  "set_symbol s = map byte_of_char (take (min (length s) 7) s) @ replicate (8 - min (length s) 7) 0"

definition get_symbol :: "byte list \<Rightarrow> string" where
  "get_symbol bs = map (\<lambda>b. char_of (unat b)) (takeWhile (\<lambda>b. b \<noteq> 0) (take 8 bs))"

definition encode_order :: "OrderMessage \<Rightarrow> byte list" where
  "encode_order m = byte_of_MessageType NewOrder # om_symbol m @
     [byte_of_Side (om_side m), byte_of_OrderType (om_order_type m)] @
     le_bytes 8 (double_bits (om_price m)) @ word_bytes 4 (om_quantity m)"

definition decode_order :: "byte list \<Rightarrow> OrderMessage" where
  "decode_order bs =
     \<lparr>om_symbol = take 8 (drop 1 bs), om_side = Side_of_byte (bs ! 9), om_order_type = OrderType_of_byte (bs ! 10),
      om_price = bits_double (le_val (take 8 (drop 11 bs))), om_quantity = bytes_word (take 4 (drop 19 bs))\<rparr>"

definition encode_cancel :: "CancelMessage \<Rightarrow> byte list" where
  "encode_cancel m = byte_of_MessageType CancelOrder # cm_symbol m @ word_bytes 8 (cm_order_id m)"

definition decode_cancel :: "byte list \<Rightarrow> CancelMessage" where
  "decode_cancel bs = \<lparr>cm_symbol = take 8 (drop 1 bs), cm_order_id = bytes_word (take 8 (drop 9 bs))\<rparr>"

definition encode_report :: "ExecutionReport \<Rightarrow> byte list" where
  "encode_report r = byte_of_MessageType ExecReport # word_bytes 8 (er_order_id r) @
     byte_of_OrderStatus (er_status r) # le_bytes 8 (double_bits (er_price r)) @
     word_bytes 4 (er_quantity r) @ word_bytes 4 (er_remaining_qty r)"

section \<open>Round trips\<close>

lemma byte_of_char: "byte_of_char c = 0 \<longleftrightarrow> c = CHR 0x00" "char_of (unat (byte_of_char c)) = c"
proof -
  have c: "char_of (unat (byte_of_char c)) = c" for c by (simp add: byte_of_char_def unat_of_nat)
  have zero: "byte_of_char (CHR 0x00) = 0" by (simp add: byte_of_char_def)
  have inj: "byte_of_char c = byte_of_char d \<Longrightarrow> c = d" for c d
    by (metis c)
  show "byte_of_char c = 0 \<longleftrightarrow> c = CHR 0x00" using inj [of c "CHR 0x00"] zero by auto
  show "char_of (unat (byte_of_char c)) = c" by (rule c)
qed

text \<open>A symbol survives the wire up to its first zero byte and its first seven characters.\<close>

theorem symbol_roundtrip: "get_symbol (set_symbol s) = takeWhile (\<lambda>c. c \<noteq> CHR 0x00) (take 7 s)"
proof -
  have "takeWhile (\<lambda>b. b \<noteq> 0) (map byte_of_char cs @ replicate n 0) = map byte_of_char (takeWhile (\<lambda>c. c \<noteq> CHR 0x00) cs)" for cs n
    by (induction cs) (auto simp: byte_of_char takeWhile_eq_Nil_iff hd_replicate)
  moreover have "take (min (length s) 7) s = take 7 s" by (simp add: min_def)
  ultimately show ?thesis by (simp add: get_symbol_def set_symbol_def byte_of_char comp_def)
qed

definition canonical :: "OrderMessage \<Rightarrow> bool" where
  "canonical m \<longleftrightarrow> length (om_symbol m) = 8 \<and> Side_of_byte (byte_of_Side (om_side m)) = om_side m
     \<and> OrderType_of_byte (byte_of_OrderType (om_order_type m)) = om_order_type m"

lemma double_bytes:
  "bits_double (le_val (le_bytes 8 (double_bits d))) = d"
  "length bs = 8 \<Longrightarrow> le_bytes 8 (double_bits (bits_double (le_val bs))) = bs"
proof -
  show "bits_double (le_val (le_bytes 8 (double_bits d))) = d"
    using double_bits_bound [of d] by (simp add: bits_double_bits)
  show "le_bytes 8 (double_bits (bits_double (le_val bs))) = bs" if "length bs = 8"
    using le_val_bound [of bs] that by (simp add: double_bits_double le_bytes_val)
qed

lemma decode_encode_order: "canonical m \<Longrightarrow> decode_order (encode_order m) = m"
proof -
  assume m: "canonical m"
  obtain price qty where pq: "le_bytes 8 (double_bits (om_price m)) = price" "word_bytes 4 (om_quantity m) = qty" by blast
  then have "length price = 8" "length qty = 4" by auto
  then show ?thesis
    using m pq double_bytes(1) [of "om_price m"] bytes_word_bytes [of 4 "om_quantity m"]
    by (simp add: canonical_def decode_order_def encode_order_def nth_append)
qed

lemma length_encode_order: "length (om_symbol m) = 8 \<Longrightarrow> length (encode_order m) = 23"
  by (simp add: encode_order_def)

lemma split_order_bytes:
  assumes "length bs = 23"
  shows "bs = hd bs # take 8 (drop 1 bs) @ [bs ! 9, bs ! 10] @ take 8 (drop 11 bs) @ take 4 (drop 19 bs)"
proof -
  have "drop 9 bs = bs ! 9 # bs ! 10 # drop 11 bs"
    using assms Cons_nth_drop_Suc [of 9 bs] Cons_nth_drop_Suc [of 10 bs] by simp
  moreover have "drop 11 bs = take 8 (drop 11 bs) @ drop 19 bs" using append_take_drop_id [of 8 "drop 11 bs"] by simp
  moreover have "drop 1 bs = take 8 (drop 1 bs) @ drop 9 bs" using append_take_drop_id [of 8 "drop 1 bs"] by simp
  moreover have "bs = hd bs # drop 1 bs" using assms by (cases bs) auto
  moreover have "take 4 (drop 19 bs) = drop 19 bs" using assms by simp
  ultimately show ?thesis by (metis append_Cons append_Nil)
qed

text \<open>C34. An \<^verbatim>\<open>OrderMessage\<close> is 23 bytes and survives the wire; and every 23 bytes that start with the
  type byte are the bytes of a message, whatever the side and type bytes are.\<close>

theorem order_message_roundtrip:
  "(canonical m \<longrightarrow> length (encode_order m) = 23 \<and> decode_order (encode_order m) = m)
   \<and> (length bs = 23 \<and> hd bs = 1 \<longrightarrow> encode_order (decode_order bs) = bs)"
proof (intro conjI impI)
  assume bs: "length bs = 23 \<and> hd bs = 1"
  then have "length (take 8 (drop 11 bs)) = 8" "length (take 4 (drop 19 bs)) = 4" by simp_all
  then show "encode_order (decode_order bs) = bs"
    using split_order_bytes [of bs] bs double_bytes(2) [of "take 8 (drop 11 bs)"] word_bytes_word [of 4 "take 4 (drop 19 bs)", where ?'a = 32]
    by (simp add: encode_order_def decode_order_def)
qed (simp_all add: decode_encode_order length_encode_order canonical_def)

theorem order_message_roundtrip_witness:
  "decode_order (encode_order \<lparr>om_symbol = set_symbol ''AAPL'', om_side = Sell, om_order_type = IOC,
      om_price = dbl_max, om_quantity = 300\<rparr>) =
    \<lparr>om_symbol = set_symbol ''AAPL'', om_side = Sell, om_order_type = IOC, om_price = dbl_max, om_quantity = 300\<rparr>"
  using order_message_roundtrip [of "\<lparr>om_symbol = set_symbol ''AAPL'', om_side = Sell, om_order_type = IOC,
      om_price = dbl_max, om_quantity = 300\<rparr>"]
  by (simp add: canonical_def set_symbol_def byte_of_Side_def Side_of_byte_def byte_of_OrderType_def OrderType_of_byte_def)

lemma decode_encode_cancel: "length (cm_symbol m) = 8 \<Longrightarrow> decode_cancel (encode_cancel m) = m"
  using bytes_word_bytes [of 8 "cm_order_id m"] by (simp add: decode_cancel_def encode_cancel_def)

text \<open>A \<^verbatim>\<open>CancelMessage\<close> is 17 bytes and survives the wire; an \<^verbatim>\<open>ExecutionReport\<close> is 26 bytes, and
  different reports have different bytes.\<close>

theorem cancel_and_report_bytes:
  "(length (cm_symbol m) = 8 \<longrightarrow> length (encode_cancel m) = 17 \<and> decode_cancel (encode_cancel m) = m)
   \<and> length (encode_report r) = 26 \<and> (encode_report r = encode_report r' \<longrightarrow> r = r')"
proof (intro conjI impI)
  assume "encode_report r = encode_report r'"
  then have eq: "word_bytes 8 (er_order_id r) = word_bytes 8 (er_order_id r')"
    "byte_of_OrderStatus (er_status r) = byte_of_OrderStatus (er_status r')"
    "le_bytes 8 (double_bits (er_price r)) = le_bytes 8 (double_bits (er_price r'))"
    "word_bytes 4 (er_quantity r) = word_bytes 4 (er_quantity r')"
    "word_bytes 4 (er_remaining_qty r) = word_bytes 4 (er_remaining_qty r')"
    by (simp_all add: encode_report_def)
  have "er_status r = er_status r'" using eq(2) by (cases "er_status r"; cases "er_status r'") simp_all
  moreover have "er_order_id r = er_order_id r'" "er_quantity r = er_quantity r'" "er_remaining_qty r = er_remaining_qty r'"
    using eq(1,4,5) by (simp_all only: word_bytes_inj)
  moreover have "er_price r = er_price r'" using eq(3) double_bytes(1) by metis
  ultimately show "r = r'" by simp
qed (simp_all only: decode_encode_cancel, simp_all add: encode_cancel_def encode_report_def)

theorem cancel_and_report_bytes_witness:
  "decode_cancel (encode_cancel \<lparr>cm_symbol = set_symbol ''AAPL'', cm_order_id = 7\<rparr>) = \<lparr>cm_symbol = set_symbol ''AAPL'', cm_order_id = 7\<rparr>"
  using cancel_and_report_bytes [of "\<lparr>cm_symbol = set_symbol ''AAPL'', cm_order_id = 7\<rparr>"] by (simp add: set_symbol_def)

end
