(* ===== verification/RiskChecker.thy ===== *)
theory RiskChecker
  imports Types "HOL-Library.AList"
begin

text \<open>
  \<^verbatim>\<open>include/risk/RiskChecker.h\<close> and \<^verbatim>\<open>src/risk/RiskChecker.cpp\<close>. A \<^verbatim>\<open>long\<close> has 64 bits on the
  platforms the program builds on; positions are 64-bit words read as signed integers. Signed
  overflow is undefined in C++ and wraps here; the theorems say when it does not happen.
\<close>

section \<open>State\<close>

type_synonym long = "64 word"

datatype RejectReason =
    NoReason
  | KillSwitchActive
  | InvalidQuantity
  | InvalidPrice
  | MaxOrderQuantityExceeded
  | MaxOrderNotionalExceeded
  | MaxPositionExceeded
  | MaxNotionalExposureExceeded

fun reject_reason_str :: "RejectReason \<Rightarrow> string" where
  "reject_reason_str NoReason = ''None''"
| "reject_reason_str KillSwitchActive = ''KillSwitchActive''"
| "reject_reason_str InvalidQuantity = ''InvalidQuantity''"
| "reject_reason_str InvalidPrice = ''InvalidPrice''"
| "reject_reason_str MaxOrderQuantityExceeded = ''MaxOrderQuantityExceeded''"
| "reject_reason_str MaxOrderNotionalExceeded = ''MaxOrderNotionalExceeded''"
| "reject_reason_str MaxPositionExceeded = ''MaxPositionExceeded''"
| "reject_reason_str MaxNotionalExposureExceeded = ''MaxNotionalExposureExceeded''"

text \<open>\<^verbatim>\<open>static_cast<size_t>(r)\<close>.\<close>

fun reason_index :: "RejectReason \<Rightarrow> nat" where
  "reason_index NoReason = 0"
| "reason_index KillSwitchActive = 1"
| "reason_index InvalidQuantity = 2"
| "reason_index InvalidPrice = 3"
| "reason_index MaxOrderQuantityExceeded = 4"
| "reason_index MaxOrderNotionalExceeded = 5"
| "reason_index MaxPositionExceeded = 6"
| "reason_index MaxNotionalExposureExceeded = 7"

text \<open>The enumerators in the order of the \<^verbatim>\<open>enum class\<close>; statements over all reasons evaluate.\<close>

instantiation RejectReason :: enum
begin

definition enum_RejectReason :: "RejectReason list" where
  "enum_RejectReason = [NoReason, KillSwitchActive, InvalidQuantity, InvalidPrice, MaxOrderQuantityExceeded,
     MaxOrderNotionalExceeded, MaxPositionExceeded, MaxNotionalExposureExceeded]"

definition enum_all_RejectReason :: "(RejectReason \<Rightarrow> bool) \<Rightarrow> bool" where
  "enum_all_RejectReason P \<longleftrightarrow> list_all P enum_class.enum"

definition enum_ex_RejectReason :: "(RejectReason \<Rightarrow> bool) \<Rightarrow> bool" where
  "enum_ex_RejectReason P \<longleftrightarrow> list_ex P enum_class.enum"

instance
proof
  have univ: "x \<in> set enum_class.enum" for x :: RejectReason by (cases x) (simp_all add: enum_RejectReason_def)
  then show "UNIV = set (enum_class.enum :: RejectReason list)" by auto
  show "distinct (enum_class.enum :: RejectReason list)" by (simp add: enum_RejectReason_def)
  show "enum_class.enum_all P \<longleftrightarrow> Ball UNIV P" "enum_class.enum_ex P \<longleftrightarrow> Bex UNIV P" for P :: "RejectReason \<Rightarrow> bool"
    using univ by (auto simp: enum_all_RejectReason_def enum_ex_RejectReason_def list_all_iff list_ex_iff)
qed

end

text \<open>The index of a reason is its place among the enumerators, so different reasons have different counters.\<close>

lemma enum_reason_index: "(enum_class.enum :: RejectReason list) ! reason_index r = r"
  by (cases r) (simp_all add: enum_RejectReason_def)

lemma reason_index_less [simp]: "reason_index r < 8"
  by (cases r) simp_all

lemma reason_index_eq [simp]: "reason_index r = reason_index r' \<longleftrightarrow> r = r'"
  using enum_reason_index by metis

record RiskLimits =
  max_order_quantity :: Quantity
  max_order_notional :: double
  max_position_abs :: long
  max_notional_exposure :: double

definition RiskLimits_default :: RiskLimits where
  "RiskLimits_default = \<lparr>max_order_quantity = 1000000, max_order_notional = dlit 10000000 1,
     max_position_abs = 5000000, max_notional_exposure = dlit 50000000 1\<rparr>"

record RiskStats =
  total_checks :: uint64
  total_passes :: uint64
  total_rejections :: uint64
  by_reason :: "uint64 list"

definition RiskStats_init :: RiskStats where
  "RiskStats_init = \<lparr>total_checks = 0, total_passes = 0, total_rejections = 0, by_reason = replicate 8 0\<rparr>"

definition record_pass :: "RiskStats \<Rightarrow> RiskStats" where
  "record_pass st = st\<lparr>total_checks := total_checks st + 1, total_passes := total_passes st + 1\<rparr>"

definition record_reject :: "RejectReason \<Rightarrow> RiskStats \<Rightarrow> RiskStats" where
  "record_reject r st = st\<lparr>total_checks := total_checks st + 1, total_rejections := total_rejections st + 1,
     by_reason := (by_reason st)[reason_index r := by_reason st ! reason_index r + 1]\<rparr>"

record RiskChecker =
  limits :: RiskLimits
  kill_switch :: bool
  positions :: "(string \<times> long) list"
  current_notional_exposure :: double
  risk_stats :: RiskStats

definition RiskChecker_new :: "RiskLimits \<Rightarrow> RiskChecker" where
  "RiskChecker_new lim = \<lparr>limits = lim, kill_switch = False, positions = [],
     current_notional_exposure = dzero, risk_stats = RiskStats_init\<rparr>"

section \<open>Operations\<close>

definition position :: "string \<Rightarrow> RiskChecker \<Rightarrow> long" where
  "position symb r = (case map_of (positions r) symb of None \<Rightarrow> 0 | Some p \<Rightarrow> p)"

text \<open>\<^verbatim>\<open>side == Side::Buy ? +static_cast<long>(qty) : -static_cast<long>(qty)\<close> and \<^verbatim>\<open>std::abs\<close>.\<close>

definition position_delta :: "Side \<Rightarrow> Quantity \<Rightarrow> long" where
  "position_delta side qty = (if side = Buy then ucast qty else - ucast qty)"

definition long_abs :: "long \<Rightarrow> long" where
  "long_abs x = (if sint x < 0 then - x else x)"

definition reject :: "RejectReason \<Rightarrow> RiskChecker \<Rightarrow> RejectReason \<times> RiskChecker" where
  "reject reason r = (reason, r\<lparr>risk_stats := record_reject reason (risk_stats r)\<rparr>)"

definition check :: "string \<Rightarrow> Side \<Rightarrow> OrderType \<Rightarrow> Price \<Rightarrow> Quantity \<Rightarrow> RiskChecker \<Rightarrow> RejectReason \<times> RiskChecker" where
  "check symb side ty price quantity r =
     (if kill_switch r then reject KillSwitchActive r
      else if quantity = 0 then reject InvalidQuantity r
      else if max_order_quantity (limits r) < quantity then reject MaxOrderQuantityExceeded r
      else if ty = Limit \<and> dle price dzero then reject InvalidPrice r
      else if ty \<noteq> Market \<and> dgt (dmul price (of_uint quantity)) (max_order_notional (limits r))
      then reject MaxOrderNotionalExceeded r
      else (let projected = position symb r + position_delta side quantity
            in if sint (max_position_abs (limits r)) < sint (long_abs projected) then reject MaxPositionExceeded r
               else if ty \<noteq> Market \<and>
                 dgt (dadd (current_notional_exposure r) (dmul price (of_uint quantity))) (max_notional_exposure (limits r))
               then reject MaxNotionalExposureExceeded r
               else (NoReason, r\<lparr>risk_stats := record_pass (risk_stats r)\<rparr>)))"

text \<open>The callers' \<^verbatim>\<open>if (risk_)\<close>: without a checker every order passes.\<close>

definition gate_check :: "bool \<Rightarrow> string \<Rightarrow> Side \<Rightarrow> OrderType \<Rightarrow> Price \<Rightarrow> Quantity \<Rightarrow> RiskChecker \<Rightarrow> RejectReason \<times> RiskChecker" where
  "gate_check gate symb side ty price quantity r =
     (if gate then check symb side ty price quantity r else (NoReason, r))"

definition on_fill :: "string \<Rightarrow> Side \<Rightarrow> Price \<Rightarrow> Quantity \<Rightarrow> RiskChecker \<Rightarrow> RiskChecker" where
  "on_fill symb side price qty r =
     r\<lparr>positions := AList.update symb (position symb r + position_delta side qty) (positions r),
       current_notional_exposure := dadd (current_notional_exposure r) (dmul price (of_uint qty))\<rparr>"

definition engage_kill_switch :: "RiskChecker \<Rightarrow> RiskChecker" where
  "engage_kill_switch r = r\<lparr>kill_switch := True\<rparr>"

definition disengage_kill_switch :: "RiskChecker \<Rightarrow> RiskChecker" where
  "disengage_kill_switch r = r\<lparr>kill_switch := False\<rparr>"

definition is_killed :: "RiskChecker \<Rightarrow> bool" where
  "is_killed r = kill_switch r"

definition risk_reset_stats :: "RiskChecker \<Rightarrow> RiskChecker" where
  "risk_reset_stats r = r\<lparr>risk_stats := RiskStats_init\<rparr>"

definition set_limits :: "RiskLimits \<Rightarrow> RiskChecker \<Rightarrow> RiskChecker" where
  "set_limits lim r = r\<lparr>limits := lim\<rparr>"

section \<open>The documented order of the checks\<close>

text \<open>The header lists the checks in evaluation order. Each is a violation with its reason; the
  first one that applies decides.\<close>

definition violations :: "string \<Rightarrow> Side \<Rightarrow> OrderType \<Rightarrow> Price \<Rightarrow> Quantity \<Rightarrow> RiskChecker \<Rightarrow> (RejectReason \<times> bool) list" where
  "violations symb side ty price quantity r =
     [(KillSwitchActive, is_killed r),
      (InvalidQuantity, quantity = 0),
      (MaxOrderQuantityExceeded, quantity > max_order_quantity (limits r)),
      (InvalidPrice, ty = Limit \<and> dle price dzero),
      (MaxOrderNotionalExceeded, ty \<noteq> Market \<and> dgt (dmul price (of_uint quantity)) (max_order_notional (limits r))),
      (MaxPositionExceeded, sint (long_abs (position symb r + position_delta side quantity)) > sint (max_position_abs (limits r))),
      (MaxNotionalExposureExceeded,
         ty \<noteq> Market \<and> dgt (dadd (current_notional_exposure r) (dmul price (of_uint quantity))) (max_notional_exposure (limits r)))]"

definition first_violation :: "(RejectReason \<times> bool) list \<Rightarrow> RejectReason" where
  "first_violation vs = (case find snd vs of None \<Rightarrow> NoReason | Some v \<Rightarrow> fst v)"

lemma check_spec:
  "check symb side ty price quantity r =
     (let reason = first_violation (violations symb side ty price quantity r)
      in if reason = NoReason then (NoReason, r\<lparr>risk_stats := record_pass (risk_stats r)\<rparr>) else reject reason r)"
  by (simp add: check_def violations_def first_violation_def is_killed_def Let_def)

section \<open>Signed arithmetic\<close>

lemma sint_plus_small:
  fixes a b :: long
  assumes "- (2 ^ 63) \<le> sint a + sint b" and "sint a + sint b < 2 ^ 63"
  shows "sint (a + b) = sint a + sint b"
  using assms by (simp add: sint_word_ariths signed_take_bit_int_eq_self)

lemma sint_position_delta: "sint (position_delta side q) = (if side = Buy then uint q else - uint q)"
proof -
  have lt: "uint q < 2 ^ 32" using uint_lt2p [of q] by simp
  have "- (2 ^ 63) \<le> uint q" "- uint q < 2 ^ 63" by (rule order_trans [of _ 0], simp_all) (rule order_le_less_trans [of _ 0], simp_all)
  then have small: "signed_take_bit 63 (uint q) = uint q" "signed_take_bit 63 (- uint q) = - uint q"
    using lt signed_take_bit_int_eq_self [of 63 "uint q"] signed_take_bit_int_eq_self [of 63 "- uint q"] by simp_all
  then have "sint (ucast q :: long) = uint q"
    using lt by (simp add: sint_uint unsigned_ucast_eq take_bit_int_eq_self)
  then show ?thesis
    using small by (simp add: position_delta_def sint_word_ariths)
qed

lemma sint_long_abs:
  assumes "- (2 ^ 63) < sint x"
  shows "sint (long_abs x) = \<bar>sint x\<bar>"
proof -
  have "sint x < 2 ^ 63" using sint_lt [of x] by simp
  then show ?thesis using assms by (simp add: long_abs_def sint_word_ariths signed_take_bit_int_eq_self)
qed

section \<open>Positions\<close>

lemma position_on_fill:
  "position symb (on_fill symb' side price q r) = position symb r + (if symb = symb' then position_delta side q else 0)"
  by (simp add: position_def on_fill_def update_conv')

lemma on_fill_frame [simp]:
  "limits (on_fill s sd p q r) = limits r" "kill_switch (on_fill s sd p q r) = kill_switch r"
  "risk_stats (on_fill s sd p q r) = risk_stats r"
  by (simp_all add: on_fill_def)

lemma check_frame:
  "snd (check symb sd ty p q r) = r\<lparr>risk_stats := risk_stats (snd (check symb sd ty p q r))\<rparr>"
  by (simp add: check_spec reject_def Let_def)

lemma check_position [simp]: "position s (snd (check symb sd ty p q r)) = position s r"
  by (subst check_frame) (simp add: position_def)

end
