(* ===== verification/RiskCorrect.thy ===== *)
theory RiskCorrect
  imports RiskChecker BookCorrect
begin

text \<open>
  The theorems on the pre-trade risk layer: checks are decided in the documented order, an order that
  passes is within the limits, fills of such an order keep the position within its cap, positions are
  the net of the fills, counters add up; and where the layer does less than it says.
\<close>

section \<open>Decisions\<close>


lemma check_passes:
  assumes "fst (check symb side ty price q r) = NoReason"
  shows "\<not> kill_switch r" "q \<noteq> 0" "q \<le> max_order_quantity (limits r)" "\<not> (ty = Limit \<and> dle price dzero)"
    "ty \<noteq> Market \<Longrightarrow> \<not> dgt (dmul price (of_uint q)) (max_order_notional (limits r))"
    "ty \<noteq> Market \<Longrightarrow> \<not> dgt (dadd (current_notional_exposure r) (dmul price (of_uint q))) (max_notional_exposure (limits r))"
    "sint (long_abs (position symb r + position_delta side q)) \<le> sint (max_position_abs (limits r))"
  using assms by (auto simp: check_def reject_def Let_def split: if_splits)

abbreviation signed_qty :: "Side \<Rightarrow> Quantity \<Rightarrow> int" where
  "signed_qty side q \<equiv> (if side = Buy then uint q else - uint q)"

lemma projected_position:
  assumes "\<bar>sint (position symb r)\<bar> \<le> 2 ^ 62"
  shows "sint (position symb r + position_delta side q) = sint (position symb r) + signed_qty side q"
    "sint (long_abs (position symb r + position_delta side q)) = \<bar>sint (position symb r) + signed_qty side q\<bar>"
proof -
  define u where "u = uint q"
  have q: "0 \<le> u" "u < 2 ^ 32" using uint_lt2p [of q] by (simp_all add: u_def)
  note bounds = assms [unfolded abs_le_iff] q
  have "- (2 ^ 63) < sint (position symb r) + signed_qty side q \<and> sint (position symb r) + signed_qty side q < 2 ^ 63"
    unfolding u_def [symmetric] using bounds by auto
  then show "sint (position symb r + position_delta side q) = sint (position symb r) + signed_qty side q"
    by (subst sint_plus_small) (auto simp: sint_position_delta)
  with sint_long_abs [of "position symb r + position_delta side q"]
  show "sint (long_abs (position symb r + position_delta side q)) = \<bar>sint (position symb r) + signed_qty side q\<bar>"
    unfolding u_def [symmetric] using bounds by auto
qed

text \<open>An order that passes is within every limit: the kill switch is off, the quantity is positive and
  at most the cap, the position it would lead to if completely filled is within the position cap,
  and neither its notional nor the resulting exposure compares greater than its cap.\<close>

theorem passed_order_within_limits:
  assumes "fst (check symb side ty price q r) = NoReason" and "\<bar>sint (position symb r)\<bar> \<le> 2 ^ 62"
  shows "\<not> is_killed r \<and> 0 < q \<and> q \<le> max_order_quantity (limits r)
    \<and> \<bar>sint (position symb r) + signed_qty side q\<bar> \<le> sint (max_position_abs (limits r))
    \<and> (ty \<noteq> Market \<longrightarrow> \<not> dgt (dmul price (of_uint q)) (max_order_notional (limits r))
         \<and> \<not> dgt (dadd (current_notional_exposure r) (dmul price (of_uint q))) (max_notional_exposure (limits r)))"
  using check_passes [OF assms(1)] projected_position(2) [OF assms(2), of side q]
  by (simp add: is_killed_def word_gt_0)

definition risk0 :: RiskChecker where
  "risk0 = RiskChecker_new \<lparr>max_order_quantity = 100, max_order_notional = dinf, max_position_abs = 150, max_notional_exposure = dinf\<rparr>"

lemma not_above_inf: "\<not> dgt x dinf"
proof (cases "is_nan x \<or> x = dinf")
  case False
  then have "rank x \<le> rank dbl_max" using rank_le_dbl_max by blast
  then show ?thesis by (simp add: dgt_def dlt_def)
qed (auto simp: dgt_def dlt_def)

lemma check_risk0:
  "q \<noteq> 0 \<Longrightarrow> q \<le> 100 \<Longrightarrow> fst (check s sd ty p100 q risk0) = NoReason"
proof -
  assume q: "q \<noteq> 0" "q \<le> 100"
  have "uint q \<le> 100" using q(2) by (simp add: word_le_def)
  moreover have "sint (long_abs (position s risk0 + position_delta sd q)) = \<bar>sint (position s risk0) + signed_qty sd q\<bar>"
    by (rule projected_position) (simp add: risk0_def RiskChecker_new_def position_def)
  ultimately have "sint (long_abs (position s risk0 + position_delta sd q)) \<le> 150"
    by (simp add: risk0_def RiskChecker_new_def position_def)
  then show ?thesis
    using q by (auto simp: check_def risk0_def RiskChecker_new_def not_above_inf dle_def Let_def not_less)
qed

theorem passed_order_within_limits_witness:
  "fst (check ''AAPL'' Buy Limit p100 100 risk0) = NoReason
   \<and> \<bar>sint (position ''AAPL'' risk0) + uint (100 :: Quantity)\<bar> \<le> sint (max_position_abs (limits risk0))"
  using passed_order_within_limits [of "''AAPL''" Buy Limit p100 100 risk0] check_risk0 [of 100 "''AAPL''" Buy Limit]
  by (simp add: risk0_def RiskChecker_new_def position_def)

section \<open>Positions\<close>

text \<open>The position of a symbol is the net of the fills reported for it.\<close>

theorem position_is_net_of_fills:
  "position symb (fold (\<lambda>(s, sd, p, q). on_fill s sd p q) fills r) =
     position symb r + (\<Sum>(s, sd, p, q) \<leftarrow> filter (\<lambda>(s, sd, p, q). s = symb) fills. position_delta sd q)"
  by (induction fills arbitrary: r) (auto simp: position_on_fill algebra_simps)

lemma fills_bounded:
  assumes "\<bar>sint (position symb r)\<bar> \<le> m" and "\<bar>sint (position symb r) + (if buy then int n else - int n)\<bar> \<le> m" and "m \<le> 2 ^ 62"
    and "(\<Sum>(p, f) \<leftarrow> fills. unat f) \<le> n" and "buy = (side = Buy)"
  shows "\<bar>sint (position symb (fold (\<lambda>(p, f). on_fill symb side p f) fills r))\<bar> \<le> m"
  using assms
proof (induction fills arbitrary: r n)
  case (Cons pf fills)
  obtain p f where pf: "pf = (p, f)" by fastforce
  define k where "k = unat f"
  let ?r = "on_fill symb side p f r" and ?n = "n - k"
  have f: "k \<le> n" "(\<Sum>(p, f) \<leftarrow> fills. unat f) \<le> ?n" using Cons.prems(4) pf by (auto simp: k_def)
  have pos: "sint (position symb ?r) = sint (position symb r) + (if buy then int k else - int k)"
    using projected_position(1) [of symb r side f] Cons.prems by (simp add: position_on_fill k_def)
  have "\<bar>sint (position symb (fold (\<lambda>(p, f). on_fill symb side p f) fills ?r))\<bar> \<le> m"
  proof (rule Cons.IH [where n = ?n])
    show "\<bar>sint (position symb ?r)\<bar> \<le> m" "\<bar>sint (position symb ?r) + (if buy then int ?n else - int ?n)\<bar> \<le> m"
      using Cons.prems(1,2) f(1) unfolding pos by (auto simp: abs_le_iff of_nat_diff split: if_splits)
  qed (use Cons.prems f in auto)
  then show ?case by (simp add: pf)
qed simp

text \<open>C31. If an order passes while the position is within its cap, the position stays within the cap
  however the order is filled: by any sequence of fills of the order's side whose quantities add up
  to at most its quantity.\<close>

theorem fills_within_position_cap:
  assumes "fst (check symb side ty price q r) = NoReason" and "\<bar>sint (position symb r)\<bar> \<le> sint (max_position_abs (limits r))"
    and "sint (max_position_abs (limits r)) \<le> 2 ^ 62" and "(\<Sum>(p, f) \<leftarrow> fills. unat f) \<le> unat q"
  shows "\<bar>sint (position symb (fold (\<lambda>(p, f). on_fill symb side p f) fills (snd (check symb side ty price q r))))\<bar>
    \<le> sint (max_position_abs (limits r))"
proof (rule fills_bounded [where n = "unat q" and buy = "side = Buy"])
  show "\<bar>sint (position symb (snd (check symb side ty price q r)))
      + (if side = Buy then int (unat q) else - int (unat q))\<bar> \<le> sint (max_position_abs (limits r))"
    using check_passes(7) [OF assms(1)] projected_position(2) [of symb r side q] order_trans [OF assms(2,3)]
    by (auto split: if_splits)
qed (use assms in simp_all)

theorem fills_within_position_cap_witness:
  "\<bar>sint (position ''AAPL'' (fold (\<lambda>(p, f). on_fill ''AAPL'' Buy p f) [(p100, 60), (p100, 40)]
      (snd (check ''AAPL'' Buy Limit p100 100 risk0))))\<bar> \<le> 150"
  using fills_within_position_cap [OF check_risk0 [of 100 "''AAPL''" Buy Limit], of "[(p100, 60), (p100, 40)]"]
  by (simp add: risk0_def RiskChecker_new_def position_def)

section \<open>Counters and kill switch\<close>

definition risk_stats_ok :: "RiskStats \<Rightarrow> bool" where
  "risk_stats_ok st \<longleftrightarrow> length (by_reason st) = 8 \<and> by_reason st ! 0 = 0
     \<and> total_checks st = total_passes st + total_rejections st \<and> total_rejections st = sum_list (by_reason st)"

lemma sum_list_incr:
  "i < length (xs :: 'a::ab_group_add list) \<Longrightarrow> sum_list (xs[i := xs ! i + x]) = sum_list xs + x"
  by (induction xs arbitrary: i) (auto split: nat.splits simp: algebra_simps)

lemma risk_stats_ok_check:
  assumes "risk_stats_ok (risk_stats r)"
  shows "risk_stats_ok (risk_stats (snd (check s sd ty p q r)))"
    "total_checks (risk_stats (snd (check s sd ty p q r))) = total_checks (risk_stats r) + 1"
proof -
  let ?v = "first_violation (violations s sd ty p q r)"
  have "0 < reason_index ?v" if "?v \<noteq> NoReason" using that reason_index_eq [of ?v NoReason] by simp
  with assms show "risk_stats_ok (risk_stats (snd (check s sd ty p q r)))"
    by (auto simp: check_spec reject_def Let_def risk_stats_ok_def record_pass_def record_reject_def sum_list_incr)
  show "total_checks (risk_stats (snd (check s sd ty p q r))) = total_checks (risk_stats r) + 1"
    by (simp add: check_spec reject_def Let_def record_pass_def record_reject_def)
qed

text \<open>The counters add up after any sequence of checks on a fresh checker: every check is counted,
  as a pass or as a rejection, and the rejections are split by reason.\<close>

theorem risk_counters_add_up:
  "let r = fold (\<lambda>(s, sd, ty, p, q) r. snd (check s sd ty p q r)) orders (RiskChecker_new lim);
       st = risk_stats r
   in total_checks st = of_nat (length orders) \<and> total_checks st = total_passes st + total_rejections st
      \<and> total_rejections st = sum_list (by_reason st) \<and> length (by_reason st) = 8"
proof -
  have fold: "risk_stats_ok (risk_stats (fold (\<lambda>(s, sd, ty, p, q) r. snd (check s sd ty p q r)) orders r))
    \<and> total_checks (risk_stats (fold (\<lambda>(s, sd, ty, p, q) r. snd (check s sd ty p q r)) orders r)) =
        total_checks (risk_stats r) + of_nat (length orders)"
    if "risk_stats_ok (risk_stats r)" for r
    using that by (induction orders arbitrary: r) (auto simp: risk_stats_ok_check)
  have "risk_stats_ok (risk_stats (RiskChecker_new lim))" "total_checks (risk_stats (RiskChecker_new lim)) = 0"
    by (simp_all add: RiskChecker_new_def RiskStats_init_def risk_stats_ok_def sum_list_replicate)
  from fold [OF this(1), unfolded this(2) add_0] show ?thesis unfolding risk_stats_ok_def Let_def by blast
qed

text \<open>The calls a checker can receive.\<close>

datatype risk_call = Check string Side OrderType Price Quantity | On_fill string Side Price Quantity | Engage | Disengage
  | Reset_stats | Set_limits RiskLimits

fun risk_apply :: "risk_call \<Rightarrow> RiskChecker \<Rightarrow> RiskChecker" where
  "risk_apply (Check symb sd ty p q) r = snd (check symb sd ty p q r)"
| "risk_apply (On_fill symb sd p q) r = on_fill symb sd p q r"
| "risk_apply Engage r = engage_kill_switch r"
| "risk_apply Disengage r = disengage_kill_switch r"
| "risk_apply Reset_stats r = risk_reset_stats r"
| "risk_apply (Set_limits lim) r = set_limits lim r"

text \<open>The verdicts given since the last reset of the statistics.\<close>

fun verdicts :: "RejectReason list \<Rightarrow> risk_call list \<Rightarrow> RiskChecker \<Rightarrow> RejectReason list" where
  "verdicts vs [] r = vs"
| "verdicts vs (call # calls) r = verdicts
     (case call of Check symb sd ty p q \<Rightarrow> vs @ [fst (check symb sd ty p q r)] | Reset_stats \<Rightarrow> [] | _ \<Rightarrow> vs)
     calls (risk_apply call r)"

definition counts :: "RiskStats \<Rightarrow> RejectReason list \<Rightarrow> bool" where
  "counts st vs \<longleftrightarrow> length (by_reason st) = 8 \<and> total_checks st = of_nat (length vs)
     \<and> total_passes st = of_nat (count_list vs NoReason)
     \<and> total_checks st = total_passes st + total_rejections st
     \<and> (\<forall>reason. by_reason st ! reason_index reason = (if reason = NoReason then 0 else of_nat (count_list vs reason)))"

lemma counts_init [simp]: "counts RiskStats_init []"
  by (simp add: counts_def RiskStats_init_def)

lemma counts_check:
  assumes "counts (risk_stats r) vs"
  shows "counts (risk_stats (snd (check s sd ty p q r))) (vs @ [fst (check s sd ty p q r)])"
  using assms by (auto simp: check_spec reject_def Let_def counts_def record_pass_def record_reject_def nth_list_update
      simp del: reason_index.simps)

lemma counts_apply:
  "counts (risk_stats r) vs \<Longrightarrow> counts (risk_stats (fold risk_apply calls r)) (verdicts vs calls r)"
proof (induction vs calls r rule: verdicts.induct)
  case (2 vs call calls r)
  have "counts (risk_stats (risk_apply call r))
      (case call of Check symb sd ty p q \<Rightarrow> vs @ [fst (check symb sd ty p q r)] | Reset_stats \<Rightarrow> [] | _ \<Rightarrow> vs)"
    using "2.prems" counts_check
    by (cases call) (simp_all add: engage_kill_switch_def disengage_kill_switch_def risk_reset_stats_def set_limits_def)
  from "2.IH" [OF this] show ?case by simp
qed simp

text \<open>C37. The statistics are well formed after every sequence of calls on a checker and say what happened since they were
  last reset: the array of rejections by reason keeps its eight entries, every reason indexes inside it, the entry of
  a reason counts the orders rejected for it, and the totals count the checks, the passes and the rejections.\<close>

theorem risk_stats_well_formed:
  "let r = RiskChecker_new lim; st = risk_stats (fold risk_apply calls r); vs = verdicts [] calls r
   in length (by_reason st) = 8 \<and> reason_index reason < length (by_reason st)
     \<and> by_reason st ! reason_index reason = (if reason = NoReason then 0 else of_nat (count_list vs reason))
     \<and> total_checks st = of_nat (length vs) \<and> total_passes st = of_nat (count_list vs NoReason)
     \<and> total_rejections st = of_nat (length vs - count_list vs NoReason)"
proof -
  let ?r = "RiskChecker_new lim"
  have "counts (risk_stats ?r) []" by (simp add: RiskChecker_new_def)
  from counts_apply [OF this, of calls] show ?thesis
    by (auto simp: counts_def Let_def of_nat_diff count_le_length eq_diff_eq add.commute)
qed

text \<open>While the kill switch is engaged every order is rejected for that reason, whatever else is wrong
  with it; disengaging it restores the checker.\<close>

theorem kill_switch_halts:
  "fst (check symb side ty price q (engage_kill_switch r)) = KillSwitchActive
   \<and> (\<not> is_killed r \<longrightarrow> disengage_kill_switch (engage_kill_switch r) = r)"
  by (simp add: check_def reject_def engage_kill_switch_def disengage_kill_switch_def is_killed_def)

theorem kill_switch_halts_witness:
  "fst (check ''AAPL'' Buy Limit p100 100 (engage_kill_switch risk0)) = KillSwitchActive
   \<and> disengage_kill_switch (engage_kill_switch risk0) = risk0"
  using kill_switch_halts [of "''AAPL''" Buy Limit p100 100 risk0] by (simp add: is_killed_def risk0_def RiskChecker_new_def)

section \<open>Where the layer does less than it says\<close>

text \<open>Arithmetic with a NaN gives a NaN, which compares greater than no cap.\<close>

lemma nan_arith: "is_nan x \<Longrightarrow> is_nan (dmul x y)" "is_nan y \<Longrightarrow> is_nan (dadd x y)"
  by (simp_all add: dmul_def dadd_def)

text \<open>A price that is a NaN passes the price, notional and exposure checks: an order with such a price
  passes exactly if the order with the same quantity and type \<open>Market\<close> does.\<close>

theorem nan_price_passes:
  assumes "is_nan price"
  shows "fst (check symb side ty price q r) = fst (check symb side Market price q r)"
  using nan_arith [OF assms] nan_arith(2) nan_arith(1) [OF assms]
  by (simp add: check_def reject_def Let_def dle_def dgt_def dlt_def assms)

theorem nan_price_passes_witness: "fst (check ''AAPL'' Buy Limit dnan 100 risk0) = NoReason"
proof -
  have "fst (check ''AAPL'' Buy Market dnan 100 risk0) = fst (check ''AAPL'' Buy Market p100 100 risk0)"
    by (simp add: check_def reject_def Let_def)
  then show ?thesis using nan_price_passes [of dnan "''AAPL''" Buy Limit 100 risk0] check_risk0 [of 100 "''AAPL''" Buy Market] by simp
qed

section \<open>The callback of the server\<close>

text \<open>The lambda \<^verbatim>\<open>src/main.cpp\<close> registers as trade callback.\<close>

definition main_trade_callback :: "Trade \<Rightarrow> RiskChecker \<Rightarrow> RiskChecker" where
  "main_trade_callback trade r =
     on_fill ''AAPL'' Sell (t_price trade) (t_quantity trade) (on_fill ''AAPL'' Buy (t_price trade) (t_quantity trade) r)"

lemma main_callback_frame:
  "position symb (fold main_trade_callback trades r) = position symb r"
  "limits (fold main_trade_callback trades r) = limits r" "kill_switch (fold main_trade_callback trades r) = kill_switch r"
proof (induction trades arbitrary: r)
  case (Cons t ts)
  { case 1 then show ?case using Cons by (simp add: main_trade_callback_def position_on_fill position_delta_def) }
  { case 2 then show ?case using Cons by (simp add: main_trade_callback_def on_fill_def) }
  { case 3 then show ?case using Cons by (simp add: main_trade_callback_def on_fill_def) }
qed simp_all

text \<open>The callback books both legs of every trade on one symbol, so that no position ever changes: on
  the server the position check compares each order's own quantity with the cap.\<close>

theorem server_positions_stay_zero:
  "position symb (fold main_trade_callback trades (RiskChecker_new lim)) = 0"
  by (simp add: main_callback_frame) (simp add: RiskChecker_new_def position_def)

end
