(* ===== verification/TcpServer.thy ===== *)
theory TcpServer
  imports MessageLoop Protocol RiskCorrect
begin

text \<open>
  \<^verbatim>\<open>src/network/TcpServer.cpp\<close>: what one connection's thread does with the bytes of its client. The
  socket is the list of bytes the client sends until it closes the connection: a \<^verbatim>\<open>recv\<close> with
  \<^verbatim>\<open>MSG_WAITALL\<close> returns the bytes asked for, or the fewer that are left at the end of the stream, or
  nothing. A \<^verbatim>\<open>recv\<close> that fails ends the loop like the end of the stream.

  The state is the engine and the risk checker, which is the state the trade callback of
  \<^verbatim>\<open>main.cpp\<close> works on. \<open>gate\<close> says whether a risk checker was supplied. \<open>running k\<close> is what the flag
  \<^verbatim>\<open>running_\<close> reads at the start of turn \<open>k\<close>, and \<open>now k\<close> the clock of the submission in turn \<open>k\<close>. \<open>junk\<close>
  stands for the bytes of a message struct that a short read leaves uninitialised.

  Sockets, \<^verbatim>\<open>accept\<close> and thread creation in \<^verbatim>\<open>start\<close> and \<^verbatim>\<open>stop\<close> are operating system calls and not
  modelled.
\<close>

section \<open>One message\<close>

type_synonym server_state = "RiskChecker MatchingEngine \<times> RiskChecker"

definition handle_new_order :: "bool \<Rightarrow> clock \<Rightarrow> OrderMessage \<Rightarrow> server_state \<Rightarrow> (ExecutionReport \<times> server_state) option" where
  "handle_new_order gate now msg = (\<lambda>(e, r).
     (let symb = get_symbol (om_symbol msg);
          (reason, r1) = gate_check gate symb (om_side msg) (om_order_type msg) (om_price msg) (om_quantity msg) r
      in if reason \<noteq> NoReason
         then Some (\<lparr>er_order_id = 0, er_status = Rejected, er_price = om_price msg, er_quantity = om_quantity msg,
                     er_remaining_qty = om_quantity msg\<rparr>, (e, r1))
         else (case submit_order now symb (om_side msg) (om_order_type msg) (om_price msg) (om_quantity msg) (e, r1) of
                 None \<Rightarrow> None
               | Some (i, e', r') \<Rightarrow>
                   Some (\<lparr>er_order_id = i, er_status = (if 0 < i then Accepted else Rejected), er_price = om_price msg,
                          er_quantity = om_quantity msg, er_remaining_qty = om_quantity msg\<rparr>, (e', r')))))"

definition handle_cancel :: "CancelMessage \<Rightarrow> server_state \<Rightarrow> ExecutionReport \<times> server_state" where
  "handle_cancel msg = (\<lambda>(e, r).
     (let (cancelled, e') = engine_cancel_order (get_symbol (cm_symbol msg)) (cm_order_id msg) e
      in (\<lparr>er_order_id = cm_order_id msg, er_status = (if cancelled then Cancelled else Rejected),
           er_price = dzero, er_quantity = 0, er_remaining_qty = 0\<rparr>, (e', r))))"

section \<open>The connection\<close>

text \<open>\<open>recv n\<close> splits the stream; \<open>received n bs\<close> is the struct after the read of its bytes behind the type
  byte.\<close>

definition recv :: "nat \<Rightarrow> byte list \<Rightarrow> byte list \<times> byte list" where
  "recv n stream = (take n stream, drop n stream)"

definition received :: "(nat \<Rightarrow> byte) \<Rightarrow> byte \<Rightarrow> nat \<Rightarrow> byte list \<Rightarrow> byte list" where
  "received junk t n bs = t # bs @ map junk [length bs..<n]"

lemma take_nonempty: "x # xs = take n ys \<Longrightarrow> 0 < length ys"
  by (cases ys) simp_all

function handle_client :: "bool \<Rightarrow> (nat \<Rightarrow> bool) \<Rightarrow> (nat \<Rightarrow> clock) \<Rightarrow> (nat \<Rightarrow> byte) \<Rightarrow> nat \<Rightarrow> byte list \<Rightarrow> server_state
    \<Rightarrow> (ExecutionReport list \<times> server_state) option" where
  "handle_client gate running now junk k stream st =
     (if \<not> running k then Some ([], st)
      else (case recv 1 stream of
        ([], _) \<Rightarrow> Some ([], st)
      | (t # _, rest) \<Rightarrow>
          (if t = byte_of_MessageType NewOrder
           then (case recv 22 rest of
               ([], _) \<Rightarrow> Some ([], st)
             | (b # bs, rest') \<Rightarrow>
                 (case handle_new_order gate (now k) (decode_order (received junk t 22 (b # bs))) st of
                    None \<Rightarrow> None
                  | Some (report, st1) \<Rightarrow>
                      (case handle_client gate running now junk (Suc k) rest' st1 of
                         None \<Rightarrow> None | Some (reports, st2) \<Rightarrow> Some (report # reports, st2))))
           else if t = byte_of_MessageType CancelOrder
           then (case recv 16 rest of
               ([], _) \<Rightarrow> Some ([], st)
             | (b # bs, rest') \<Rightarrow>
                 (let (report, st1) = handle_cancel (decode_cancel (received junk t 16 (b # bs))) st
                  in case handle_client gate running now junk (Suc k) rest' st1 of
                       None \<Rightarrow> None | Some (reports, st2) \<Rightarrow> Some (report # reports, st2)))
           else handle_client gate running now junk (Suc k) rest st)))"
  by pat_completeness auto

termination
  by (relation "measure (\<lambda>(gate, running, now, junk, k, stream, st). length stream)")
    (auto simp: recv_def dest: take_nonempty)

declare handle_client.simps [simp del]

end
