(* ===== verification/EngineEdges.thy ===== *)
theory EngineEdges
  imports EngineRuns
begin

text \<open>
  The engine at the edges of its input: prices that are not numbers, infinite prices, type bytes
  that name no order type, ids across symbols. The theorems on the engine assume that prices are
  numbers; these show what the code does where the comments promise more.
\<close>

section \<open>The first bid of a book\<close>

text \<open>Whatever its price, an order that rests alone on its side and meets an empty opposite side.\<close>

lemma submit_first_bid:
  assumes acc: "accepted ty price q" and rest: "may_rest ty"
  obtains e' where "submit_order now symb Buy ty price q (engine0, []) = Some (1, e', [])"
    "queue True (book_of e' symb) = [Order_new (now 1) 1 Buy ty price q]" "queue False (book_of e' symb) = []"
proof -
  define n where "n = default_pool_size - 1"
  have n: "default_pool_size = Suc n" by (simp add: n_def default_pool_size_def)
  let ?b = "OrderBook_new symb default_pool_size" and ?ord = "Order_new (now 1) 1 Buy ty price q"
  obtain pool where pool: "acquire Order_zero (order_pool ?b) = (n, pool)" "length (storage pool) = Suc n"
    by (simp add: OrderBook_new_def pool_new_eq n acquire_def)
  define b1 where "b1 = snd (add_order (now 1) Buy ty price q ?b)"
  have add: "add_order (now 1) Buy ty price q ?b = (n, b1)" using add_order_eq [OF pool(1)] by (simp add: b1_def)
  have b1: "bids b1 = [(price, [n])]" "asks b1 = []" "order_at b1 n = ?ord"
    using add_order_eq [OF pool(1), of "now 1" Buy ty price q] pool(2)
    by (simp_all add: b1_def OrderBook_new_def Let_def order_at_def deref_def store_def)
  have "match_loop (\<lambda>i. now (2 + i)) True n b1 [] = Some ([], b1)"
    by (rule match_loop_stop) (simp add: match_step_def best_ask_level_def b1)
  then have m: "match_order (\<lambda>i. now (2 + i)) b1 n = Some ([], b1)"
    using acc by (simp add: match_order_def b1 is_filled_def filled_qty_def accepted_def)
  have "post_match ty n b1 = b1" using acc rest by (simp add: post_match_def b1 is_filled_def accepted_def may_rest_def)
  moreover have "effective_price Buy ty price = price" using rest by (simp add: may_rest_def)
  ultimately obtain e' where e': "submit_order now symb Buy ty price q (engine0, []) = Some (1, e', [])" "map_of (books e') symb = Some b1"
    using acc add m b1(3) by (auto simp: submit_order_def accepted_def get_order_book_def Let_def update_conv')
  then have "book_of e' symb = b1" by (simp add: book_of_eq)
  then have "queue True (book_of e' symb) = [?ord]" "queue False (book_of e' symb) = []"
    by (simp_all add: queue_def ptrs_def levels_def b1)
  with e'(1) that show thesis by blast
qed

text \<open>C17. A limit order whose price is a NaN passes the validation, because \<^verbatim>\<open>price <= 0.0\<close> is
  false for it: it is given an id and rests, and the book it rests on no longer satisfies the invariant.\<close>

theorem nan_limit_order_rests:
  assumes "q \<noteq> 0"
  shows "\<exists>e'. submit_order now symb Buy Limit dnan q (engine0, []) = Some (1, e', [])
    \<and> queue True (book_of e' symb) = [Order_new (now 1) 1 Buy Limit dnan q] \<and> \<not> book_ok (book_of e' symb)"
proof -
  have "accepted Limit dnan q" using assms consts_not_nan by (simp add: accepted_def dle_def)
  then obtain e' where e': "submit_order now symb Buy Limit dnan q (engine0, []) = Some (1, e', [])"
    "queue True (book_of e' symb) = [Order_new (now 1) 1 Buy Limit dnan q]"
    by (rule submit_first_bid) (auto simp: may_rest_def)
  moreover have "\<not> book_ok (book_of e' symb)"
  proof
    assume "book_ok (book_of e' symb)"
    from queue_not_nan [OF this, of "Order_new (now 1) 1 Buy Limit dnan q" True] e'(2) show False
      by (simp add: is_nan_def dnan_def inf_mag_def)
  qed
  ultimately show ?thesis by blast
qed

theorem nan_limit_order_rests_witness:
  "\<exists>e'. submit_order (\<lambda>_. 0) ''AAPL'' Buy Limit dnan 1 (engine0, []) = Some (1, e', []) \<and> \<not> book_ok (book_of e' ''AAPL'')"
  using nan_limit_order_rests [of 1 "\<lambda>_. 0" "''AAPL''"] by auto

text \<open>Only the enumerator \<open>Limit\<close> has its price validated and only \<open>Market\<close> and \<open>IOC\<close> are kept from
  resting. An order whose type byte names no enumerator is accepted at any price, zero included, and
  rests.\<close>

theorem unknown_type_rests:
  assumes "q \<noteq> 0"
  shows "\<exists>e'. submit_order now symb Buy (OtherType byte) price q (engine0, []) = Some (1, e', [])
    \<and> queue True (book_of e' symb) = [Order_new (now 1) 1 Buy (OtherType byte) price q]"
  using assms submit_first_bid [of "OtherType byte" price q now symb] by (auto simp: accepted_def may_rest_def)

theorem unknown_type_rests_witness:
  "\<exists>e'. submit_order (\<lambda>_. 0) ''AAPL'' Buy (OtherType 7) dzero 1 (engine0, []) = Some (1, e', [])
    \<and> queue True (book_of e' ''AAPL'') = [Order_new 0 1 Buy (OtherType 7) dzero 1]"
  using unknown_type_rests [of 1 "\<lambda>_. 0" "''AAPL''" 7 dzero] by simp

section \<open>Market orders\<close>

text \<open>The effective price of a market sell crosses every resting price that is not negative; that of
  a market buy is the largest finite double and crosses every price but \<open>+inf\<close>.\<close>

theorem market_orders_cross:
  "(crosses True (effective_price Buy Market price) r \<longleftrightarrow> \<not> is_nan (o_price r) \<and> o_price r \<noteq> dinf)
   \<and> (crosses False (effective_price Sell Market price) r \<longleftrightarrow> dge (o_price r) dzero)"
proof -
  have "rank (o_price r) \<le> rank dbl_max \<longleftrightarrow> o_price r \<noteq> dinf" if "\<not> is_nan (o_price r)"
    using rank_le_dbl_max [OF that] by auto
  then show ?thesis by (auto simp: crosses_def effective_price_def dge_def dle_def consts_not_nan)
qed

section \<open>Order ids\<close>

text \<open>Ids are unique within a book only: the first accepted order of every symbol gets id 1, so
  two orders on one engine can have the same id.\<close>

theorem first_id_of_every_symbol:
  assumes "engine_ok e" and "map_of (books e) symb = None" and "accepted ty price q" and "ty = Market \<or> \<not> is_nan price"
  shows "\<exists>e' s'. submit_order now symb sd ty price q (e, s) = Some (1, e', s')"
proof -
  have "book_of e symb = OrderBook_new symb default_pool_size" using assms(2) by (simp add: book_of_eq)
  moreover from this have "submittable e symb ty price" using assms by (simp add: submittable_def)
  moreover obtain fs a' where "a_submit (incoming_order now e symb sd ty price q) (abs_book (book_of e symb)) = (fs, a')" by fastforce
  ultimately show ?thesis using submit_accepted [OF assms(3), of e symb now sd fs a', OF _ _ refl, of s] by auto
qed

theorem first_id_of_every_symbol_witness:
  "\<exists>e' s'. submit_order (\<lambda>_. 0) ''MSFT'' Sell Limit p100 3 (engine1, []) = Some (1, e', s')
    \<and> submit_order (\<lambda>_. 0) ''AAPL'' Sell Limit p100 10 (engine0, []) = Some (1, engine1, [])"
proof -
  have "map_of (books engine1) ''MSFT'' = None" using submit_frame(1) [OF submit_engine1(1), of "''MSFT''"] by simp
  then show ?thesis using first_id_of_every_symbol [of engine1 "''MSFT''" Limit p100 3] submit_engine1(1) by simp
qed

end
