(* ===== verification/ServerCorrect.thy ===== *)
theory ServerCorrect
  imports TcpServer EngineEdges
begin

text \<open>
  The theorems on a connection: a client that sends complete messages gets one report for each, in
  order, and the engine's invariant survives; an order the risk check refuses never reaches the
  engine; what a report says and does not say; what an incomplete message does.
\<close>

section \<open>Messages and their handling\<close>

datatype message = MsgOrder OrderMessage | MsgCancel CancelMessage

fun encode_message :: "message \<Rightarrow> byte list" where
  "encode_message (MsgOrder m) = encode_order m"
| "encode_message (MsgCancel m) = encode_cancel m"

fun well_formed :: "message \<Rightarrow> bool" where
  "well_formed (MsgOrder m) \<longleftrightarrow> canonical m"
| "well_formed (MsgCancel m) \<longleftrightarrow> length (cm_symbol m) = 8"

fun legal_message :: "message \<Rightarrow> bool" where
  "legal_message (MsgOrder m) \<longleftrightarrow> om_order_type m = Market \<or> \<not> is_nan (om_price m)"
| "legal_message (MsgCancel m) \<longleftrightarrow> True"

fun handle_message :: "bool \<Rightarrow> clock \<times> message \<Rightarrow> server_state \<Rightarrow> (ExecutionReport \<times> server_state) option" where
  "handle_message gate (now, MsgOrder m) st = handle_new_order gate now m st"
| "handle_message gate (now, MsgCancel m) st = Some (handle_cancel m st)"

lemma recv_one: "recv (Suc 0) (t # rest) = ([t], rest)"
  by (simp add: recv_def)

lemma handle_client_message:
  assumes "well_formed m"
  shows "handle_client gate (\<lambda>_. True) now junk k (encode_message m @ rest) st =
    (case handle_message gate (now k, m) st of
       None \<Rightarrow> None
     | Some (report, st1) \<Rightarrow> (case handle_client gate (\<lambda>_. True) now junk (Suc k) rest st1 of
         None \<Rightarrow> None | Some (reports, st2) \<Rightarrow> Some (report # reports, st2)))"
proof (cases m)
  case (MsgOrder om)
  define bs where "bs = tl (encode_order om)"
  have bs: "encode_order om = 1 # bs" by (simp add: bs_def encode_order_def)
  have om: "length bs = 22" "decode_order (1 # bs) = om"
    using assms MsgOrder length_encode_order [of om] decode_encode_order [of om] by (simp_all add: canonical_def bs)
  have "recv 22 (bs @ rest) = (bs, rest)" using om(1) by (simp add: recv_def)
  then show ?thesis
    using om by (subst handle_client.simps) (cases bs; simp add: MsgOrder bs recv_one received_def)
next
  case (MsgCancel cm)
  define bs where "bs = tl (encode_cancel cm)"
  have bs: "encode_cancel cm = 2 # bs" by (simp add: bs_def encode_cancel_def)
  have cm: "length bs = 16" "decode_cancel (2 # bs) = cm"
    using assms MsgCancel decode_encode_cancel [of cm] by (simp_all add: bs_def encode_cancel_def)
  have "recv 16 (bs @ rest) = (bs, rest)" using cm(1) by (simp add: recv_def)
  then show ?thesis
    using cm by (subst handle_client.simps) (cases bs; simp add: MsgCancel bs recv_one received_def case_prod_unfold Let_def cong: option.case_cong)
qed

text \<open>The bytes of complete messages are handled message by message.\<close>

lemma handle_client_messages:
  assumes "\<forall>m \<in> set ms. well_formed m"
  shows "handle_client gate (\<lambda>_. True) now junk k (concat (map encode_message ms)) st =
    run_all (handle_message gate) (zip (map now [k..<k + length ms]) ms) st"
  using assms
proof (induction ms arbitrary: k st)
  case Nil
  show ?case by (subst handle_client.simps) (simp add: recv_def)
next
  case (Cons m ms)
  have "[k..<k + length (m # ms)] = k # [Suc k..<Suc k + length ms]"
    using upt_conv_Cons [of k "k + Suc (length ms)"] by simp
  then show ?case using Cons by (simp add: handle_client_message del: upt_Suc cong: option.case_cong)
qed

lemma handle_new_order_eq:
  assumes "gate_check gate (get_symbol (om_symbol m)) (om_side m) (om_order_type m) (om_price m) (om_quantity m) r = (reason, r1)"
  shows "handle_new_order gate now m (e, r) =
    (if reason \<noteq> NoReason
     then Some (\<lparr>er_order_id = 0, er_status = Rejected, er_price = om_price m, er_quantity = om_quantity m,
                 er_remaining_qty = om_quantity m\<rparr>, e, r1)
     else (case submit_order now (get_symbol (om_symbol m)) (om_side m) (om_order_type m) (om_price m) (om_quantity m) (e, r1) of
             None \<Rightarrow> None
           | Some (i, e', r') \<Rightarrow>
               Some (\<lparr>er_order_id = i, er_status = (if 0 < i then Accepted else Rejected), er_price = om_price m,
                      er_quantity = om_quantity m, er_remaining_qty = om_quantity m\<rparr>, e', r')))"
  using assms unfolding handle_new_order_def Let_def by simp

interpretation server: message_handler "\<lambda>k st. engine_inv k (fst st)" "\<lambda>cm. legal_message (snd cm)" "handle_message gate" "2 ^ 64" for gate
proof
  fix k and st :: server_state and cm :: "clock \<times> message"
  assume inv: "engine_inv k (fst st)" and legal: "legal_message (snd cm)" and k: "k + 1 < 2 ^ 64"
  obtain e r where st: "st = (e, r)" by fastforce
  obtain now m where cm: "cm = (now, m)" by fastforce
  show "\<exists>report st'. handle_message gate cm st = Some (report, st') \<and> engine_inv (k + 1) (fst st')"
  proof (cases m)
    case (MsgOrder om)
    let ?symb = "get_symbol (om_symbol om)"
    obtain reason r1 where v: "gate_check gate ?symb (om_side om) (om_order_type om) (om_price om) (om_quantity om) r = (reason, r1)" by fastforce
    obtain i e' r' where sub: "submit_order now ?symb (om_side om) (om_order_type om) (om_price om) (om_quantity om) (e, r1) = Some (i, e', r')"
      "engine_inv (k + 1) e'"
      using submit_engine_inv [of k e "om_order_type om" "om_price om"] inv legal k cm MsgOrder st
      by (metis fst_conv snd_conv legal_message.simps(1))
    show ?thesis
      using inv sub by (cases "reason = NoReason")
        (auto simp: cm MsgOrder st handle_new_order_eq [OF v] intro: engine_inv_mono)
  next
    case (MsgCancel c)
    then show ?thesis
      using cancel_engine_inv [of k e] inv by (auto simp: cm st handle_cancel_def case_prod_unfold Let_def intro: engine_inv_mono [of k _ "Suc k"])
  qed
qed

section \<open>Theorems\<close>

text \<open>C32. Whatever complete messages a client sends, as long as prices are numbers and the ids do not run
  out, the connection handles each of them and sends exactly one report per message, and every
  book of the engine satisfies its invariant at the end.\<close>

theorem connection_answers_every_message:
  assumes "\<forall>m \<in> set ms. well_formed m \<and> legal_message m" and "engine_inv k e" and "k + length ms < 2 ^ 64"
  shows "\<exists>reports e' r'. handle_client gate (\<lambda>_. True) now junk 0 (concat (map encode_message ms)) (e, r) = Some (reports, e', r')
    \<and> length reports = length ms \<and> engine_ok e'"
proof -
  have "\<forall>cm \<in> set (zip (map now [0..<length ms]) ms). legal_message (snd cm)"
    using assms(1) by (auto dest: set_zip_rightD)
  from server.run_all_handles [of k "(e, r)", OF _ this, of gate] assms(2,3) obtain reports st' where
    "run_all (handle_message gate) (zip (map now [0..<length ms]) ms) (e, r) = Some (reports, st')"
    "length reports = length ms" "engine_ok (fst st')" by (auto simp: engine_inv_def)
  then show ?thesis using handle_client_messages [of ms gate now junk 0 "(e, r)"] assms(1)
    by (intro exI [of _ reports] exI [of _ "fst st'"] exI [of _ "snd st'"]) simp
qed

definition buy_aapl :: OrderMessage where
  "buy_aapl = \<lparr>om_symbol = set_symbol ''AAPL'', om_side = Buy, om_order_type = Limit, om_price = p100, om_quantity = 100\<rparr>"

lemma buy_aapl_canonical: "canonical buy_aapl" "\<not> is_nan (om_price buy_aapl)"
  by (simp_all add: buy_aapl_def canonical_def set_symbol_def byte_of_Side_def Side_of_byte_def byte_of_OrderType_def OrderType_of_byte_def)

theorem connection_answers_every_message_witness:
  "\<exists>reports e' r'. handle_client True (\<lambda>_. True) (\<lambda>_ _. 0) (\<lambda>_. 0) 0 (encode_order buy_aapl @ encode_order buy_aapl)
      (MatchingEngine_new, risk0) = Some (reports, e', r') \<and> length reports = Suc 1 \<and> engine_ok e'"
  using connection_answers_every_message [of "[MsgOrder buy_aapl, MsgOrder buy_aapl]" 1 MatchingEngine_new True "\<lambda>_ _. 0" "\<lambda>_. 0" risk0]
  by (simp add: buy_aapl_canonical engine_inv_new [simplified])



text \<open>A report on an accepted order tells nothing of what happened to it: it says accepted with the whole
  quantity remaining, whatever traded, and it is the only report of the order.\<close>

theorem report_ignores_fills:
  assumes "handle_new_order gate now m (e, r) = Some (report, st')" and "er_order_id report \<noteq> 0"
  shows "er_status report = Accepted \<and> er_remaining_qty report = om_quantity m \<and> er_price report = om_price m"
  using assms by (auto simp: handle_new_order_def Let_def word_gt_0 split: prod.splits if_splits option.splits)

text \<open>An ask of 100 rests; the buy of 100 takes all of it, and its report says that 100 remain.\<close>

theorem report_ignores_fills_witness:
  "\<exists>e1 r1 report e2 r2.
     submit_order (\<lambda>_. 0) ''AAPL'' Sell Limit p100 100 (MatchingEngine_new, risk0) = Some (1, e1, r1)
   \<and> a_asks (abs_book (book_of e1 ''AAPL'')) \<noteq> []
   \<and> handle_new_order False (\<lambda>_. 0) buy_aapl (e1, r1) = Some (report, e2, r2)
   \<and> abs_book (book_of e2 ''AAPL'') = \<lparr>a_bids = [], a_asks = [], a_next = 3\<rparr>
   \<and> er_status report = Accepted \<and> er_remaining_qty report = 100"
proof -
  let ?ask = "Order_new 0 1 Sell Limit p100 100"
  have new: "submittable MatchingEngine_new ''AAPL'' Limit p100" "book_of MatchingEngine_new ''AAPL'' = OrderBook_new ''AAPL'' default_pool_size"
    using MatchingEngine_new_ok by (simp_all add: submittable_def book_of_eq) (simp_all add: MatchingEngine_new_def)
  have "a_submit (incoming_order (\<lambda>_. 0) MatchingEngine_new ''AAPL'' Sell Limit p100 100) (abs_book (book_of MatchingEngine_new ''AAPL'')) =
    ([], \<lparr>a_bids = [], a_asks = [?ask], a_next = 2\<rparr>)"
    by (simp add: new(2) a_submit_def incoming_order_def enqueue_def insert_after_def remainder_def may_rest_def Order_new_def)
  from submit_accepted [OF _ new(1) this refl, of risk0] obtain e1 r1 where
    e1: "submit_order (\<lambda>_. 0) ''AAPL'' Sell Limit p100 100 (MatchingEngine_new, risk0) = Some (1, e1, r1)" "engine_ok e1"
    "abs_book (book_of e1 ''AAPL'') = \<lparr>a_bids = [], a_asks = [?ask], a_next = 2\<rparr>"
    by (auto simp: new(2))
  have sub: "submittable e1 ''AAPL'' Limit p100" "next_order_id (book_of e1 ''AAPL'') = 2"
    using e1(2,3) by (simp_all add: submittable_def abs_book_def)
  have "a_submit (incoming_order (\<lambda>_. 0) e1 ''AAPL'' Buy Limit p100 100) (abs_book (book_of e1 ''AAPL'')) =
    ([(?ask, 100)], \<lparr>a_bids = [], a_asks = [], a_next = 3\<rparr>)"
    by (simp add: e1(3) a_submit_def incoming_order_def crosses_def double_cmp)
  from submit_accepted [OF _ sub(1) this refl, of r1] obtain e2 r2 where
    e2: "submit_order (\<lambda>_. 0) ''AAPL'' Buy Limit p100 100 (e1, r1) = Some (2, e2, r2)"
    "abs_book (book_of e2 ''AAPL'') = \<lparr>a_bids = [], a_asks = [], a_next = 3\<rparr>"
    by (auto simp: sub(2))
  have msg: "get_symbol (om_symbol buy_aapl) = ''AAPL''" "om_quantity buy_aapl = 100"
    by (simp_all add: buy_aapl_def get_symbol_def set_symbol_def byte_of_char)
  obtain report where h: "handle_new_order False (\<lambda>_. 0) buy_aapl (e1, r1) = Some (report, e2, r2)" "er_order_id report \<noteq> 0"
    using e2(1) by (simp add: handle_new_order_def gate_check_def msg) (simp add: buy_aapl_def)
  from report_ignores_fills [OF h] e1 e2 h msg(2) show ?thesis
    by (intro exI [of _ e1] exI [of _ r1] exI [of _ report] exI [of _ e2] exI [of _ r2]) simp
qed

text \<open>A connection that ends inside a message still has it executed, on bytes the client never sent: two
  bytes are enough to cancel the order whose id the uninitialised part of the struct happens to hold.\<close>

theorem short_cancel_is_executed:
  "handle_client gate (\<lambda>_. True) now junk k [2, b] st =
     (let (report, st') = handle_cancel \<lparr>cm_symbol = b # map junk [1..<8], cm_order_id = bytes_word (map junk [8..<16])\<rparr> st
      in Some ([report], st'))"
proof -
  have "take 8 (b # map junk [Suc 0..<16]) = b # map junk [Suc 0..<8]" by (simp add: take_map)
  moreover have "take 8 (drop 7 (map junk [Suc 0..<16])) = map junk [8..<16]" by (simp add: drop_map take_map)
  ultimately have "decode_cancel (received junk 2 16 [b]) = \<lparr>cm_symbol = b # map junk [1..<8], cm_order_id = bytes_word (map junk [8..<16])\<rparr>"
    by (simp add: decode_cancel_def received_def)
  moreover have "handle_client gate (\<lambda>_. True) now junk (Suc k) [] st1 = Some ([], st1)" for st1
    by (subst handle_client.simps) (simp add: recv_def)
  ultimately show ?thesis by (subst handle_client.simps) (simp add: recv_def case_prod_unfold Let_def)
qed

end
