(* ===== verification/ServerThreads.thy ===== *)
theory ServerThreads
  imports ServerCorrect
begin

text \<open>
  The connection threads of \<^verbatim>\<open>src/network/TcpServer.cpp\<close> side by side. A step is what one thread does without
  touching anything another thread could change meanwhile: one \<^verbatim>\<open>RiskChecker::check\<close>; the part of
  \<^verbatim>\<open>submit_order\<close> that only works on the engine, which the mutex protects; one call of \<^verbatim>\<open>on_fill\<close> from the trade
  callback of \<^verbatim>\<open>main.cpp\<close>, made while the mutex is held; the end of \<^verbatim>\<open>submit_order\<close>. The risk checker
  has no lock of its own: taking \<^verbatim>\<open>check\<close> and \<^verbatim>\<open>on_fill\<close> as single steps is the best case of what is a data race in C++.

  The engine carries the callback \<open>recorder\<close>, which collects the trades of a submission; \<open>submit_any_callback\<close> shows
  that running another callback on these trades is what \<^verbatim>\<open>submit_order\<close> does with it. A client is the list of complete
  messages it sends before it closes the connection.
\<close>

section \<open>State\<close>

text \<open>Where a connection's thread is: about to read a message; with an order that has passed the risk check and
  not yet reached the engine; inside \<^verbatim>\<open>submit_order\<close>, holding the mutex, with the calls of \<^verbatim>\<open>on_fill\<close> that
  remain and the report it will send; finished.\<close>

datatype phase = Reading | Passed OrderMessage | Booking "(Side \<times> Trade) list" ExecutionReport | Closed

record Connection =
  cn_phase :: phase
  cn_inbox :: "message list"
  cn_sent :: "ExecutionReport list"

record Server =
  sv_engine :: "Trade list MatchingEngine"
  sv_mutex :: "nat option"
  sv_risk :: RiskChecker
  sv_connections :: "Connection list"

abbreviation connection :: "Server \<Rightarrow> nat \<Rightarrow> Connection" where
  "connection s n \<equiv> sv_connections s ! n"

definition put :: "nat \<Rightarrow> Connection \<Rightarrow> Server \<Rightarrow> Server" where
  "put n c s = s\<lparr>sv_connections := (sv_connections s)[n := c]\<rparr>"

definition server_init :: "Trade list MatchingEngine \<Rightarrow> RiskChecker \<Rightarrow> message list list \<Rightarrow> Server" where
  "server_init e r mss = \<lparr>sv_engine = e, sv_mutex = None, sv_risk = r,
     sv_connections = map (\<lambda>ms. \<lparr>cn_phase = Reading, cn_inbox = ms, cn_sent = []\<rparr>) mss\<rparr>"

text \<open>The legs \<^verbatim>\<open>main.cpp\<close>'s callback books for the trades of one submission, and the two reports.\<close>

definition legs :: "Trade list \<Rightarrow> (Side \<times> Trade) list" where
  "legs trades = concat (map (\<lambda>t. [(Buy, t), (Sell, t)]) trades)"

definition order_report :: "OrderId \<Rightarrow> OrderMessage \<Rightarrow> ExecutionReport" where
  "order_report i m = \<lparr>er_order_id = i, er_status = (if 0 < i then Accepted else Rejected), er_price = om_price m,
     er_quantity = om_quantity m, er_remaining_qty = om_quantity m\<rparr>"

definition cancel_report :: "OrderId \<Rightarrow> bool \<Rightarrow> ExecutionReport" where
  "cancel_report i cancelled = \<lparr>er_order_id = i, er_status = (if cancelled then Cancelled else Rejected),
     er_price = dzero, er_quantity = 0, er_remaining_qty = 0\<rparr>"

abbreviation risk_verdict :: "bool \<Rightarrow> OrderMessage \<Rightarrow> RiskChecker \<Rightarrow> RejectReason \<times> RiskChecker" where
  "risk_verdict gate m \<equiv> gate_check gate (get_symbol (om_symbol m)) (om_side m) (om_order_type m) (om_price m) (om_quantity m)"

section \<open>Steps\<close>

inductive conn_step :: "bool \<Rightarrow> nat \<Rightarrow> Server \<Rightarrow> Trade list call list \<Rightarrow> Server \<Rightarrow> bool" for gate n s where
  close: "n < length (sv_connections s) \<Longrightarrow> connection s n = c \<Longrightarrow> cn_phase c = Reading \<Longrightarrow> cn_inbox c = [] \<Longrightarrow>
     conn_step gate n s [] (put n (c\<lparr>cn_phase := Closed\<rparr>) s)"
| refuse: "n < length (sv_connections s) \<Longrightarrow> connection s n = c \<Longrightarrow> cn_phase c = Reading \<Longrightarrow> cn_inbox c = MsgOrder m # ms \<Longrightarrow>
     risk_verdict gate m (sv_risk s) = (reason, r) \<Longrightarrow> reason \<noteq> NoReason \<Longrightarrow>
     conn_step gate n s [] (put n (c\<lparr>cn_inbox := ms, cn_sent := cn_sent c @ [order_report 0 m]\<rparr>) (s\<lparr>sv_risk := r\<rparr>))"
| pass: "n < length (sv_connections s) \<Longrightarrow> connection s n = c \<Longrightarrow> cn_phase c = Reading \<Longrightarrow> cn_inbox c = MsgOrder m # ms \<Longrightarrow>
     risk_verdict gate m (sv_risk s) = (NoReason, r) \<Longrightarrow>
     conn_step gate n s [] (put n (c\<lparr>cn_phase := Passed m, cn_inbox := ms\<rparr>) (s\<lparr>sv_risk := r\<rparr>))"
| submit: "n < length (sv_connections s) \<Longrightarrow> connection s n = c \<Longrightarrow> cn_phase c = Passed m \<Longrightarrow> sv_mutex s = None \<Longrightarrow>
     submit_order now (get_symbol (om_symbol m)) (om_side m) (om_order_type m) (om_price m) (om_quantity m) (sv_engine s, []) =
       Some (i, e, trades) \<Longrightarrow>
     conn_step gate n s [Submit (get_symbol (om_symbol m)) (om_side m) (om_order_type m) (om_price m) (om_quantity m) now]
       (put n (c\<lparr>cn_phase := Booking (legs trades) (order_report i m)\<rparr>) (s\<lparr>sv_engine := e, sv_mutex := Some n\<rparr>))"
| book: "n < length (sv_connections s) \<Longrightarrow> connection s n = c \<Longrightarrow> cn_phase c = Booking ((sd, t) # ls) report \<Longrightarrow>
     conn_step gate n s []
       (put n (c\<lparr>cn_phase := Booking ls report\<rparr>) (s\<lparr>sv_risk := on_fill ''AAPL'' sd (t_price t) (t_quantity t) (sv_risk s)\<rparr>))"
| reply: "n < length (sv_connections s) \<Longrightarrow> connection s n = c \<Longrightarrow> cn_phase c = Booking [] report \<Longrightarrow>
     conn_step gate n s [] (put n (c\<lparr>cn_phase := Reading, cn_sent := cn_sent c @ [report]\<rparr>) (s\<lparr>sv_mutex := None\<rparr>))"
| cancel: "n < length (sv_connections s) \<Longrightarrow> connection s n = c \<Longrightarrow> cn_phase c = Reading \<Longrightarrow> cn_inbox c = MsgCancel m # ms \<Longrightarrow>
     sv_mutex s = None \<Longrightarrow> engine_cancel_order (get_symbol (cm_symbol m)) (cm_order_id m) (sv_engine s) = (cancelled, e) \<Longrightarrow>
     conn_step gate n s [Cancel (get_symbol (cm_symbol m)) (cm_order_id m)]
       (put n (c\<lparr>cn_inbox := ms, cn_sent := cn_sent c @ [cancel_report (cm_order_id m) cancelled]\<rparr>) (s\<lparr>sv_engine := e\<rparr>))"

inductive server_run :: "bool \<Rightarrow> Server \<Rightarrow> Trade list call list \<Rightarrow> Server \<Rightarrow> bool" for gate s0 where
  init: "server_run gate s0 [] s0"
| step: "server_run gate s0 calls s \<Longrightarrow> conn_step gate n s cs s' \<Longrightarrow> server_run gate s0 (calls @ cs) s'"

section \<open>The callback and the engine\<close>

definition with_callback :: "'s TradeCallback option \<Rightarrow> 'r MatchingEngine \<Rightarrow> 's MatchingEngine" where
  "with_callback cb e = \<lparr>books = books e, trade_callback = cb, stats = stats e\<rparr>"

lemma with_callback_simps [simp]:
  "books (with_callback cb e) = books e" "trade_callback (with_callback cb e) = cb" "stats (with_callback cb e) = stats e"
  "(with_callback cb e)\<lparr>stats := st\<rparr> = with_callback cb (e\<lparr>stats := st\<rparr>)"
  "(with_callback cb e)\<lparr>books := bs\<rparr> = with_callback cb (e\<lparr>books := bs\<rparr>)"
  by (simp_all add: with_callback_def)

lemma with_callback_twice: "with_callback cb (with_callback cb' e) = with_callback cb e"
  by (simp add: with_callback_def)

lemma get_order_book_with_callback:
  "get_order_book symb (with_callback cb e) = (fst (get_order_book symb e), with_callback cb (snd (get_order_book symb e)))"
  by (simp add: get_order_book_def Let_def split: option.split)

lemma fold_record_trade_stats: "fst (fold (record_trade cb) trades (st, s)) = fst (fold (record_trade cb') trades (st, s'))"
  by (induction trades arbitrary: st s s') (simp_all add: record_trade_def)

text \<open>What a submission does to the engine does not depend on the callback, and every callback is run on the
  same trades.\<close>

lemma submit_any_callback:
  fixes e :: "'r MatchingEngine"
  assumes sub: "submit_order now symb sd ty price q (e, s0) = Some (i, e', s0')"
  obtains trades where "s0' = run_callback (trade_callback e) trades s0"
    "\<And>cb (s :: 's). submit_order now symb sd ty price q (with_callback cb e, s) = Some (i, with_callback cb e', run_callback cb trades s)"
proof -
  obtain b e1 where gob: "get_order_book symb e = (b, e1)" by fastforce
  then have e1: "trade_callback e1 = trade_callback e" using get_order_book_frame(2) [of symb e] by simp
  show thesis
  proof (cases "accepted ty price q")
    case True
    obtain ptr b1 where add: "add_order (now 1) sd ty (effective_price sd ty price) q b = (ptr, b1)" by fastforce
    then obtain trades b2 where m: "match_order (\<lambda>i. now (2 + i)) b1 ptr = Some (trades, b2)"
      using sub True by (auto simp: submit_order_def gob accepted_def Let_def split: option.splits)
    define st where "st = fst (fold (record_trade (trade_callback e)) trades ((stats e1)\<lparr>total_orders := total_orders (stats e1) + 1\<rparr>, s0))"
    define e2 where "e2 = e1\<lparr>books := AList.update symb (post_match ty ptr b2) (books e1),
      stats := record_latency (now (2 + length trades) - now 0) st\<rparr>"
    have fold: "fold (record_trade cb) trades ((stats e1)\<lparr>total_orders := total_orders (stats e1) + 1\<rparr>, s) = (st, run_callback cb trades s)" for cb and s :: 'x
      unfolding st_def
      using fold_record_trade_stats [of cb trades "(stats e1)\<lparr>total_orders := total_orders (stats e1) + 1\<rparr>" s "trade_callback e" s0]
      by (simp add: prod_eq_iff snd_fold_record_trade)
    have sub': "submit_order now symb sd ty price q (with_callback cb e, s) = Some (o_id (order_at b1 ptr), with_callback cb e2, run_callback cb trades s)" for cb and s :: 'x
      using True add m fold [of cb s]
      by (auto simp: submit_order_def get_order_book_with_callback gob accepted_def Let_def e2_def)
    have "with_callback (trade_callback e) e = e" "with_callback (trade_callback e) e2 = e2"
      using e1 by (simp_all add: with_callback_def e2_def)
    with sub' [of "trade_callback e" s0] sub have "s0' = run_callback (trade_callback e) trades s0" "i = o_id (order_at b1 ptr)" "e' = e2"
      by simp_all
    then show thesis by (intro that [of trades]) (simp_all only: sub')
  next
    case False
    then show thesis
      using that [of "[]"] sub by (auto simp: submit_order_def get_order_book_with_callback gob accepted_def Let_def split: if_splits)
  qed
qed

section \<open>The invariant\<close>

fun in_flight :: "phase \<Rightarrow> nat" where
  "in_flight (Passed _) = 1"
| "in_flight (Booking _ _) = 1"
| "in_flight _ = 0"

fun is_booking :: "phase \<Rightarrow> bool" where
  "is_booking (Booking _ _) \<longleftrightarrow> True"
| "is_booking _ \<longleftrightarrow> False"

text \<open>Orders that may still take an id.\<close>

definition unsent :: "Connection \<Rightarrow> nat" where
  "unsent c = length (cn_inbox c) + (case cn_phase c of Passed _ \<Rightarrow> 1 | _ \<Rightarrow> 0)"

definition unsent_all :: "Server \<Rightarrow> nat" where
  "unsent_all s = (\<Sum>c \<leftarrow> sv_connections s. unsent c)"

definition conn_ok :: "Connection \<Rightarrow> bool" where
  "conn_ok c \<longleftrightarrow> (\<forall>m \<in> set (cn_inbox c). legal_message m) \<and> (\<forall>m. cn_phase c = Passed m \<longrightarrow> legal_message (MsgOrder m))
     \<and> (cn_phase c = Closed \<longrightarrow> cn_inbox c = [])"

definition server_inv :: "message list list \<Rightarrow> nat \<Rightarrow> Server \<Rightarrow> bool" where
  "server_inv mss k s \<longleftrightarrow> trade_callback (sv_engine s) = Some recorder
     \<and> engine_inv k (sv_engine s) \<and> k + unsent_all s < 2 ^ 64
     \<and> length (sv_connections s) = length mss \<and> (\<forall>n. sv_mutex s = Some n \<longrightarrow> n < length mss)
     \<and> (\<forall>n < length mss. conn_ok (connection s n) \<and> (is_booking (cn_phase (connection s n)) \<longleftrightarrow> sv_mutex s = Some n)
          \<and> length (cn_sent (connection s n)) + in_flight (cn_phase (connection s n)) + length (cn_inbox (connection s n)) = length (mss ! n))"

lemma sum_put:
  fixes f :: "Connection \<Rightarrow> nat"
  assumes "n < length (sv_connections s)"
  shows "(\<Sum>c \<leftarrow> sv_connections (put n c s). f c) + f (connection s n) = (\<Sum>c \<leftarrow> sv_connections s. f c) + f c"
proof -
  have "sum_list ((map f cs)[n := x]) + f (cs ! n) = sum_list (map f cs) + x" if "n < length cs" for n x cs
    using that by (induction cs arbitrary: n) (auto split: nat.splits)
  then show ?thesis using assms by (simp add: put_def map_update)
qed

lemma server_inv_put:
  assumes inv: "server_inv mss k s" and n: "n < length (sv_connections s)" and "sv_connections s' = sv_connections s"
    and eng: "trade_callback (sv_engine s') = Some recorder" "engine_inv k' (sv_engine s')"
    and "k' + unsent c \<le> k + unsent (connection s n)"
    and "conn_ok c" and "is_booking (cn_phase c) \<longleftrightarrow> sv_mutex s' = Some n"
    and "\<And>j. j \<noteq> n \<Longrightarrow> sv_mutex s' = Some j \<longleftrightarrow> sv_mutex s = Some j"
    and "length (cn_sent c) + in_flight (cn_phase c) + length (cn_inbox c) =
      length (cn_sent (connection s n)) + in_flight (cn_phase (connection s n)) + length (cn_inbox (connection s n))"
  shows "server_inv mss k' (put n c s')"
proof -
  have "unsent_all s' = unsent_all s" using assms(3) by (simp add: unsent_all_def)
  with sum_put [of n s' unsent c] n assms(3,6) inv have "k' + unsent_all (put n c s') < 2 ^ 64"
    by (simp add: server_inv_def unsent_all_def)
  moreover have "\<forall>j. sv_mutex s' = Some j \<longrightarrow> j < length mss" using inv n assms(9) by (metis server_inv_def)
  ultimately show ?thesis using inv assms by (auto simp: server_inv_def put_def nth_list_update)
qed

text \<open>The two steps that enter the engine.\<close>

lemma submit_step_engine:
  assumes inv: "server_inv mss k s" and n: "n < length (sv_connections s)" "cn_phase (connection s n) = Passed m"
    and sub: "submit_order now (get_symbol (om_symbol m)) (om_side m) (om_order_type m) (om_price m) (om_quantity m) (sv_engine s, []) =
      Some (i, e, trades)"
  shows "engine_inv (k + 1) e" "trade_callback e = Some recorder"
    "\<exists>ts'. engine_run (sv_engine s, ts)
       [Submit (get_symbol (om_symbol m)) (om_side m) (om_order_type m) (om_price m) (om_quantity m) now] (e, ts')"
proof -
  have eng: "trade_callback (sv_engine s) = Some recorder" "engine_inv k (sv_engine s)" "k + unsent_all s < 2 ^ 64"
    and conn: "conn_ok (connection s n)" using inv n by (simp_all add: server_inv_def)
  have "unsent (connection s n) \<le> unsent_all s" using n by (auto simp: unsent_all_def intro!: member_le_sum_list)
  then have k: "k + 1 < 2 ^ 64" using eng(3) n(2) by (simp add: unsent_def)
  have price: "om_order_type m = Market \<or> \<not> is_nan (om_price m)" using conn n(2) by (auto simp: conn_ok_def)
  show "engine_inv (k + 1) e" using submit_engine_inv [OF eng(2) price k] sub by (metis option.inject prod.inject)
  show "trade_callback e = Some recorder" using submit_frame(2) [OF sub] eng(1) by simp
  have same: "with_callback (Some recorder) (sv_engine s) = sv_engine s" "with_callback (Some recorder) e = e"
    using eng(1) submit_frame(2) [OF sub] by (simp_all add: with_callback_def)
  obtain trades' where "submit_order now (get_symbol (om_symbol m)) (om_side m) (om_order_type m) (om_price m) (om_quantity m)
      (with_callback (Some recorder) (sv_engine s), ts) = Some (i, with_callback (Some recorder) e, run_callback (Some recorder) trades' ts)"
    using submit_any_callback [OF sub] by metis
  from engine_run.call [OF engine_run.start _ engine_step.submit [OF this [unfolded same]]]
  show "\<exists>ts'. engine_run (sv_engine s, ts)
      [Submit (get_symbol (om_symbol m)) (om_side m) (om_order_type m) (om_price m) (om_quantity m) now] (e, ts')"
    using price next_id_suc(2) [OF eng(2) k] by auto
qed

lemma cancel_step_engine:
  assumes inv: "server_inv mss k s" and "engine_cancel_order symb i (sv_engine s) = (cancelled, e)"
  shows "engine_inv k e" "trade_callback e = Some recorder"
    "engine_run (sv_engine s, ts) [Cancel symb i] (e, ts)"
  using inv assms(2) cancel_engine_inv [of k "sv_engine s" symb i] engine_cancel_effect(4) [of "sv_engine s" symb i]
    engine_run.call [OF engine_run.start _ engine_step.cancel [OF assms(2)], of ts]
  by (auto simp: server_inv_def engine_inv_def)

lemma conn_step_inv:
  assumes step: "conn_step gate n s cs s'" and inv: "server_inv mss k s"
  shows "\<exists>k'. server_inv mss k' s'"
proof -
  have eng: "trade_callback (sv_engine s) = Some recorder" "engine_inv k (sv_engine s)"
    using inv by (simp_all add: server_inv_def)
  have conn: "conn_ok (connection s n)" "is_booking (cn_phase (connection s n)) \<longleftrightarrow> sv_mutex s = Some n"
    if "n < length (sv_connections s)" using inv that by (simp_all add: server_inv_def)
  from step show ?thesis
  proof cases
    case (submit c m now i e trades)
    then show ?thesis
      using conn submit_step_engine [OF inv, of n m now i e trades]
      by (auto intro!: exI [of _ "Suc k"] server_inv_put [OF inv] simp: conn_ok_def unsent_def)
  next
    case (cancel c m ms cancelled e)
    then show ?thesis
      using conn cancel_step_engine [OF inv cancel(8)]
      by (auto intro!: exI [of _ k] server_inv_put [OF inv] simp: conn_ok_def unsent_def)
  qed (use conn eng in \<open>auto intro!: exI [of _ k] server_inv_put [OF inv] simp: conn_ok_def unsent_def\<close>)
qed

lemma conn_step_calls:
  assumes step: "conn_step gate n s cs s'" and inv: "server_inv mss k s"
  shows "\<exists>ts'. engine_run (sv_engine s, ts) cs (sv_engine s', ts')"
  using step
proof cases
  case (submit c m now i e trades)
  then show ?thesis using submit_step_engine(3) [OF inv, of n m now i e trades ts] by (simp add: put_def)
next
  case (cancel c m ms cancelled e)
  then show ?thesis using cancel_step_engine(3) [OF inv cancel(8), of ts] by (auto simp: put_def)
qed (auto simp: put_def intro: engine_run.start)

lemma server_run_inv:
  assumes "server_run gate s calls s'" and "server_inv mss k s"
  shows "\<exists>k' ts'. server_inv mss k' s' \<and> engine_run (sv_engine s, ts) calls (sv_engine s', ts')"
  using assms
proof (induction rule: server_run.induct)
  case (step calls s1 n cs s2)
  then obtain k1 ts1 where "server_inv mss k1 s1" "engine_run (sv_engine s, ts) calls (sv_engine s1, ts1)" by blast
  with step.hyps(2) conn_step_inv conn_step_calls engine_run_append show ?case by meson
qed (auto intro: engine_run.start)

lemma server_init_inv:
  assumes "engine_inv k e" and "trade_callback e = Some recorder" and "\<forall>ms \<in> set mss. \<forall>m \<in> set ms. legal_message m"
    and "k + length (concat mss) < 2 ^ 64"
  shows "server_inv mss k (server_init e r mss)"
proof -
  have "unsent_all (server_init e r mss) = length (concat mss)"
    by (simp add: unsent_all_def server_init_def comp_def unsent_def length_concat)
  with assms show ?thesis by (auto simp: server_inv_def server_init_def conn_ok_def)
qed

lemma server_run_trans:
  assumes "server_run gate s0 calls s1" and "server_run gate s1 calls' s2"
  shows "server_run gate s0 (calls @ calls') s2"
  using assms(2)
proof (induction rule: server_run.induct)
  case (step calls' s n cs s')
  from server_run.step [OF step.IH step.hyps(2)] show ?case by simp
qed (use assms(1) in simp)

section \<open>Progress and termination\<close>

fun phase_weight :: "phase \<Rightarrow> nat" where
  "phase_weight Closed = 0"
| "phase_weight Reading = 1"
| "phase_weight (Booking _ _) = 2"
| "phase_weight (Passed _) = 3"

fun legs_left :: "phase \<Rightarrow> nat" where
  "legs_left (Booking ls _) = length ls"
| "legs_left _ = 0"

definition work :: "(Server \<times> Server) set" where
  "work = measures [\<lambda>s. \<Sum>c \<leftarrow> sv_connections s. 3 * length (cn_inbox c) + phase_weight (cn_phase c),
     \<lambda>s. \<Sum>c \<leftarrow> sv_connections s. legs_left (cn_phase c)]"

lemma conn_step_work:
  assumes "conn_step gate n s cs s'"
  shows "(s', s) \<in> work"
proof -
  have put: "(put n c s1, s) \<in> work"
    if "n < length (sv_connections s)" "sv_connections s1 = sv_connections s"
      and "3 * length (cn_inbox c) + phase_weight (cn_phase c) < 3 * length (cn_inbox (connection s n)) + phase_weight (cn_phase (connection s n))
        \<or> cn_inbox c = cn_inbox (connection s n) \<and> phase_weight (cn_phase c) = phase_weight (cn_phase (connection s n))
          \<and> legs_left (cn_phase c) < legs_left (cn_phase (connection s n))" for c s1
    using that sum_put [of n s1 "\<lambda>c. 3 * length (cn_inbox c) + phase_weight (cn_phase c)" c]
      sum_put [of n s1 "\<lambda>c. legs_left (cn_phase c)" c]
    by (auto simp: work_def)
  from assms show ?thesis by cases (auto intro!: put)
qed

text \<open>A reading thread that finds the engine free always has a step: it closes, is refused, passes the gate
  or cancels.\<close>

lemma reading_progress:
  assumes n: "n < length (sv_connections s)" and Reading: "cn_phase (connection s n) = Reading"
    and None: "sv_mutex s = None"
  shows "\<exists>cs s'. conn_step gate n s cs s'"
proof (cases "cn_inbox (connection s n)")
  case Nil
  then show ?thesis using conn_step.close [OF n refl Reading Nil] by metis
next
  case (Cons m ms)
  show ?thesis
  proof (cases m)
    case (MsgOrder om)
    obtain reason r where "risk_verdict gate om (sv_risk s) = (reason, r)" by fastforce
    then show ?thesis
      using conn_step.refuse [OF n refl Reading Cons [unfolded MsgOrder]] conn_step.pass [OF n refl Reading Cons [unfolded MsgOrder]]
      by (cases "reason = NoReason") metis+
  next
    case (MsgCancel cm)
    then show ?thesis
      using conn_step.cancel [OF n refl Reading Cons [unfolded MsgCancel] None prod.collapse [symmetric]] by metis
  qed
qed

lemma conn_step_progress:
  assumes inv: "server_inv mss k s" and open': "n < length mss" "cn_phase (connection s n) \<noteq> Closed"
  shows "\<exists>n cs s'. conn_step gate n s cs s'"
proof (cases "sv_mutex s")
  case (Some j)
  then have j: "j < length (sv_connections s)" "is_booking (cn_phase (connection s j))" using inv by (auto simp: server_inv_def)
  then obtain ls report where "cn_phase (connection s j) = Booking ls report" by (cases "cn_phase (connection s j)") auto
  then show ?thesis
    using conn_step.book [OF j(1) refl] conn_step.reply [OF j(1) refl] by (cases ls) (metis, metis surj_pair)
next
  case None
  have n: "n < length (sv_connections s)" and eng: "engine_inv k (sv_engine s)" "k + unsent_all s < 2 ^ 64"
    and conn: "conn_ok (connection s n)" using inv open' by (auto simp: server_inv_def)
  show ?thesis
  proof (cases "cn_phase (connection s n)")
    case Reading
    then show ?thesis using reading_progress [OF n _ None] by blast
  next
    case (Passed m)
    have "unsent (connection s n) \<le> unsent_all s" using n by (auto simp: unsent_all_def intro!: member_le_sum_list)
    then have "k + 1 < 2 ^ 64" using eng(2) Passed by (simp add: unsent_def)
    moreover have "om_order_type m = Market \<or> \<not> is_nan (om_price m)" using conn Passed by (auto simp: conn_ok_def)
    ultimately obtain i e trades where "submit_order (\<lambda>_. 0) (get_symbol (om_symbol m)) (om_side m) (om_order_type m) (om_price m)
        (om_quantity m) (sv_engine s, []) = Some (i, e, trades)"
      using submit_engine_inv [OF eng(1)] by metis
    then show ?thesis using conn_step.submit [OF n refl Passed None] by metis
  next
    case (Booking ls report)
    then show ?thesis using inv None n by (auto simp: server_inv_def)
  qed (use open' in simp)
qed

section \<open>Theorems\<close>



section \<open>A concrete interleaving\<close>

definition buy4 :: OrderMessage where
  "buy4 = \<lparr>om_symbol = set_symbol ''AAPL'', om_side = Buy, om_order_type = IOC, om_price = p101, om_quantity = 4\<rparr>"

definition risk5 :: RiskChecker where
  "risk5 = RiskChecker_new \<lparr>max_order_quantity = 100, max_order_notional = dinf, max_position_abs = 5, max_notional_exposure = dinf\<rparr>"

lemma buy4_fields [simp]:
  "get_symbol (om_symbol buy4) = ''AAPL''" "om_side buy4 = Buy" "om_order_type buy4 = IOC" "om_price buy4 = p101" "om_quantity buy4 = 4"
  by (simp_all add: buy4_def get_symbol_def set_symbol_def byte_of_char)

lemma engine1_inv: "engine_inv 2 engine1"
proof -
  have "engine_inv 1 engine0"
    using engine_inv_new by (simp add: engine0_def engine_inv_def engine_ok_def ids_below_def book_of_eq set_trade_callback_def)
  moreover have "Limit = Market \<or> \<not> is_nan p100" "1 + 1 < (2 :: nat) ^ 64" by simp_all
  ultimately obtain i e' s' where "submit_order (\<lambda>_. 0) ''AAPL'' Sell Limit p100 10 (engine0, []) = Some (i, e', s')" "engine_inv (1 + 1) e'"
    by (rule submit_engine_inv)
  with submit_engine1(1) show ?thesis by (simp add: numeral_2_eq_2)
qed

text \<open>With a cap of 5 the order of 4 passes at position 0 and not at position 4.\<close>

lemma verdict5:
  assumes "limits r = limits risk5" and "\<not> kill_switch r"
  shows "position ''AAPL'' r = 0 \<Longrightarrow> risk_verdict True buy4 r = (NoReason, r\<lparr>risk_stats := record_pass (risk_stats r)\<rparr>)"
    "position ''AAPL'' r = 4 \<Longrightarrow> fst (risk_verdict True buy4 r) = MaxPositionExceeded"
  using assms
  by (auto simp: gate_check_def check_def risk5_def RiskChecker_new_def not_above_inf Let_def position_delta_def long_abs_def reject_def)

definition race_init :: Server where
  "race_init = server_init engine1 risk5 [[MsgOrder buy4], [MsgOrder buy4]]"

text \<open>The first thread passes, trades and books one leg; then the second thread's check runs.\<close>

lemma race_run:
  "\<exists>s. server_run True race_init [Submit ''AAPL'' Buy IOC p101 4 (\<lambda>_. 0)] s \<and> sv_engine s = engine2
     \<and> sv_mutex s = Some 0 \<and> cn_sent (connection s 1) = [order_report 0 buy4]"
proof -
  define c where "c = \<lparr>cn_phase = Reading, cn_inbox = [MsgOrder buy4], cn_sent = []\<rparr>"
  define r1 where "r1 = risk5\<lparr>risk_stats := record_pass (risk_stats risk5)\<rparr>"
  define r2 where "r2 = on_fill ''AAPL'' Buy (t_price trade2) (t_quantity trade2) r1"
  define s1 where "s1 = put 0 (c\<lparr>cn_phase := Passed buy4, cn_inbox := []\<rparr>) (race_init\<lparr>sv_risk := r1\<rparr>)"
  define s2 where "s2 = put 0 ((connection s1 0)\<lparr>cn_phase := Booking (legs [trade2]) (order_report 2 buy4)\<rparr>) (s1\<lparr>sv_engine := engine2, sv_mutex := Some 0\<rparr>)"
  define s3 where "s3 = put 0 ((connection s2 0)\<lparr>cn_phase := Booking [(Sell, trade2)] (order_report 2 buy4)\<rparr>) (s2\<lparr>sv_risk := r2\<rparr>)"
  define s4 where "s4 = put 1 (c\<lparr>cn_inbox := [], cn_sent := [order_report 0 buy4]\<rparr>) (s3\<lparr>sv_risk := snd (risk_verdict True buy4 r2)\<rparr>)"
  have init: "sv_connections race_init = [c, c]" "sv_risk race_init = risk5" "sv_mutex race_init = None" "sv_engine race_init = engine1"
    by (simp_all add: race_init_def server_init_def c_def)
  have zero: "limits risk5 = limits risk5" "\<not> kill_switch risk5" "position ''AAPL'' risk5 = 0"
    by (simp_all add: risk5_def RiskChecker_new_def position_def)
  have "position ''AAPL'' r2 = 4" "limits r2 = limits risk5" "\<not> kill_switch r2"
    using zero by (simp_all add: r2_def r1_def position_on_fill position_delta_def trade2_def) (simp_all add: on_fill_def position_def)
  from verdict5(2) [OF this(2,3,1)] have refused: "risk_verdict True buy4 r2 = (MaxPositionExceeded, snd (risk_verdict True buy4 r2))"
    by (simp add: prod_eq_iff)
  have "conn_step True 0 race_init [] s1"
    unfolding s1_def using verdict5(1) [OF zero] by (intro conn_step.pass) (simp_all add: init c_def r1_def)
  moreover have "conn_step True 0 s1 [Submit ''AAPL'' Buy IOC p101 4 (\<lambda>_. 0)] s2"
    unfolding s2_def using conn_step.submit [of 0 s1 _ buy4 "\<lambda>_. 0" 2 engine2 "[trade2]", OF _ refl] submit_engine2(1)
    by (simp add: s1_def put_def init)
  moreover have "conn_step True 0 s2 [] s3"
    unfolding s3_def using conn_step.book [of 0 s2 _ Buy trade2 "[(Sell, trade2)]" "order_report 2 buy4", OF _ refl]
    by (simp add: s2_def s1_def put_def init legs_def r2_def)
  moreover have "conn_step True 1 s3 [] s4"
    unfolding s4_def using conn_step.refuse [of 1 s3 c buy4 "[]" True, OF _ _ _ _ _] refused
    by (simp add: s3_def s2_def s1_def put_def init c_def)
  ultimately have "server_run True race_init ((([] @ []) @ [Submit ''AAPL'' Buy IOC p101 4 (\<lambda>_. 0)]) @ [] @ []) s4"
    using server_run.step [OF server_run.step [OF server_run.step [OF server_run.step [OF server_run.init]]]] by fastforce
  then show ?thesis by (intro exI [of _ s4]) (simp add: s4_def s3_def s2_def s1_def put_def init)
qed




section \<open>Threads that do not interleave\<close>

lemma legs_fold: "fold (\<lambda>(sd, t). on_fill ''AAPL'' sd (t_price t) (t_quantity t)) (legs trades) r = run_callback (Some main_trade_callback) trades r"
  by (induction trades arbitrary: r) (simp_all add: legs_def run_callback_Cons main_trade_callback_def)

lemma book_legs:
  assumes "n < length (sv_connections s)" and "cn_phase (connection s n) = Booking ls report"
  shows "server_run gate s [] (put n ((connection s n)\<lparr>cn_phase := Reading, cn_sent := cn_sent (connection s n) @ [report]\<rparr>)
     (s\<lparr>sv_mutex := None, sv_risk := fold (\<lambda>(sd, t). on_fill ''AAPL'' sd (t_price t) (t_quantity t)) ls (sv_risk s)\<rparr>))"
  using assms
proof (induction ls arbitrary: s)
  case Nil
  from server_run.step [OF server_run.init conn_step.reply [OF Nil(1) refl Nil(2)], of gate] show ?case by simp
next
  case (Cons l ls)
  obtain sd t where l: "l = (sd, t)" by fastforce
  let ?s = "put n ((connection s n)\<lparr>cn_phase := Booking ls report\<rparr>) (s\<lparr>sv_risk := on_fill ''AAPL'' sd (t_price t) (t_quantity t) (sv_risk s)\<rparr>)"
  have "server_run gate s [] ?s"
    using server_run.step [OF server_run.init conn_step.book [OF Cons.prems(1) refl Cons.prems(2) [unfolded l]], of gate] by simp
  moreover have "server_run gate ?s [] (put n ((connection ?s n)\<lparr>cn_phase := Reading, cn_sent := cn_sent (connection ?s n) @ [report]\<rparr>)
     (?s\<lparr>sv_mutex := None, sv_risk := fold (\<lambda>(sd, t). on_fill ''AAPL'' sd (t_price t) (t_quantity t)) ls (sv_risk ?s)\<rparr>))"
    by (rule Cons.IH) (use Cons.prems in \<open>simp_all add: put_def\<close>)
  ultimately show ?case using server_run_trans [of gate s "[]" ?s "[]"] Cons.prems(1) by (simp add: put_def l)
qed

text \<open>The effect of one message on the state of the server, in terms of the sequential handler.\<close>

definition handled :: "nat \<Rightarrow> Connection \<Rightarrow> message list \<Rightarrow> ExecutionReport \<Rightarrow> server_state \<Rightarrow> Server \<Rightarrow> Server \<Rightarrow> bool" where
  "handled n c ms report st s s' \<longleftrightarrow> (with_callback (Some main_trade_callback) (sv_engine s'), sv_risk s') = st
    \<and> sv_mutex s' = None \<and> sv_connections s' = (sv_connections s)[n := c\<lparr>cn_inbox := ms, cn_sent := cn_sent c @ [report]\<rparr>]"

lemma order_alone:
  assumes n: "n < length (sv_connections s)" and c: "connection s n = c" "cn_phase c = Reading" "cn_inbox c = MsgOrder m # ms"
    and free: "sv_mutex s = None" and rec: "trade_callback (sv_engine s) = Some recorder"
    and v: "risk_verdict gate m (sv_risk s) = (NoReason, r1)"
    and sub: "submit_order now (get_symbol (om_symbol m)) (om_side m) (om_order_type m) (om_price m) (om_quantity m)
        (with_callback (Some main_trade_callback) (sv_engine s), r1) = Some (i, e', r')"
  shows "\<exists>calls s'. server_run gate s calls s' \<and> handled n c ms (order_report i m) (e', r') s s'"
proof -
  have rec': "with_callback (Some recorder) (with_callback (Some main_trade_callback) (sv_engine s)) = sv_engine s"
    using rec by (simp add: with_callback_def)
  define e1 :: "Trade list MatchingEngine" where "e1 = with_callback (Some recorder) e'"
  have e': "with_callback (Some main_trade_callback) e1 = e'" using submit_frame(2) [OF sub] by (simp add: e1_def with_callback_def)
  obtain trades where r': "r' = run_callback (Some main_trade_callback) trades r1"
    and sub1: "submit_order now (get_symbol (om_symbol m)) (om_side m) (om_order_type m) (om_price m) (om_quantity m)
      (sv_engine s, []) = Some (i, e1, trades)"
    using submit_any_callback [OF sub, where ?'s = "Trade list"] rec' run_recorder [of _ "[]"] unfolding e1_def
    by (metis append_Nil with_callback_simps(2))
  let ?s1 = "put n (c\<lparr>cn_phase := Passed m, cn_inbox := ms\<rparr>) (s\<lparr>sv_risk := r1\<rparr>)"
  let ?s2 = "put n (c\<lparr>cn_inbox := ms, cn_phase := Booking (legs trades) (order_report i m)\<rparr>) (s\<lparr>sv_risk := r1, sv_engine := e1, sv_mutex := Some n\<rparr>)"
  have step1: "conn_step gate n s [] ?s1" by (rule conn_step.pass [OF n c v])
  have step2: "conn_step gate n ?s1 [Submit (get_symbol (om_symbol m)) (om_side m) (om_order_type m) (om_price m) (om_quantity m) now] ?s2"
    using conn_step.submit [of n ?s1 _ m now i e1 trades gate, OF _ refl] sub1 n free by (simp add: put_def)
  have n2: "n < length (sv_connections ?s2)" "connection ?s2 n = c\<lparr>cn_inbox := ms, cn_phase := Booking (legs trades) (order_report i m)\<rparr>"
    using n by (simp_all add: put_def)
  define s3 where "s3 = put n ((connection ?s2 n)\<lparr>cn_phase := Reading, cn_sent := cn_sent (connection ?s2 n) @ [order_report i m]\<rparr>)
    (?s2\<lparr>sv_mutex := None, sv_risk := fold (\<lambda>(sd, t). on_fill ''AAPL'' sd (t_price t) (t_quantity t)) (legs trades) (sv_risk ?s2)\<rparr>)"
  have "server_run gate ?s2 [] s3" unfolding s3_def by (rule book_legs [OF n2(1)], subst n2(2)) simp
  from server_run_trans [OF server_run.step [OF server_run.step [OF server_run.init step1] step2] this]
  have "\<exists>calls. server_run gate s calls s3" by blast
  moreover have "handled n c ms (order_report i m) (e', r') s s3"
    using n c(2) e' r' legs_fold [of trades r1] by (cases c) (simp add: s3_def n2(2) handled_def put_def)
  ultimately show ?thesis by blast
qed

text \<open>A thread that handles a message with no other thread in between does exactly what the sequential
  model of a connection does with it.\<close>

theorem alone_refines_handle_message:
  assumes n: "n < length (sv_connections s)" and c: "connection s n = c" "cn_phase c = Reading" "cn_inbox c = m # ms"
    and free: "sv_mutex s = None" and rec: "trade_callback (sv_engine s) = Some recorder"
    and handle: "handle_message gate (now, m) (with_callback (Some main_trade_callback) (sv_engine s), sv_risk s) = Some (report, st)"
  shows "\<exists>calls s'. server_run gate s calls s' \<and> handled n c ms report st s s'"
proof (cases m)
  case (MsgCancel cm)
  obtain cancelled e1 where e1: "engine_cancel_order (get_symbol (cm_symbol cm)) (cm_order_id cm) (sv_engine s) = (cancelled, e1)" by fastforce
  then have "engine_cancel_order (get_symbol (cm_symbol cm)) (cm_order_id cm) (with_callback (Some main_trade_callback) (sv_engine s)) =
    (cancelled, with_callback (Some main_trade_callback) e1)"
    by (auto simp: engine_cancel_order_def case_prod_unfold Let_def split: option.splits)
  then have "report = cancel_report (cm_order_id cm) cancelled" "st = (with_callback (Some main_trade_callback) e1, sv_risk s)"
    using handle by (simp_all add: MsgCancel handle_cancel_def cancel_report_def)
  then have "handled n c ms report st s (put n (c\<lparr>cn_inbox := ms, cn_sent := cn_sent c @ [cancel_report (cm_order_id cm) cancelled]\<rparr>) (s\<lparr>sv_engine := e1\<rparr>))"
    using free by (simp add: handled_def put_def)
  with server_run.step [OF server_run.init conn_step.cancel [OF n c(1,2) c(3) [unfolded MsgCancel] free e1]] show ?thesis by blast
next
  case (MsgOrder om)
  obtain reason r1 where v: "risk_verdict gate om (sv_risk s) = (reason, r1)" by fastforce
  show ?thesis
  proof (cases "reason = NoReason")
    case False
    then have "report = order_report 0 om" "st = (with_callback (Some main_trade_callback) (sv_engine s), r1)"
      using handle by (simp_all add: MsgOrder handle_new_order_eq [OF v] order_report_def)
    then have "handled n c ms report st s (put n (c\<lparr>cn_inbox := ms, cn_sent := cn_sent c @ [order_report 0 om]\<rparr>) (s\<lparr>sv_risk := r1\<rparr>))"
      using free by (simp add: handled_def put_def)
    with server_run.step [OF server_run.init conn_step.refuse [OF n c(1,2) c(3) [unfolded MsgOrder] v False]] show ?thesis by blast
  next
    case True
    then obtain i e' r' where sub: "submit_order now (get_symbol (om_symbol om)) (om_side om) (om_order_type om) (om_price om) (om_quantity om)
        (with_callback (Some main_trade_callback) (sv_engine s), r1) = Some (i, e', r')" and "report = order_report i om" "st = (e', r')"
      using handle by (auto simp: MsgOrder handle_new_order_eq [OF v] order_report_def split: option.splits)
    with order_alone [OF n c(1,2) c(3) [unfolded MsgOrder] free rec v [unfolded True] sub] show ?thesis by simp
  qed
qed

theorem alone_refines_handle_message_witness:
  "\<exists>calls s'. server_run False (server_init engine1 risk0 [[MsgOrder buy4], []]) calls s'
     \<and> cn_sent (connection s' 0) = [order_report 2 buy4] \<and> sv_mutex s' = None"
proof -
  let ?s = "server_init engine1 risk0 [[MsgOrder buy4], []]"
  obtain trades where "submit_order (\<lambda>_. 0) ''AAPL'' Buy IOC p101 4 (with_callback (Some main_trade_callback) engine1, risk0) =
    Some (2, with_callback (Some main_trade_callback) engine2, run_callback (Some main_trade_callback) trades risk0)"
    using submit_any_callback [OF submit_engine2(1)] by metis
  then have "handle_message False (\<lambda>_. 0, MsgOrder buy4) (with_callback (Some main_trade_callback) (sv_engine ?s), sv_risk ?s) =
    Some (order_report 2 buy4, with_callback (Some main_trade_callback) engine2, run_callback (Some main_trade_callback) trades risk0)"
    by (simp add: handle_new_order_def gate_check_def server_init_def order_report_def)
  from alone_refines_handle_message [OF _ refl _ _ _ _ this, of 0 "[]"] obtain calls s' where
    run: "server_run False ?s calls s'" and h: "handled 0 (connection ?s 0) [] (order_report 2 buy4)
      (with_callback (Some main_trade_callback) engine2, run_callback (Some main_trade_callback) trades risk0) ?s s'"
    by (auto simp: server_init_def)
  from h have "cn_sent (connection s' 0) = [order_report 2 buy4]" "sv_mutex s' = None" by (simp_all add: handled_def server_init_def)
  with run show ?thesis by blast
qed

end
