(* ===== verification/ServerLifecycle.thy ===== *)
theory ServerLifecycle
  imports Prelude
begin

text \<open>
  The life of the server of \<^verbatim>\<open>src/network/TcpServer.cpp\<close>: \<^verbatim>\<open>start\<close> up to its accept loop, \<^verbatim>\<open>stop\<close>, the
  destructor that calls it, and the connection threads as far as they own a descriptor. One thread runs \<^verbatim>\<open>start\<close>,
  another may run \<^verbatim>\<open>stop\<close> meanwhile, so both advance one statement at a time and an \<open>event\<close> says who moves next;
  the results of the system calls are part of the events. A read or write of \<^verbatim>\<open>server_fd_\<close> or \<^verbatim>\<open>running_\<close> is one
  step; growing the vector \<^verbatim>\<open>client_threads_\<close> while \<^verbatim>\<open>stop\<close> walks over it is a data race and ends the model.

  The kernel keeps the table of open descriptors, here with their owners, among them the rest of the process. The
  model uses of it that \<^verbatim>\<open>socket\<close> and \<^verbatim>\<open>accept\<close> return a descriptor that is not open or a negative number, that
  \<^verbatim>\<open>accept\<close> on a negative descriptor fails, and that \<^verbatim>\<open>close\<close> frees whatever the number denotes.
\<close>

section \<open>State\<close>

datatype owner = Listener | Handler nat | Elsewhere

datatype start_pc = Idle | Created | Bound | Listening | Testing | Accepting int | Spawning int | Returned

datatype stop_pc = Outside | Flagged | Clearing | Joining nat

datatype notice = Socket_failed | Bind_failed | Listen_failed | Listening_on | Accept_failed | Client_connected int | Client_disconnected int

record ClientThread =
  ct_fd :: int
  ct_done :: bool
  ct_joined :: bool

record TcpServer =
  server_fd :: int
  running :: bool
  client_threads :: "nat list"
  start_at :: start_pc
  stop_at :: stop_pc
  threads :: "ClientThread list"
  fds :: "int \<rightharpoonup> owner"
  wrong_closes :: "int list"
  data_race :: bool
  notices :: "notice list"

definition TcpServer_new :: "(int \<rightharpoonup> owner) \<Rightarrow> TcpServer" where
  "TcpServer_new open_fds = \<lparr>server_fd = - 1, running = False, client_threads = [], start_at = Idle, stop_at = Outside,
     threads = [], fds = open_fds, wrong_closes = [], data_race = False, notices = []\<rparr>"

definition say :: "notice \<Rightarrow> TcpServer \<Rightarrow> TcpServer" where
  "say n s = s\<lparr>notices := notices s @ [n]\<rparr>"

text \<open>\<^verbatim>\<open>close\<close> called by an owner: a descriptor the owner does not hold is noted; it is somebody else's, or free
  and may be handed to somebody else at any moment. \<^verbatim>\<open>close(-1)\<close> is without effect.\<close>

definition close_fd :: "owner \<Rightarrow> int \<Rightarrow> TcpServer \<Rightarrow> TcpServer" where
  "close_fd ow fd s = s\<lparr>fds := (fds s)(fd := None),
     wrong_closes := (if 0 \<le> fd \<and> fds s fd \<noteq> Some ow then wrong_closes s @ [fd] else wrong_closes s)\<rparr>"

section \<open>Steps\<close>

text \<open>One statement of \<^verbatim>\<open>start\<close>; \<open>r\<close> is the result of the system call it makes, if it makes one, and \<open>None\<close> means
  that the kernel cannot answer so or that \<^verbatim>\<open>start\<close> has no statement left.\<close>

definition start_step :: "int \<Rightarrow> TcpServer \<Rightarrow> TcpServer option" where
  "start_step r s = (case start_at s of
     Idle \<Rightarrow>
       (if r < 0 then Some (say Socket_failed (s\<lparr>server_fd := r, start_at := Returned\<rparr>))
        else if fds s r \<noteq> None then None
        else Some (s\<lparr>server_fd := r, fds := (fds s)(r \<mapsto> Listener), start_at := Created\<rparr>))
   | Created \<Rightarrow>
       (if r < 0 then Some (close_fd Listener (server_fd s) (say Bind_failed (s\<lparr>start_at := Returned\<rparr>)))
        else Some (s\<lparr>start_at := Bound\<rparr>))
   | Bound \<Rightarrow>
       (if r < 0 then Some (close_fd Listener (server_fd s) (say Listen_failed (s\<lparr>start_at := Returned\<rparr>)))
        else Some (s\<lparr>start_at := Listening\<rparr>))
   | Listening \<Rightarrow> Some (say Listening_on (s\<lparr>running := True, start_at := Testing\<rparr>))
   | Testing \<Rightarrow> Some (s\<lparr>start_at := (if running s then Accepting (server_fd s) else Returned)\<rparr>)
   | Accepting fd \<Rightarrow>
       (if r < 0 then Some ((if running s then say Accept_failed s else s)\<lparr>start_at := Testing\<rparr>)
        else if fd < 0 \<or> fds s r \<noteq> None then None
        else Some (say (Client_connected r) (s\<lparr>fds := (fds s)(r \<mapsto> Handler (length (threads s))), start_at := Spawning r\<rparr>)))
   | Spawning fd \<Rightarrow>
       Some (s\<lparr>threads := threads s @ [\<lparr>ct_fd = fd, ct_done = False, ct_joined = False\<rparr>],
         client_threads := client_threads s @ [length (threads s)], start_at := Testing,
         data_race := (case stop_at s of Joining _ \<Rightarrow> True | _ \<Rightarrow> data_race s)\<rparr>)
   | Returned \<Rightarrow> None)"

text \<open>One statement of \<^verbatim>\<open>stop\<close>. A \<^verbatim>\<open>join\<close> can only complete once the thread has ended.\<close>

definition stop_step :: "TcpServer \<Rightarrow> TcpServer option" where
  "stop_step s = (case stop_at s of
     Outside \<Rightarrow> Some (s\<lparr>running := False, stop_at := Flagged\<rparr>)
   | Flagged \<Rightarrow>
       (if 0 \<le> server_fd s then Some (close_fd Listener (server_fd s) (s\<lparr>stop_at := Clearing\<rparr>))
        else Some (s\<lparr>stop_at := Joining 0\<rparr>))
   | Clearing \<Rightarrow> Some (s\<lparr>server_fd := - 1, stop_at := Joining 0\<rparr>)
   | Joining i \<Rightarrow>
       (if i < length (client_threads s)
        then (let n = client_threads s ! i; t = threads s ! n
              in if ct_joined t then Some (s\<lparr>stop_at := Joining (i + 1)\<rparr>)
                 else if ct_done t then Some (s\<lparr>threads := (threads s)[n := t\<lparr>ct_joined := True\<rparr>], stop_at := Joining (i + 1)\<rparr>)
                 else None)
        else Some (s\<lparr>client_threads := [], stop_at := Outside\<rparr>)))"

text \<open>The end of \<^verbatim>\<open>handle_client\<close> on the \<open>n\<close>-th connection.\<close>

definition client_step :: "nat \<Rightarrow> TcpServer \<Rightarrow> TcpServer option" where
  "client_step n s =
     (if n < length (threads s) \<and> \<not> ct_done (threads s ! n)
      then (let t = threads s ! n
            in Some (say (Client_disconnected (ct_fd t))
                 (close_fd (Handler n) (ct_fd t) (s\<lparr>threads := (threads s)[n := t\<lparr>ct_done := True\<rparr>]\<rparr>))))
      else None)"

datatype event = Start int | Stop | Client nat | Opens int | Closes int

fun server_step :: "event \<Rightarrow> TcpServer \<Rightarrow> TcpServer option" where
  "server_step (Start r) s = start_step r s"
| "server_step Stop s = stop_step s"
| "server_step (Client n) s = client_step n s"
| "server_step (Opens fd) s = (if 0 \<le> fd \<and> fds s fd = None then Some (s\<lparr>fds := (fds s)(fd \<mapsto> Elsewhere)\<rparr>) else None)"
| "server_step (Closes fd) s = (if fds s fd = Some Elsewhere then Some (s\<lparr>fds := (fds s)(fd := None)\<rparr>) else None)"

fun lifecycle :: "event list \<Rightarrow> TcpServer \<Rightarrow> TcpServer option" where
  "lifecycle [] s = Some s"
| "lifecycle (ev # evs) s =
     (if data_race s then None else case server_step ev s of None \<Rightarrow> None | Some s' \<Rightarrow> lifecycle evs s')"

lemma lifecycle_append [simp]:
  "lifecycle (evs @ evs') s = (case lifecycle evs s of None \<Rightarrow> None | Some s' \<Rightarrow> lifecycle evs' s')"
  by (induction evs s rule: lifecycle.induct) (auto split: option.splits)

lemma lifecycle_invariant:
  assumes run: "lifecycle evs s = Some s'" and init: "P s"
    and step: "\<And>ev s s'. ev \<in> set evs \<Longrightarrow> P s \<Longrightarrow> server_step ev s = Some s' \<Longrightarrow> P s'"
  shows "P s'"
  using run init step
proof (induction evs arbitrary: s)
  case (Cons ev evs)
  from Cons.prems(1) obtain s1 where "server_step ev s = Some s1" "lifecycle evs s1 = Some s'"
    by (auto split: if_splits option.splits)
  with Cons.IH [of s1] Cons.prems(2,3) show ?case by (auto simp: list.set_intros)
qed simp

text \<open>Every thread that has not ended is in the vector, and \<^verbatim>\<open>stop\<close> has waited for those it has passed.\<close>

definition threads_kept :: "TcpServer \<Rightarrow> bool" where
  "threads_kept s \<longleftrightarrow>
     (\<forall>n < length (threads s). n \<in> set (client_threads s) \<or> ct_done (threads s ! n))
   \<and> (\<forall>n \<in> set (client_threads s). n < length (threads s))
   \<and> (\<forall>t \<in> set (threads s). ct_joined t \<longrightarrow> ct_done t)
   \<and> (\<forall>i. stop_at s = Joining i \<longrightarrow> i \<le> length (client_threads s) \<and> (\<forall>n \<in> set (take i (client_threads s)). ct_done (threads s ! n)))"

section \<open>Who owns which descriptor\<close>

lemma thread_update [simp]:
  "ct_done (ts[n := (ts ! n)\<lparr>ct_joined := b\<rparr>] ! k) = ct_done (ts ! k)"
  "ct_fd (ts[n := (ts ! n)\<lparr>ct_joined := b\<rparr>] ! k) = ct_fd (ts ! k)"
  "n < length ts \<Longrightarrow> ct_done (ts[n := (ts ! n)\<lparr>ct_done := True\<rparr>] ! k) = (k = n \<or> ct_done (ts ! k))"
  "ct_fd (ts[n := (ts ! n)\<lparr>ct_done := True\<rparr>] ! k) = ct_fd (ts ! k)"
  by (metis ClientThread.select_convs ClientThread.surjective ClientThread.update_convs list_update_beyond not_le nth_list_update_eq
      nth_list_update_neq)+

text \<open>The descriptor the \<open>n\<close>-th connection thread holds until it ends; \<^verbatim>\<open>start\<close> holds it between \<^verbatim>\<open>accept\<close> and the
  creation of the thread.\<close>

definition thread_fd :: "TcpServer \<Rightarrow> nat \<Rightarrow> int option" where
  "thread_fd s n =
     (if n < length (threads s) then (if ct_done (threads s ! n) then None else Some (ct_fd (threads s ! n)))
      else if n = length (threads s) then (case start_at s of Spawning fd \<Rightarrow> Some fd | _ \<Rightarrow> None) else None)"

definition owned_by :: "(int \<rightharpoonup> owner) \<Rightarrow> (nat \<Rightarrow> int option) \<Rightarrow> bool" where
  "owned_by F T \<longleftrightarrow> (\<forall>fd n. F fd = Some (Handler n) \<longleftrightarrow> T n = Some fd)"

lemma owned_by_update:
  assumes own: "owned_by F T"
  shows owned_by_close: "\<forall>n. F fd \<noteq> Some (Handler n) \<Longrightarrow> owned_by (F(fd := None)) T"
    and owned_by_other: "F fd = None \<Longrightarrow> \<forall>n. ow \<noteq> Handler n \<Longrightarrow> owned_by (F(fd \<mapsto> ow)) T"
    and owned_by_accept: "F fd = None \<Longrightarrow> T n = None \<Longrightarrow> owned_by (F(fd \<mapsto> Handler n)) (T(n \<mapsto> fd))"
    and owned_by_end: "T n = Some fd \<Longrightarrow> owned_by (F(fd := None)) (T(n := None))"
proof -
  have iff: "\<And>fd n. (F fd = Some (Handler n)) = (T n = Some fd)" using own by (simp add: owned_by_def)
  show "\<forall>n. F fd \<noteq> Some (Handler n) \<Longrightarrow> owned_by (F(fd := None)) T"
    "F fd = None \<Longrightarrow> \<forall>n. ow \<noteq> Handler n \<Longrightarrow> owned_by (F(fd \<mapsto> ow)) T"
    by (auto simp: owned_by_def iff simp flip: iff split: if_splits)
  show "T n = Some fd \<Longrightarrow> owned_by (F(fd := None)) (T(n := None))"
    by (auto simp: owned_by_def iff) (metis iff option.inject owner.inject)
  show "F fd = None \<Longrightarrow> T n = None \<Longrightarrow> owned_by (F(fd \<mapsto> Handler n)) (T(n \<mapsto> fd))"
    using iff [of fd] iff [of _ n] by (auto simp: owned_by_def iff)
qed

lemma thread_fd_frame [simp]:
  "thread_fd (s\<lparr>server_fd := fd\<rparr>) = thread_fd s" "thread_fd (s\<lparr>running := b\<rparr>) = thread_fd s"
  "thread_fd (s\<lparr>client_threads := ns\<rparr>) = thread_fd s" "thread_fd (s\<lparr>stop_at := pc\<rparr>) = thread_fd s"
  "thread_fd (s\<lparr>fds := F\<rparr>) = thread_fd s" "thread_fd (s\<lparr>wrong_closes := cs\<rparr>) = thread_fd s"
  "thread_fd (s\<lparr>data_race := b\<rparr>) = thread_fd s" "thread_fd (s\<lparr>notices := msgs\<rparr>) = thread_fd s"
  "thread_fd (s\<lparr>threads := (threads s)[n := (threads s ! n)\<lparr>ct_joined := b\<rparr>]\<rparr>) = thread_fd s"
  by (rule ext, simp add: thread_fd_def)+

lemma thread_fd_start_at:
  "\<forall>fd. start_at s \<noteq> Spawning fd \<Longrightarrow> \<forall>fd. pc \<noteq> Spawning fd \<Longrightarrow> thread_fd (s\<lparr>start_at := pc\<rparr>) = thread_fd s"
  "\<forall>fd. start_at s \<noteq> Spawning fd \<Longrightarrow> thread_fd (s\<lparr>start_at := Spawning r\<rparr>) = (thread_fd s)(length (threads s) \<mapsto> r)"
  by (rule ext, simp add: thread_fd_def split: start_pc.splits)+

lemma thread_fd_spawn:
  "start_at s = Spawning fd \<Longrightarrow> \<not> ct_done t \<Longrightarrow> ct_fd t = fd \<Longrightarrow>
     thread_fd (s\<lparr>threads := threads s @ [t], client_threads := ns, start_at := Testing\<rparr>) = thread_fd s"
  by (rule ext) (simp add: thread_fd_def nth_append)

lemma thread_fd_end:
  "n < length (threads s) \<Longrightarrow> thread_fd (s\<lparr>threads := (threads s)[n := (threads s ! n)\<lparr>ct_done := True\<rparr>]\<rparr>) = (thread_fd s)(n := None)"
  by (rule ext) (simp add: thread_fd_def)

text \<open>The listening descriptor is the one in \<^verbatim>\<open>server_fd_\<close>, unless the set-up has failed; no thread is started
  before the set-up is complete.\<close>

definition setting_up :: "TcpServer \<Rightarrow> bool" where
  "setting_up s \<longleftrightarrow> start_at s \<in> {Idle, Created, Bound, Listening}"

definition setup_failed :: "TcpServer \<Rightarrow> bool" where
  "setup_failed s \<longleftrightarrow> Bind_failed \<in> set (notices s) \<or> Listen_failed \<in> set (notices s)"

definition listener_inv :: "TcpServer \<Rightarrow> bool" where
  "listener_inv s \<longleftrightarrow>
     (\<forall>fd. fds s fd = Some Listener \<longrightarrow> fd = server_fd s \<and> 0 \<le> fd \<and> start_at s \<noteq> Idle \<and> stop_at s \<noteq> Clearing)
   \<and> (start_at s = Idle \<longrightarrow> server_fd s < 0 \<and> stop_at s \<noteq> Clearing)
   \<and> (setting_up s \<longrightarrow> threads s = []) \<and> (setup_failed s \<longrightarrow> threads s = [] \<and> start_at s = Returned)
   \<and> (0 \<le> server_fd s \<and> stop_at s \<noteq> Clearing \<longrightarrow> fds s (server_fd s) = Some Listener \<or> setup_failed s)"

lemmas inv_defs = listener_inv_def setting_up_def setup_failed_def



abbreviation handlers_own :: "TcpServer \<Rightarrow> bool" where
  "handlers_own s \<equiv> owned_by (fds s) (thread_fd s)"

lemma handler_fd:
  "handlers_own s \<Longrightarrow> n < length (threads s) \<Longrightarrow> \<not> ct_done (threads s ! n) \<Longrightarrow> fds s (ct_fd (threads s ! n)) = Some (Handler n)"
  by (simp add: owned_by_def thread_fd_def)

lemma no_handlers: "handlers_own s \<Longrightarrow> threads s = [] \<Longrightarrow> \<forall>fd. start_at s \<noteq> Spawning fd \<Longrightarrow> fds s x \<noteq> Some (Handler n)"
  by (auto simp: owned_by_def thread_fd_def split: start_pc.splits)

lemma listener_inv_start: "listener_inv s \<Longrightarrow> pred_option listener_inv (start_step r s)"
  by (cases "start_at s") (auto simp: start_step_def inv_defs close_fd_def say_def)

lemma listener_inv_stop: "listener_inv s \<Longrightarrow> pred_option listener_inv (stop_step s)"
  by (cases "stop_at s") (simp_all add: stop_step_def inv_defs close_fd_def Let_def, metis not_le)

lemma listener_inv_client: "handlers_own s \<Longrightarrow> listener_inv s \<Longrightarrow> pred_option listener_inv (client_step n s)"
  using handler_fd [of s n] by (simp add: client_step_def inv_defs close_fd_def say_def Let_def) (metis option.inject owner.distinct(1))

lemma threads_kept_start: "threads_kept s \<Longrightarrow> pred_option threads_kept (start_step r s)"
  by (cases "start_at s") (auto simp: start_step_def threads_kept_def close_fd_def say_def nth_append less_Suc_eq split: stop_pc.splits dest: in_set_takeD)

lemma set_update_cases: "x \<in> set (xs[n := y]) \<Longrightarrow> x = y \<or> x \<in> set xs"
  using set_update_subset_insert by fastforce

lemma threads_kept_stop: "threads_kept s \<Longrightarrow> pred_option threads_kept (stop_step s)"
proof (cases "stop_at s")
  case (Joining i)
  assume kept: "threads_kept s"
  show ?thesis
  proof (cases "i < length (client_threads s)")
    case True
    let ?n = "client_threads s ! i"
    have "?n < length (threads s)" using kept True by (simp add: threads_kept_def)
    then have "ct_joined (threads s ! ?n) \<Longrightarrow> ct_done (threads s ! ?n)" using kept by (simp add: threads_kept_def)
    then show ?thesis using kept Joining True
      by (auto simp: stop_step_def threads_kept_def Let_def take_Suc_conv_app_nth dest!: set_update_cases)
  next
    case False
    then show ?thesis using kept Joining by (auto simp: stop_step_def threads_kept_def)
  qed
qed (simp_all add: stop_step_def threads_kept_def close_fd_def)

lemma threads_kept_client: "threads_kept s \<Longrightarrow> pred_option threads_kept (client_step n s)"
  by (auto simp: client_step_def threads_kept_def close_fd_def say_def Let_def dest!: set_update_cases)

lemma handlers_own_start: "handlers_own s \<Longrightarrow> listener_inv s \<Longrightarrow> pred_option handlers_own (start_step r s)"
proof (cases "start_at s")
  case (Accepting fd)
  assume own: "handlers_own s"
  have "thread_fd s (length (threads s)) = None" using Accepting by (simp add: thread_fd_def)
  then show ?thesis using own Accepting owned_by_accept [OF own, of r "length (threads s)"]
    by (simp add: start_step_def say_def thread_fd_start_at)
qed (simp_all add: start_step_def inv_defs close_fd_def say_def thread_fd_start_at thread_fd_spawn no_handlers owned_by_close owned_by_other)

lemma handlers_own_stop: "handlers_own s \<Longrightarrow> listener_inv s \<Longrightarrow> pred_option handlers_own (stop_step s)"
proof (cases "stop_at s")
  case Flagged
  assume inv: "handlers_own s" "listener_inv s"
  have "\<forall>n. fds s (server_fd s) \<noteq> Some (Handler n)" if "0 \<le> server_fd s"
  proof (cases "fds s (server_fd s) = Some Listener")
    case False
    then have "threads s = []" "start_at s = Returned" using inv(2) Flagged that by (simp_all add: listener_inv_def)
    then show ?thesis using no_handlers [OF inv(1)] by simp
  qed simp
  then show ?thesis using inv Flagged by (simp add: stop_step_def close_fd_def owned_by_close)
qed (simp_all add: stop_step_def Let_def)

lemma handlers_own_client: "handlers_own s \<Longrightarrow> pred_option handlers_own (client_step n s)"
  by (simp add: client_step_def Let_def close_fd_def say_def thread_fd_end owned_by_end) (simp add: owned_by_end thread_fd_def)

text \<open>Only a failed set-up makes the server close a descriptor it does not hold.\<close>

definition closes_own :: "TcpServer \<Rightarrow> bool" where
  "closes_own s \<longleftrightarrow> wrong_closes s = [] \<or> setup_failed s"

lemma closes_own_start: "closes_own s \<Longrightarrow> listener_inv s \<Longrightarrow> pred_option closes_own (start_step r s)"
  by (cases "start_at s") (simp_all add: start_step_def closes_own_def setup_failed_def close_fd_def say_def)

lemma closes_own_stop: "closes_own s \<Longrightarrow> listener_inv s \<Longrightarrow> pred_option closes_own (stop_step s)"
proof (cases "stop_at s")
  case Flagged
  assume "closes_own s" "listener_inv s"
  then have "0 \<le> server_fd s \<longrightarrow> fds s (server_fd s) = Some Listener \<or> setup_failed s" "wrong_closes s = [] \<or> setup_failed s"
    using Flagged by (simp_all add: listener_inv_def closes_own_def)
  then show ?thesis using Flagged by (auto simp: stop_step_def closes_own_def setup_failed_def close_fd_def)
qed (simp_all add: stop_step_def closes_own_def setup_failed_def Let_def)

lemma closes_own_client: "closes_own s \<Longrightarrow> handlers_own s \<Longrightarrow> pred_option closes_own (client_step n s)"
  using handler_fd [of s n] by (simp add: client_step_def closes_own_def setup_failed_def close_fd_def say_def Let_def)

definition lifecycle_inv :: "TcpServer \<Rightarrow> bool" where
  "lifecycle_inv s \<longleftrightarrow> handlers_own s \<and> listener_inv s \<and> threads_kept s \<and> closes_own s"

lemma elsewhere_frame:
  assumes "\<And>fd. (F fd = Some Listener) = (fds s fd = Some Listener)"
  shows "listener_inv (s\<lparr>fds := F\<rparr>) = listener_inv s" "threads_kept (s\<lparr>fds := F\<rparr>) = threads_kept s" "closes_own (s\<lparr>fds := F\<rparr>) = closes_own s"
  using assms by (simp_all add: inv_defs threads_kept_def closes_own_def)

lemma lifecycle_inv_step:
  assumes inv: "lifecycle_inv s" and step: "server_step ev s = Some s'"
  shows "lifecycle_inv s'"
proof (cases ev)
  case (Start r)
  then show ?thesis
    using handlers_own_start [of s r] listener_inv_start [of s r] threads_kept_start [of s r] closes_own_start [of s r] inv step
    by (simp add: lifecycle_inv_def)
next
  case Stop
  then show ?thesis
    using handlers_own_stop [of s] listener_inv_stop [of s] threads_kept_stop [of s] closes_own_stop [of s] inv step
    by (simp add: lifecycle_inv_def)
next
  case (Client n)
  then show ?thesis
    using handlers_own_client [of s n] listener_inv_client [of s n] threads_kept_client [of s n] closes_own_client [of s n] inv step
    by (simp add: lifecycle_inv_def)
next
  case (Opens fd)
  then have s': "s' = s\<lparr>fds := (fds s)(fd \<mapsto> Elsewhere)\<rparr>" and fd: "fds s fd = None" using step by (simp_all split: if_splits)
  have "handlers_own s'" using inv fd by (simp add: s' lifecycle_inv_def owned_by_other)
  then show ?thesis using inv fd elsewhere_frame [of "fds s'" s] by (simp add: s' lifecycle_inv_def)
next
  case (Closes fd)
  then have s': "s' = s\<lparr>fds := (fds s)(fd := None)\<rparr>" and fd: "fds s fd = Some Elsewhere" using step by (simp_all split: if_splits)
  have "handlers_own s'" using inv fd by (simp add: s' lifecycle_inv_def owned_by_close)
  then show ?thesis using inv fd elsewhere_frame [of "fds s'" s] by (simp add: s' lifecycle_inv_def)
qed

lemma lifecycle_inv_init: "ran open_fds \<subseteq> {Elsewhere} \<Longrightarrow> lifecycle_inv (TcpServer_new open_fds)"
  by (auto simp: TcpServer_new_def lifecycle_inv_def owned_by_def thread_fd_def inv_defs threads_kept_def closes_own_def ran_def)

lemma lifecycle_inv_run:
  "ran open_fds \<subseteq> {Elsewhere} \<Longrightarrow> lifecycle evs (TcpServer_new open_fds) = Some s \<Longrightarrow> lifecycle_inv s"
  by (rule lifecycle_invariant [where P = lifecycle_inv]) (auto intro: lifecycle_inv_init lifecycle_inv_step)

section \<open>Properties\<close>

text \<open>C26. Whatever the interleaving of \<^verbatim>\<open>start\<close>, \<^verbatim>\<open>stop\<close> and the connection threads, the server closes only descriptors
  it holds at that moment, unless binding or listening has failed.\<close>

theorem closes_only_its_own:
  assumes "ran open_fds \<subseteq> {Elsewhere}" and "lifecycle evs (TcpServer_new open_fds) = Some s"
    and "Bind_failed \<notin> set (notices s)" and "Listen_failed \<notin> set (notices s)"
  shows "wrong_closes s = []"
  using lifecycle_inv_run [OF assms(1,2)] assms(3,4) by (simp add: lifecycle_inv_def closes_own_def setup_failed_def)

theorem closes_only_its_own_witness:
  "\<exists>s. lifecycle [Start 3, Start 0, Start 0, Start 0, Start 0, Start 4, Start 0, Client 0, Stop, Stop, Stop] (TcpServer_new [1 \<mapsto> Elsewhere]) = Some s
     \<and> fds s = [1 \<mapsto> Elsewhere] \<and> wrong_closes s = []"
proof -
  define evs where "evs = [Start 3, Start 0, Start 0, Start 0, Start 0, Start 4, Start 0, Client 0, Stop, Stop, Stop]"
  define s where "s = the (lifecycle evs (TcpServer_new [1 \<mapsto> Elsewhere]))"
  have "lifecycle evs (TcpServer_new [1 \<mapsto> Elsewhere]) = Some s" "Bind_failed \<notin> set (notices s)" "Listen_failed \<notin> set (notices s)"
    "fds s = [1 \<mapsto> Elsewhere]"
    by (simp_all add: s_def evs_def TcpServer_new_def start_step_def client_step_def stop_step_def close_fd_def say_def fun_eq_iff)
  with closes_only_its_own [of "[1 \<mapsto> Elsewhere]" evs s] show ?thesis by (auto simp: evs_def)
qed

text \<open>When binding or listening fails, \<^verbatim>\<open>start\<close> closes the socket but leaves its number in \<^verbatim>\<open>server_fd_\<close>, and
  \<^verbatim>\<open>stop\<close>, which the destructor calls, closes it again. If another part of the process has opened a file in between,
  it may have been given this number, and its file is closed.\<close>

theorem failed_start_closes_twice:
  assumes "0 \<le> fd" and "open_fds fd = None" and "failed = [Start fd, Start (-1)] \<or> failed = [Start fd, Start 0, Start (-1)]"
  shows "\<exists>s. lifecycle (failed @ [Opens fd, Stop, Stop, Stop, Stop]) (TcpServer_new open_fds) = Some s
     \<and> stop_at s = Outside \<and> fds s fd = None \<and> wrong_closes s = [fd]"
  using assms by (auto simp: TcpServer_new_def start_step_def stop_step_def close_fd_def say_def)

theorem failed_start_closes_twice_witness:
  "\<exists>s. lifecycle ([Start 3, Start (-1)] @ [Opens 3, Stop, Stop, Stop, Stop]) (TcpServer_new Map.empty) = Some s
     \<and> stop_at s = Outside \<and> fds s 3 = None \<and> wrong_closes s = [3]"
  using failed_start_closes_twice [of 3 Map.empty "[Start 3, Start (-1)]"] by simp

text \<open>How far \<^verbatim>\<open>start\<close> is from returning once the flag is down.\<close>

fun is_start :: "event \<Rightarrow> bool" where
  "is_start (Start r) = True"
| "is_start _ = False"

definition in_loop :: "TcpServer \<Rightarrow> bool" where
  "in_loop s \<longleftrightarrow> (case start_at s of Testing \<Rightarrow> True | Accepting _ \<Rightarrow> True | Spawning _ \<Rightarrow> True | Returned \<Rightarrow> True | _ \<Rightarrow> False)"

fun steps_left :: "start_pc \<Rightarrow> nat" where
  "steps_left (Accepting fd) = 3" | "steps_left (Spawning fd) = 2" | "steps_left Testing = 1" | "steps_left _ = 0"

lemma flag_down_step:
  assumes "\<not> running s" and "in_loop s" and "server_step ev s = Some s'"
  shows "\<not> running s' \<and> in_loop s' \<and> (if is_start ev then 1 else 0) + steps_left (start_at s') \<le> steps_left (start_at s)"
proof (cases ev)
  case (Start r)
  have "pred_option (\<lambda>s1. \<not> running s1 \<and> in_loop s1 \<and> Suc (steps_left (start_at s1)) \<le> steps_left (start_at s)) (start_step r s)"
    using assms(1,2) by (cases "start_at s") (auto simp: start_step_def in_loop_def say_def)
  with Start assms(3) show ?thesis by simp
next
  case Stop
  have "pred_option (\<lambda>s1. \<not> running s1 \<and> start_at s1 = start_at s) (stop_step s)"
    using assms(1) by (cases "stop_at s") (auto simp: stop_step_def close_fd_def Let_def)
  with Stop assms(2,3) show ?thesis by (simp add: in_loop_def)
next
  case (Client n)
  have "pred_option (\<lambda>s1. \<not> running s1 \<and> start_at s1 = start_at s) (client_step n s)"
    using assms(1) by (simp add: client_step_def close_fd_def say_def Let_def)
  with Client assms(2,3) show ?thesis by (simp add: in_loop_def)
qed (use assms in \<open>auto simp: in_loop_def split: if_splits\<close>)

lemma flag_down_run:
  assumes "lifecycle evs s = Some s'" and "\<not> running s" and "in_loop s"
  shows "in_loop s' \<and> length (filter is_start evs) + steps_left (start_at s') \<le> steps_left (start_at s)"
  using assms
proof (induction evs arbitrary: s)
  case (Cons ev evs)
  then obtain s1 where s1: "server_step ev s = Some s1" "lifecycle evs s1 = Some s'" by (auto split: if_splits option.splits)
  from flag_down_step [OF Cons.prems(2,3) s1(1)] Cons.IH [OF s1(2)] show ?case by auto
qed simp

text \<open>Once \<^verbatim>\<open>stop\<close> has cleared the flag, \<^verbatim>\<open>start\<close> takes at most three more steps, and only a pending \<^verbatim>\<open>accept\<close>
  can keep it from returning.\<close>

theorem stop_ends_accept_loop:
  assumes "in_loop s" and "stop_at s = Outside" and "lifecycle (Stop # evs) s = Some s'"
  shows "length (filter is_start evs) \<le> 3 \<and>
    (start_at s' = Returned \<or> (\<exists>fd. start_at s' = Accepting fd) \<or> (\<forall>r. start_step r s' \<noteq> None))"
proof -
  from assms(2,3) have "lifecycle evs (s\<lparr>running := False, stop_at := Flagged\<rparr>) = Some s'"
    by (simp add: stop_step_def split: if_splits)
  from flag_down_run [OF this] have "in_loop s'" "length (filter is_start evs) \<le> steps_left (start_at s)"
    using assms(1) by (simp_all add: in_loop_def)
  moreover have "steps_left pc \<le> 3" for pc by (cases pc) simp_all
  ultimately show ?thesis
    by (auto simp: in_loop_def start_step_def intro: order_trans split: start_pc.splits)
qed

theorem stop_ends_accept_loop_witness:
  "\<exists>s s'. lifecycle [Start 3, Start 0, Start 0, Start 0, Start 0] (TcpServer_new Map.empty) = Some s \<and> in_loop s \<and> stop_at s = Outside
     \<and> lifecycle [Stop, Start 4, Start 0, Start 0] s = Some s' \<and> length (filter is_start [Start 4, Start 0, Start 0]) \<le> 3
     \<and> (start_at s' = Returned \<or> (\<exists>fd. start_at s' = Accepting fd) \<or> (\<forall>r. start_step r s' \<noteq> None))"
proof -
  define s where "s = the (lifecycle [Start 3, Start 0, Start 0, Start 0, Start 0] (TcpServer_new Map.empty))"
  define s' where "s' = the (lifecycle [Stop, Start 4, Start 0, Start 0] s)"
  have 1: "lifecycle [Start 3, Start 0, Start 0, Start 0, Start 0] (TcpServer_new Map.empty) = Some s" "in_loop s" "stop_at s = Outside"
    by (simp_all add: s_def TcpServer_new_def start_step_def say_def in_loop_def)
  have 2: "lifecycle [Stop, Start 4, Start 0, Start 0] s = Some s'"
    by (simp add: s'_def s_def TcpServer_new_def start_step_def say_def stop_step_def)
  from stop_ends_accept_loop [OF 1(2,3) 2] 1 2 show ?thesis by blast
qed

definition early_stop :: "event list" where
  "early_stop = [Start 3, Start 0, Start 0, Stop, Stop, Stop, Stop, Start 0]"

text \<open>A \<^verbatim>\<open>stop\<close> that comes after \<^verbatim>\<open>listen\<close> and before \<^verbatim>\<open>start\<close> sets the flag is lost: it returns, the listening socket is
  closed, and \<^verbatim>\<open>start\<close> then loops over a failing \<^verbatim>\<open>accept(-1)\<close> and never returns.\<close>

theorem early_stop_is_lost:
  "\<exists>s. lifecycle (early_stop @ replicate (2 * n) (Start (-1))) (TcpServer_new Map.empty) = Some s
     \<and> stop_at s = Outside \<and> fds s = Map.empty \<and> start_at s = Testing \<and> running s"
proof -
  have "\<exists>s'. lifecycle (replicate (2 * n) (Start (-1))) s = Some s' \<and> stop_at s' = Outside \<and> fds s' = Map.empty \<and> start_at s' = Testing
      \<and> running s'"
    if "stop_at s = Outside" "fds s = Map.empty" "start_at s = Testing" "running s" "\<not> data_race s" for s
    using that
  proof (induction n arbitrary: s)
    case (Suc n)
    define s1 where "s1 = s\<lparr>notices := notices s @ [Accept_failed], start_at := Testing\<rparr>"
    have "lifecycle (replicate (2 * Suc n) (Start (-1))) s = lifecycle (replicate (2 * n) (Start (-1))) s1"
      using Suc.prems by (simp add: start_step_def say_def s1_def)
    with Suc.IH [of s1] Suc.prems show ?case by (simp add: s1_def)
  qed simp
  then show ?thesis by (simp add: early_stop_def TcpServer_new_def start_step_def stop_step_def close_fd_def say_def)
qed

text \<open>A \<^verbatim>\<open>stop\<close> that overlaps with an \<^verbatim>\<open>accept\<close> races with \<^verbatim>\<open>start\<close> on the vector of threads.\<close>

theorem stop_races_with_accept:
  "\<exists>s. lifecycle [Start 3, Start 0, Start 0, Start 0, Start 0, Start 4, Stop, Stop, Stop, Start 0] (TcpServer_new Map.empty) = Some s
     \<and> data_race s"
  by (simp add: TcpServer_new_def start_step_def stop_step_def close_fd_def say_def)

text \<open>The state of a server in its destructor.\<close>

definition stopping :: "TcpServer \<Rightarrow> bool" where
  "stopping s \<longleftrightarrow> start_at s \<in> {Idle, Returned} \<and> (stop_at s \<notin> {Flagged} \<longrightarrow> (\<forall>fd. fds s fd \<noteq> Some Listener))
     \<and> (stop_at s = Outside \<longrightarrow> client_threads s = [])"

lemma stopping_step:
  assumes "stopping s" and "lifecycle_inv s" and "server_step ev s = Some s'" and "\<not> is_start ev"
  shows "stopping s'"
proof (cases ev)
  case Stop
  have "pred_option stopping (stop_step s)"
    using assms(1,2) by (cases "stop_at s") (auto simp: stopping_def stop_step_def close_fd_def Let_def lifecycle_inv_def listener_inv_def)
  with Stop assms(3) show ?thesis by simp
next
  case (Client n)
  have "pred_option stopping (client_step n s)"
    using assms(1) by (auto simp: stopping_def client_step_def close_fd_def say_def Let_def)
  with Client assms(3) show ?thesis by simp
qed (use assms in \<open>auto simp: stopping_def split: if_splits\<close>)

text \<open>C27. The destructor of a server whose \<^verbatim>\<open>start\<close> has returned or was never called: when its \<^verbatim>\<open>stop\<close> returns, every connection
  thread has ended, no descriptor of the server is open and no data race has occurred.\<close>

theorem destructor_releases_everything:
  assumes "ran open_fds \<subseteq> {Elsewhere}" and "lifecycle evs (TcpServer_new open_fds) = Some s"
    and "start_at s \<in> {Idle, Returned}" and "stop_at s = Outside"
    and "lifecycle (Stop # evs') s = Some s'" and "filter is_start evs' = []" and "stop_at s' = Outside"
  shows "list_all ct_done (threads s') \<and> ran (fds s') \<subseteq> {Elsewhere}"
proof -
  define s1 where "s1 = s\<lparr>running := False, stop_at := Flagged\<rparr>"
  have run: "lifecycle evs' s1 = Some s'" and s1: "server_step Stop s = Some s1"
    using assms(4,5) by (simp_all add: stop_step_def s1_def split: if_splits)
  have "lifecycle_inv s1" by (rule lifecycle_inv_step [OF lifecycle_inv_run [OF assms(1,2)] s1])
  moreover have "stopping s1" using assms(3) by (simp add: stopping_def s1_def)
  ultimately have "lifecycle_inv s1 \<and> stopping s1" ..
  then have inv: "lifecycle_inv s' \<and> stopping s'"
    by (rule lifecycle_invariant [OF run, where P = "\<lambda>s. lifecycle_inv s \<and> stopping s"])
      (use assms(6) in \<open>auto intro: lifecycle_inv_step stopping_step simp: filter_empty_conv\<close>)
  then have ended: "\<forall>n < length (threads s'). ct_done (threads s' ! n)" and "\<forall>fd. fds s' fd \<noteq> Some Listener"
    using assms(7) by (auto simp: lifecycle_inv_def stopping_def threads_kept_def)
  moreover have "thread_fd s' n \<noteq> Some fd" for n fd
    using ended inv by (auto simp: thread_fd_def stopping_def split: start_pc.splits)
  then have "fds s' fd \<noteq> Some (Handler n)" for fd n using inv by (simp add: lifecycle_inv_def owned_by_def)
  ultimately show ?thesis by (auto simp: list_all_length ran_def) (metis owner.exhaust)
qed

definition late_accept :: "event list" where
  "late_accept = [Start 3, Start 0, Start 0, Start 0, Start 0, Stop, Stop, Stop, Stop, Start 4, Start 0, Start 0]"

theorem destructor_releases_everything_witness:
  "\<exists>s s'. lifecycle late_accept (TcpServer_new Map.empty) = Some s \<and> \<not> ct_done (threads s ! 0)
     \<and> lifecycle (Stop # [Stop, Client 0, Stop, Stop]) s = Some s' \<and> list_all ct_done (threads s') \<and> ran (fds s') \<subseteq> {Elsewhere}"
proof -
  define s where "s = the (lifecycle late_accept (TcpServer_new Map.empty))"
  define s' where "s' = the (lifecycle (Stop # [Stop, Client 0, Stop, Stop]) s)"
  note defs = late_accept_def TcpServer_new_def start_step_def client_step_def stop_step_def close_fd_def say_def
  have 1: "lifecycle late_accept (TcpServer_new Map.empty) = Some s" "start_at s \<in> {Idle, Returned}" "stop_at s = Outside" "\<not> ct_done (threads s ! 0)"
    by (simp_all add: s_def defs)
  have 2: "lifecycle (Stop # [Stop, Client 0, Stop, Stop]) s = Some s'" "stop_at s' = Outside" by (simp_all add: s'_def s_def defs)
  from destructor_releases_everything [OF _ 1(1,2,3) 2(1) _ 2(2)] 1 2 show ?thesis by auto
qed

end
