(* ===== verification/RandomNumbers.thy ===== *)
theory RandomNumbers
  imports Double "HOL-Library.State_Monad"
begin

text \<open>
  The random numbers of the program: \<^verbatim>\<open>std::mt19937\<close>, the Mersenne Twister, which the C++ standard defines bit by bit
  (the transition and generation algorithms of \<open>mersenne_twister_engine\<close> with the parameters of \<open>mt19937\<close>), and the
  distributions, of which the standard fixes the range and the density but not the algorithm. The engine is defined
  here; the distributions are a parameter, the record \<open>distributions\<close>, with their documented ranges as the predicate
  \<open>in_range\<close>. \<^verbatim>\<open>Trader::random_double\<close> and \<^verbatim>\<open>Trader::random_int\<close> draw from them.

  Computations that draw are written in the state monad of the library, over the state of an engine.
\<close>

unbundle bit_operations_syntax

section \<open>The engine\<close>

text \<open>The state is the last 624 words of the sequence, the oldest first.\<close>

type_synonym mt19937 = "32 word list"

primrec mt_seed_from :: "nat \<Rightarrow> nat \<Rightarrow> 32 word \<Rightarrow> mt19937" where
  "mt_seed_from i 0 x = []"
| "mt_seed_from i (Suc n) x = x # mt_seed_from (Suc i) n (1812433253 * (x XOR drop_bit 30 x) + of_nat i)"

definition mt_seed :: "32 word \<Rightarrow> mt19937" where
  "mt_seed value = mt_seed_from 1 624 value"

text \<open>The next word of the sequence: the upper bit of the oldest word and the lower 31 bits of the one after it, shifted,
  with the word 397 places on.\<close>

definition mt_twist :: "32 word \<Rightarrow> 32 word \<Rightarrow> 32 word \<Rightarrow> 32 word" where
  "mt_twist x0 x1 xm =
     (let y = (x0 AND 0x80000000) OR (x1 AND 0x7FFFFFFF)
      in xm XOR drop_bit 1 y XOR 0x9908B0DF * (y AND 1))"

definition mt_temper :: "32 word \<Rightarrow> 32 word" where
  "mt_temper x =
     (let z1 = x XOR drop_bit 11 x;
          z2 = z1 XOR (push_bit 7 z1 AND 0x9D2C5680);
          z3 = z2 XOR (push_bit 15 z2 AND 0xEFC60000)
      in z3 XOR drop_bit 18 z3)"

text \<open>\<^verbatim>\<open>rng()\<close>.\<close>

definition mt_next :: "(mt19937, 32 word) state" where
  "mt_next = State (\<lambda>xs. (let x = mt_twist (xs ! 0) (xs ! 1) (xs ! 397) in (mt_temper x, tl xs @ [x])))"

lemma length_mt_seed_from [simp]: "length (mt_seed_from i n x) = n"
  by (induction n arbitrary: i x) simp_all

lemma length_mt_seed [simp]: "length (mt_seed s) = 624"
  by (simp add: mt_seed_def)

lemma length_mt_next: "length xs = 624 \<Longrightarrow> length (snd (run_state mt_next xs)) = 624"
  by (simp add: mt_next_def Let_def)

text \<open>The first number from the seed of the price walk is the one the published generator gives.\<close>

lemma mt_first_42: "fst (run_state mt_next (mt_seed 42)) = 1608637542"
  by code_simp

section \<open>Distributions\<close>

text \<open>\<^verbatim>\<open>std::uniform_real_distribution<double>\<close> and \<^verbatim>\<open>std::uniform_int_distribution<int>\<close> are made afresh for every
  draw; a \<^verbatim>\<open>std::normal_distribution<double>\<close> may keep a number back for the next draw, so it has a state \<open>'n\<close> of its own.\<close>

record 'n distributions =
  uniform_real :: "double \<Rightarrow> double \<Rightarrow> (mt19937, double) state"
  uniform_int :: "int \<Rightarrow> int \<Rightarrow> (mt19937, int) state"
  normal_init :: 'n
  normal_dist :: "double \<Rightarrow> double \<Rightarrow> (mt19937 \<times> 'n, double) state"

text \<open>The documented ranges: a uniform draw lies between its bounds when they are in order.\<close>

definition in_range :: "'n distributions \<Rightarrow> bool" where
  "in_range D \<longleftrightarrow>
     (\<forall>a b rng. dle a b \<longrightarrow> dle a (fst (run_state (uniform_real D a b) rng)) \<and> dle (fst (run_state (uniform_real D a b) rng)) b)
     \<and> (\<forall>a b rng. a \<le> b \<longrightarrow> a \<le> fst (run_state (uniform_int D a b) rng) \<and> fst (run_state (uniform_int D a b) rng) \<le> b)"

definition random_double :: "'n distributions \<Rightarrow> double \<Rightarrow> double \<Rightarrow> (mt19937, double) state" where
  "random_double D min' max' = uniform_real D min' max'"

definition random_int :: "'n distributions \<Rightarrow> int \<Rightarrow> int \<Rightarrow> (mt19937, int) state" where
  "random_int D min' max' = uniform_int D min' max'"

lemma random_double_range:
  assumes "in_range D" and "dle a b" and "run_state (random_double D a b) rng = (x, rng')"
  shows "dle a x" "dle x b"
  using assms by (metis fst_conv in_range_def random_double_def)+

lemma random_int_range:
  assumes "in_range D" and "a \<le> b" and "run_state (random_int D a b) rng = (x, rng')"
  shows "a \<le> x" "x \<le> b"
  using assms by (metis fst_conv in_range_def random_int_def)+

text \<open>A list of draws from one generator.\<close>

lemma length_traverse: "length (fst (run_state (traverse_list f xs) s)) = length xs"
  by (induction xs arbitrary: s) (simp_all add: split_def)

lemma traverse_all:
  assumes "\<And>s. P (fst (run_state m s))"
  shows "\<forall>y \<in> set (fst (run_state (traverse_list (\<lambda>_. m) xs) s)). P y"
  using assms by (induction xs arbitrary: s) (simp_all add: split_def)

section \<open>Distributions by reduction\<close>

text \<open>An implementation that has the documented ranges: an integer by the remainder of one number of the engine, a real that
  is one of its bounds by the number's parity, and a normal draw that is always the mean.\<close>

definition reduce_int :: "int \<Rightarrow> int \<Rightarrow> (mt19937, int) state" where
  "reduce_int a b = do { x \<leftarrow> mt_next; State_Monad.return (a + uint x mod (b - a + 1)) }"

definition reduce_real :: "double \<Rightarrow> double \<Rightarrow> (mt19937, double) state" where
  "reduce_real a b = do { x \<leftarrow> mt_next; State_Monad.return (if bit x 0 then b else a) }"

definition by_reduction :: "unit distributions" where
  "by_reduction = \<lparr>uniform_real = reduce_real, uniform_int = reduce_int, normal_init = (), normal_dist = (\<lambda>m s. State_Monad.return m)\<rparr>"

lemma by_reduction_in_range: "in_range by_reduction"
proof -
  have "uint (x :: 32 word) mod (b - a + 1) \<le> b - a" if "a \<le> b" for a b :: int and x
    using that pos_mod_bound [of "b - a + 1" "uint x"] by simp
  then show ?thesis
    by (auto simp: in_range_def by_reduction_def reduce_int_def reduce_real_def dle_def split: prod.split)
      (metis add.commute le_diff_eq)
qed

end
