(* ===== verification/Traders.thy ===== *)
theory Traders
  imports MatchingEngine
begin

text \<open>
  The agents of \<^verbatim>\<open>include/simulation/Trader.h\<close> and \<^verbatim>\<open>src/simulation/\<close>: their accounts, and what each does
  on a tick. All five share one engine and one \<^verbatim>\<open>order_owner_\<close> map; the part of the simulation that
  the trade callback updates is the state \<open>Market\<close> threaded through the engine. Agents are numbered in the
  order the simulation runs them: the market maker 0, the momentum trader 1, the noise traders 2 to 4.

  Random draws come from generators seeded by \<^verbatim>\<open>std::random_device\<close>: they are arguments.
\<close>

section \<open>Accounts\<close>

record TraderStats =
  ts_position :: "64 word"
  ts_cash :: double
  ts_starting_cash :: double
  ts_orders_sent :: uint64
  ts_fills_received :: uint64
  ts_cancels_sent :: uint64
  ts_total_pnl :: double

definition TraderStats_new :: "double \<Rightarrow> TraderStats" where
  "TraderStats_new cash = \<lparr>ts_position = 0, ts_cash = cash, ts_starting_cash = cash, ts_orders_sent = 0,
     ts_fills_received = 0, ts_cancels_sent = 0, ts_total_pnl = dzero\<rparr>"

definition calculate_pnl :: "double \<Rightarrow> TraderStats \<Rightarrow> double" where
  "calculate_pnl current_price st =
     dadd (dsub (ts_cash st) (ts_starting_cash st)) (dmul (of_sint (ts_position st)) current_price)"

definition trader_on_fill :: "Side \<Rightarrow> Price \<Rightarrow> Quantity \<Rightarrow> TraderStats \<Rightarrow> TraderStats" where
  "trader_on_fill side price quantity st =
     (let st1 = st\<lparr>ts_fills_received := ts_fills_received st + 1\<rparr>
      in if side = Buy
         then st1\<lparr>ts_position := ts_position st1 + ucast quantity, ts_cash := dsub (ts_cash st1) (dmul price (of_uint quantity))\<rparr>
         else st1\<lparr>ts_position := ts_position st1 - ucast quantity, ts_cash := dadd (ts_cash st1) (dmul price (of_uint quantity))\<rparr>)"

section \<open>The state behind the trade callback\<close>

type_synonym agent = nat

record Market =
  accounts :: "TraderStats list"
  order_owner :: "(OrderId \<times> agent) list"
  trade_log :: "Trade list"
  price_history :: "double list"

abbreviation (input) market_maker :: agent where "market_maker \<equiv> 0"
abbreviation (input) momentum_trader :: agent where "momentum_trader \<equiv> 1"

definition update_account :: "agent \<Rightarrow> (TraderStats \<Rightarrow> TraderStats) \<Rightarrow> Market \<Rightarrow> Market" where
  "update_account a f m = m\<lparr>accounts := (accounts m)[a := f (accounts m ! a)]\<rparr>"

definition account :: "agent \<Rightarrow> Market \<Rightarrow> TraderStats" where
  "account a m = accounts m ! a"

text \<open>\<^verbatim>\<open>MomentumTrader::update_price\<close>, with the window of 20 prices its constructor sets.\<close>

definition window_size :: nat where
  "window_size = 20"

definition update_price :: "double \<Rightarrow> Market \<Rightarrow> Market" where
  "update_price price m =
     (let h = price_history m @ [price] in m\<lparr>price_history := (if window_size < length h then tl h else h)\<rparr>)"

text \<open>The callback \<^verbatim>\<open>Simulation::run\<close> registers.\<close>

definition route_fill :: "OrderId \<Rightarrow> Side \<Rightarrow> Trade \<Rightarrow> Market \<Rightarrow> Market" where
  "route_fill i side t m =
     (case map_of (order_owner m) i of
        None \<Rightarrow> m
      | Some a \<Rightarrow> update_account a (trader_on_fill side (t_price t) (t_quantity t)) m)"

definition sim_callback :: "Market TradeCallback" where
  "sim_callback t m =
     (let m1 = m\<lparr>trade_log := trade_log m @ [t]\<rparr>;
          m2 = route_fill (t_buy_order_id t) Buy t m1;
          m3 = route_fill (t_sell_order_id t) Sell t m2
      in update_price (t_price t) m3)"

section \<open>Sending orders\<close>

type_synonym sim = "Market MatchingEngine \<times> Market"

definition send_order :: "clock \<Rightarrow> string \<Rightarrow> agent \<Rightarrow> Side \<Rightarrow> OrderType \<Rightarrow> Price \<Rightarrow> Quantity \<Rightarrow> sim \<Rightarrow> (OrderId \<times> sim) option" where
  "send_order now symb a side ty price quantity = (\<lambda>(e, m).
     (let m1 = update_account a (\<lambda>st. st\<lparr>ts_orders_sent := ts_orders_sent st + 1\<rparr>) m
      in case submit_order now symb side ty price quantity (e, m1) of
           None \<Rightarrow> None
         | Some (i, e', m2) \<Rightarrow>
             Some (i, e', if 0 < i then m2\<lparr>order_owner := AList.update i a (order_owner m2)\<rparr> else m2)))"

definition send_cancel :: "string \<Rightarrow> agent \<Rightarrow> OrderId \<Rightarrow> sim \<Rightarrow> bool \<times> sim" where
  "send_cancel symb a i = (\<lambda>(e, m).
     (let m1 = update_account a (\<lambda>st. st\<lparr>ts_cancels_sent := ts_cancels_sent st + 1\<rparr>) m;
          (c, e') = engine_cancel_order symb i e
      in (c, e', m1)))"

section \<open>The market maker\<close>

record MarketMaker =
  fair_value :: double
  half_spread :: double
  quote_size :: Quantity
  mm_max_position :: int
  skew_factor :: double
  active_bid_id :: OrderId
  active_ask_id :: OrderId

definition MarketMaker_new :: "double \<Rightarrow> MarketMaker" where
  "MarketMaker_new fair = \<lparr>fair_value = fair, half_spread = dlit 5 100, quote_size = 100, mm_max_position = 1000,
     skew_factor = dlit 1 1000, active_bid_id = 0, active_ask_id = 0\<rparr>"

definition set_fair_value :: "double \<Rightarrow> MarketMaker \<Rightarrow> MarketMaker" where
  "set_fair_value fv mm = mm\<lparr>fair_value := fv\<rparr>"

definition round_to_cent :: "double \<Rightarrow> double" where
  "round_to_cent price = ddiv (dround (dmul price (dlit 100 1))) (dlit 100 1)"

definition mm_quotes :: "double \<Rightarrow> 64 word \<Rightarrow> MarketMaker \<Rightarrow> double \<times> double" where
  "mm_quotes noise pos mm =
     (let skew = dmul (of_sint (- pos)) (skew_factor mm);
          bid_price = round_to_cent (dadd (dadd (dsub (fair_value mm) (half_spread mm)) skew) noise);
          ask_price = round_to_cent (dadd (dadd (dadd (fair_value mm) (half_spread mm)) skew) noise)
      in (bid_price, if dle ask_price bid_price then dadd bid_price (dlit 1 100) else ask_price))"

definition mm_cancel_stale :: "string \<Rightarrow> MarketMaker \<times> sim \<Rightarrow> MarketMaker \<times> sim" where
  "mm_cancel_stale symb = (\<lambda>(mm, s).
     (let (mm1, s1) = (if 0 < active_bid_id mm
                       then (mm\<lparr>active_bid_id := 0\<rparr>, snd (send_cancel symb market_maker (active_bid_id mm) s)) else (mm, s))
      in if 0 < active_ask_id mm1
         then (mm1\<lparr>active_ask_id := 0\<rparr>, snd (send_cancel symb market_maker (active_ask_id mm1) s1)) else (mm1, s1)))"

definition mm_on_tick :: "double \<Rightarrow> clock \<Rightarrow> clock \<Rightarrow> string \<Rightarrow> MarketMaker \<times> sim \<Rightarrow> (MarketMaker \<times> sim) option" where
  "mm_on_tick noise now_bid now_ask symb st =
     (let (mm, s) = mm_cancel_stale symb st;
          (bid_price, ask_price) = mm_quotes noise (ts_position (account market_maker (snd s))) mm
      in case (if sint (ts_position (account market_maker (snd s))) < mm_max_position mm
               then (case send_order now_bid symb market_maker Buy Limit bid_price (quote_size mm) s of
                       None \<Rightarrow> None | Some (i, s1) \<Rightarrow> Some (mm\<lparr>active_bid_id := i\<rparr>, s1))
               else Some (mm, s)) of
           None \<Rightarrow> None
         | Some (mm1, s1) \<Rightarrow>
             (if - mm_max_position mm1 < sint (ts_position (account market_maker (snd s1)))
              then (case send_order now_ask symb market_maker Sell Limit ask_price (quote_size mm1) s1 of
                      None \<Rightarrow> None | Some (i, s2) \<Rightarrow> Some (mm1\<lparr>active_ask_id := i\<rparr>, s2))
              else Some (mm1, s1)))"

section \<open>The momentum trader\<close>

record MomentumTrader =
  threshold :: double
  trade_size :: Quantity
  mom_max_position :: int
  last_trade_tick :: uint64
  cooldown_ticks :: uint64

definition MomentumTrader_new :: MomentumTrader where
  "MomentumTrader_new = \<lparr>threshold = dlit 10 100, trade_size = 50, mom_max_position = 500, last_trade_tick = 0, cooldown_ticks = 5\<rparr>"

definition mom_on_tick :: "clock \<Rightarrow> string \<Rightarrow> uint64 \<Rightarrow> MomentumTrader \<times> sim \<Rightarrow> (MomentumTrader \<times> sim) option" where
  "mom_on_tick now symb tick_num = (\<lambda>(mt, s).
     (let h = price_history (snd s); pos = sint (ts_position (account momentum_trader (snd s)))
      in if length h < window_size then Some (mt, s)
         else if tick_num - last_trade_tick mt < cooldown_ticks mt then Some (mt, s)
         else (let sum = fold (\<lambda>x acc. dadd acc x) h dzero;
                   sma = ddiv sum (of_uint (of_nat (length h) :: uint64));
                   deviation = dsub (last h) sma
               in if dgt deviation (threshold mt) \<and> pos < mom_max_position mt
                  then (case send_order now symb momentum_trader Buy Market dzero (trade_size mt) s of
                          None \<Rightarrow> None | Some (i, s1) \<Rightarrow> Some (mt\<lparr>last_trade_tick := tick_num\<rparr>, s1))
                  else if dlt deviation (dneg (threshold mt)) \<and> - mom_max_position mt < pos
                  then (case send_order now symb momentum_trader Sell Market dzero (trade_size mt) s of
                          None \<Rightarrow> None | Some (i, s1) \<Rightarrow> Some (mt\<lparr>last_trade_tick := tick_num\<rparr>, s1))
                  else Some (mt, s))))"

section \<open>The noise traders\<close>

text \<open>The draws of one tick, in the order the code makes them, and the reference price.\<close>

record NoiseDraws =
  draw_trade :: double
  draw_side :: int
  draw_lots :: nat
  draw_limit :: double
  draw_offset :: double

record NoiseTrader =
  reference_price :: double
  trade_probability :: double
  max_size :: int
  price_range :: double

definition NoiseTrader_new :: NoiseTrader where
  "NoiseTrader_new = \<lparr>reference_price = dlit 100 1, trade_probability = dlit 3 10, max_size = 200, price_range = dlit 1 2\<rparr>"

definition set_reference_price :: "double \<Rightarrow> NoiseTrader \<Rightarrow> NoiseTrader" where
  "set_reference_price price nt = nt\<lparr>reference_price := price\<rparr>"

text \<open>The draws a generator can make for a trader: \<^verbatim>\<open>random_int(1, max_size_ / 10)\<close> and \<^verbatim>\<open>random_double(-price_range_, price_range_)\<close>.\<close>

definition draws_in_range :: "NoiseTrader \<Rightarrow> NoiseDraws \<Rightarrow> bool" where
  "draws_in_range nt d \<longleftrightarrow> 1 \<le> draw_lots d \<and> int (draw_lots d) \<le> max_size nt div 10
     \<and> dle (dneg (price_range nt)) (draw_offset d) \<and> dle (draw_offset d) (price_range nt) \<and> draw_side d \<in> {0, 1}"

definition noise_on_tick :: "NoiseDraws \<Rightarrow> clock \<Rightarrow> string \<Rightarrow> agent \<Rightarrow> NoiseTrader \<Rightarrow> sim \<Rightarrow> sim option" where
  "noise_on_tick d now symb a nt s =
     (if dgt (draw_trade d) (trade_probability nt) then Some s
      else (let side = (if draw_side d = 0 then Buy else Sell);
                qty = of_nat (draw_lots d * 10)
            in if dlt (draw_limit d) (dlit 7 10)
               then (let price = round_to_cent (dadd (reference_price nt) (draw_offset d));
                         price' = (if dle price dzero then dlit 1 100 else price)
                     in map_option snd (send_order now symb a side Limit price' qty s))
               else map_option snd (send_order now symb a side Market dzero qty s)))"

text \<open>The quantity of an order of a noise trader is a round lot of at least ten shares and at most its size limit.\<close>

lemma noise_lots:
  assumes "draws_in_range nt d" and "max_size nt \<le> 1000"
  shows "10 \<le> uint (of_nat (draw_lots d * 10) :: Quantity) \<and> uint (of_nat (draw_lots d * 10) :: Quantity) \<le> max_size nt"
proof -
  have d: "1 \<le> draw_lots d" "int (draw_lots d * 10) \<le> max_size nt" using assms(1) by (auto simp: draws_in_range_def)
  then have "draw_lots d * 10 < 2 ^ 32" using assms(2) by simp
  then have "unat (of_nat (draw_lots d * 10) :: Quantity) = draw_lots d * 10" unfolding unat_of_nat by simp
  then have "uint (of_nat (draw_lots d * 10) :: Quantity) = int (draw_lots d * 10)" by (simp only: uint_nat)
  then show ?thesis using d by simp
qed

end
