(* ===== verification/Simulation.thy ===== *)
theory Simulation
  imports Traders
begin

text \<open>
  \<^verbatim>\<open>src/simulation/Simulation.cpp\<close>: the set-up, one tick, the loop and the results. The draws of a tick and
  the clocks of its submissions are its \<open>TickInput\<close>: the return of the price walk, the market
  maker's noise and the draws of the three noise traders. What is printed is
  in \<open>SimulationOutput\<close>; the condition that decides whether to print is here, because it divides.

  \<open>Inl\<close> is a run that does not come to its end: a division by zero, which is undefined in C++, or an engine
  call that does not return.
\<close>

section \<open>State\<close>

record SimulationConfig =
  cfg_symbol :: string
  initial_price :: double
  num_ticks :: uint64
  price_volatility :: double

definition SimulationConfig_default :: SimulationConfig where
  "SimulationConfig_default = \<lparr>cfg_symbol = ''AAPL'', initial_price = dlit 150 1, num_ticks = 10000,
     price_volatility = dlit 1 1000\<rparr>"

record SimState =
  sm_maker :: MarketMaker
  sm_momentum :: MomentumTrader
  sm_sim :: sim
  true_price :: double

text \<open>The constructor, and the callback \<^verbatim>\<open>run\<close> registers before the loop.\<close>

definition Simulation_new :: "SimulationConfig \<Rightarrow> SimState" where
  "Simulation_new config =
     \<lparr>sm_maker = MarketMaker_new (initial_price config), sm_momentum = MomentumTrader_new,
      sm_sim = (MatchingEngine_new, \<lparr>accounts = replicate 5 (TraderStats_new (dlit 100000 1)), order_owner = [],
                                     trade_log = [], price_history = []\<rparr>),
      true_price = initial_price config\<rparr>"

definition sim_start :: "SimState \<Rightarrow> SimState" where
  "sim_start st = st\<lparr>sm_sim := (set_trade_callback sim_callback (fst (sm_sim st)), snd (sm_sim st))\<rparr>"

record TickInput =
  return_pct :: double
  maker_noise :: double
  noise_draws :: "nat \<Rightarrow> NoiseDraws"
  clocks :: "nat \<Rightarrow> clock"

datatype sim_error = DivisionByZero | NoReturn

section \<open>A tick\<close>

definition next_price :: "double \<Rightarrow> double \<Rightarrow> double" where
  "next_price ret price = dmax (dmul price (dadd (dlit 1 1) ret)) (dlit 1 100)"

text \<open>Of a noise trader only the reference price ever changes, and every tick sets it before the trader reads it.\<close>

fun noise_ticks :: "TickInput \<Rightarrow> string \<Rightarrow> double \<Rightarrow> nat list \<Rightarrow> sim \<Rightarrow> sim option" where
  "noise_ticks inp symb price [] s = Some s"
| "noise_ticks inp symb price (j # js) s =
     (case noise_on_tick (noise_draws inp j) (clocks inp (3 + j)) symb (2 + j) (set_reference_price price NoiseTrader_new) s of
        None \<Rightarrow> None | Some s1 \<Rightarrow> noise_ticks inp symb price js s1)"

definition agents_tick :: "SimulationConfig \<Rightarrow> TickInput \<Rightarrow> uint64 \<Rightarrow> SimState \<Rightarrow> SimState option" where
  "agents_tick config inp tick st =
     (case mm_on_tick (maker_noise inp) (clocks inp 0) (clocks inp 1) (cfg_symbol config) (sm_maker st, sm_sim st) of
        None \<Rightarrow> None
      | Some (mm, s1) \<Rightarrow>
          (case mom_on_tick (clocks inp 2) (cfg_symbol config) tick (sm_momentum st, s1) of
             None \<Rightarrow> None
           | Some (mt, s2) \<Rightarrow>
               (case noise_ticks inp (cfg_symbol config) (true_price st) [0, 1, 2] s2 of
                  None \<Rightarrow> None
                | Some s3 \<Rightarrow> Some (st\<lparr>sm_maker := mm, sm_momentum := mt, sm_sim := s3\<rparr>))))"

text \<open>The price walk, and the new price given to the market maker and, on the first tick, to the momentum trader; the
  noise traders read it from the state.\<close>

definition push_price :: "double \<Rightarrow> uint64 \<Rightarrow> SimState \<Rightarrow> SimState" where
  "push_price ret tick st =
     (let price = next_price ret (true_price st);
          st1 = st\<lparr>true_price := price, sm_maker := set_fair_value price (sm_maker st)\<rparr>
      in if tick = 0 then st1\<lparr>sm_sim := (fst (sm_sim st1), update_price price (snd (sm_sim st1)))\<rparr> else st1)"

definition sim_tick :: "SimulationConfig \<Rightarrow> TickInput \<Rightarrow> uint64 \<Rightarrow> SimState \<Rightarrow> sim_error + SimState" where
  "sim_tick config inp tick st =
     (case agents_tick config inp tick (push_price (return_pct inp) tick st) of
        None \<Rightarrow> Inl NoReturn
      | Some st1 \<Rightarrow> if 0 < tick \<and> num_ticks config div 10 = 0 then Inl DivisionByZero else Inr st1)"

section \<open>The run\<close>

primrec sim_loop :: "SimulationConfig \<Rightarrow> (nat \<Rightarrow> TickInput) \<Rightarrow> nat \<Rightarrow> SimState \<Rightarrow> sim_error + SimState" where
  "sim_loop config inputs 0 st = Inr st"
| "sim_loop config inputs (Suc n) st =
     (case sim_loop config inputs n st of
        Inl err \<Rightarrow> Inl err
      | Inr st1 \<Rightarrow> sim_tick config (inputs n) (of_nat n) st1)"

record TraderResult =
  tr_name :: string
  tr_final_position :: "64 word"
  tr_pnl :: double
  tr_orders_sent :: uint64
  tr_fills_received :: uint64

record SimulationResults =
  sr_total_ticks :: uint64
  sr_total_orders :: uint64
  sr_total_cancels :: uint64
  sr_total_trades :: uint64
  sr_total_volume :: uint64
  sr_total_notional :: double
  sr_wall_clock_sec :: double
  sr_avg_latency_ns :: double
  sr_min_latency_ns :: double
  sr_max_latency_ns :: double
  sr_final_price :: double
  sr_price_return_pct :: double
  sr_trader_results :: "TraderResult list"

definition trader_result :: "string \<Rightarrow> double \<Rightarrow> TraderStats \<Rightarrow> TraderResult" where
  "trader_result name price st = \<lparr>tr_name = name, tr_final_position = ts_position st, tr_pnl = calculate_pnl price st,
     tr_orders_sent = ts_orders_sent st, tr_fills_received = ts_fills_received st\<rparr>"

definition agent_name :: "agent \<Rightarrow> string" where
  "agent_name a = (if a = market_maker then ''MarketMaker'' else if a = momentum_trader then ''MomentumTrader'' else ''NoiseTrader'')"

definition sim_results :: "SimulationConfig \<Rightarrow> double \<Rightarrow> SimState \<Rightarrow> SimulationResults" where
  "sim_results config wall_sec st =
     (let es = stats (fst (sm_sim st)); price = true_price st
      in \<lparr>sr_total_ticks = num_ticks config, sr_total_orders = total_orders es, sr_total_cancels = total_cancels es,
          sr_total_trades = total_trades es, sr_total_volume = total_volume es, sr_total_notional = total_notional es,
          sr_wall_clock_sec = wall_sec, sr_avg_latency_ns = avg_latency_ns es,
          sr_min_latency_ns = of_uint (min_latency_ns es), sr_max_latency_ns = of_uint (max_latency_ns es),
          sr_final_price = price,
          sr_price_return_pct = dmul (ddiv (dsub price (initial_price config)) (initial_price config)) (dlit 100 1),
          sr_trader_results = map (\<lambda>a. trader_result (agent_name a) price (account a (snd (sm_sim st)))) [0..<5]\<rparr>)"

definition simulation_run :: "SimulationConfig \<Rightarrow> double \<Rightarrow> (nat \<Rightarrow> TickInput) \<Rightarrow> sim_error + SimulationResults" where
  "simulation_run config wall_sec inputs =
     (case sim_loop config inputs (unat (num_ticks config)) (sim_start (Simulation_new config)) of
        Inl err \<Rightarrow> Inl err
      | Inr st \<Rightarrow> Inr (sim_results config wall_sec st))"

end
