(* ===== verification/SimulationCorrect.thy ===== *)
theory SimulationCorrect
  imports Simulation MessageLoop EngineCorrect
begin

text \<open>
  The theorems on the simulation. Its invariant has three parts: the engine's own (\<open>engine_inv\<close>); the accounts fit
  the trade log (\<open>market_ok\<close>); and the registered owners fit the book (\<open>owners_ok\<close>). The heart is
  \<open>send_order_inv\<close>: in every trade of a submission one order is new, hence not registered yet, and the
  other rests on the book, hence registered to an agent that sends limit orders.
\<close>

declare One_nat_def [simp del]

section \<open>Prices\<close>

lemma literals [simp]:
  "finite_double (dlit 100 1)" "nonzero (dlit 100 1)" "finite_double (dlit 1 100)" "0 < rank (dlit 1 100)"
  "finite_double (dlit 5 100)" "finite_double (dlit 1 1000)" "units (dlit 1 1000) < 2 ^ (1074 + 22)"
  "finite_double (dlit 1 1)" "finite_double (dlit 100000 1)"
  using dlit_number [of 1 100000] dlit_number [of 1 100] dlit_number [of 100 1] dlit_number [of 100 5] dlit_number [of 1000 1] dlit_number [of 1 1]
  by simp_all

lemma finite_not_nan: "finite_double d \<Longrightarrow> \<not> is_nan d"
  by (simp add: finite_double_def)

lemma round_to_cent_number: "\<not> is_nan p \<Longrightarrow> \<not> is_nan (round_to_cent p)"
  unfolding round_to_cent_def
  using literals(1) by (intro ddiv_number dround_number dmul_number) (simp_all add: finite_double_def)

lemma skew_finite: "finite_double (dmul (of_sint (w :: 64 word)) (dlit 1 1000))"
  using dmul_finite [OF of_sint_finite(1) literals(6) of_sint_finite(2) literals(7)] by simp

lemma mm_quotes_number:
  assumes "\<not> is_nan (fair_value mm)" and "finite_double noise" and "half_spread mm = dlit 5 100" and "skew_factor mm = dlit 1 1000"
    and "mm_quotes noise pos mm = (bid, ask)"
  shows "\<not> is_nan bid" "\<not> is_nan ask"
  using assms(5) assms(1-4)
  by (auto simp: mm_quotes_def Let_def round_to_cent_number dadd_number dsub_number skew_finite split: if_splits)

text \<open>A price and a return factor that are positive give a positive price.\<close>

definition good_price :: "double \<Rightarrow> bool" where
  "good_price p \<longleftrightarrow> \<not> is_nan p \<and> 0 < rank p"

lemma next_price_good:
  assumes "good_price p" and "good_price (dadd (dlit 1 1) ret)"
  shows "good_price (next_price ret p)"
proof -
  let ?x = "dmul p (dadd (dlit 1 1) ret)"
  have "\<not> is_nan ?x" using assms by (intro dmul_number) (auto simp: good_price_def intro: nonzero_positive)
  moreover have "\<not> is_nan (dlit 1 100)" by (simp add: finite_not_nan)
  moreover from calculation have "0 < rank (next_price ret p)"
    by (auto simp: next_price_def dmax_def double_cmp not_less intro: order_less_le_trans [OF literals(4)])
  ultimately show ?thesis by (auto simp: good_price_def next_price_def dmax_def)
qed

section \<open>Fills\<close>

definition unfilled :: "TraderStats \<Rightarrow> bool" where
  "unfilled st \<longleftrightarrow> ts_position st = 0 \<and> ts_fills_received st = 0 \<and> ts_cash st = ts_starting_cash st
     \<and> finite_double (ts_cash st)"

definition fills :: "Market \<Rightarrow> uint64" where
  "fills m = (\<Sum>st \<leftarrow> accounts m. ts_fills_received st)"

lemma of_ratio_zero: "0 < d \<Longrightarrow> of_ratio s 0 d = Double s 0"
  by (subst of_ratio_finite(1) [of d 0 53]) (simp_all add: round_ratio_def round_half_even_def bit_len.simps)

lemma dsub_self: "finite_double c \<Longrightarrow> mag (dsub c c) = 0"
  by (auto simp: dsub_def dadd_def finite_double_def signed_units_def dneg_def units_def is_nan_def is_inf_def Let_def)

lemma dmul_zero: "finite_double p \<Longrightarrow> mag z = 0 \<Longrightarrow> mag (dmul z p) = 0"
  by (simp add: dmul_def finite_double_def is_nan_def is_inf_def inf_mag_def units_zero [THEN iffD2] of_ratio_zero Let_def)

lemma dadd_zeros: "mag x = 0 \<Longrightarrow> mag y = 0 \<Longrightarrow> deq (dadd x y) dzero"
  by (simp add: dadd_def is_nan_def is_inf_def inf_mag_def signed_units_def units_zero [THEN iffD2] deq_def rank_def Let_def dzero_def)

lemma unfilled_pnl:
  assumes "unfilled st" and "finite_double price"
  shows "deq (calculate_pnl price st) dzero"
proof -
  have "mag (of_sint (0 :: 64 word)) = 0" by (simp add: of_sint_def of_ratio_zero)
  then show ?thesis
    using assms unfolding calculate_pnl_def by (intro dadd_zeros) (auto simp: unfilled_def dsub_self dmul_zero)
qed

text \<open>The accounts and the trade log fit: every logged trade is one fill of one account, and the
  momentum trader has none.\<close>

definition market_ok :: "Market \<Rightarrow> bool" where
  "market_ok m \<longleftrightarrow> length (accounts m) = 5 \<and> unfilled (account momentum_trader m)
     \<and> fills m = of_nat (length (trade_log m)) \<and> length (price_history m) \<le> window_size"

lemma fills_update:
  assumes "a < length (accounts m)"
  shows "fills (update_account a f m) =
    fills m + (ts_fills_received (f (account a m)) - ts_fills_received (account a m))"
proof -
  have "sum_list ((map g xs)[i := v]) = sum_list (map g xs) + (v - g (xs ! i))" if "i < length xs"
    for i v xs and g :: "TraderStats \<Rightarrow> uint64"
    using that by (induction xs arbitrary: i) (auto simp: algebra_simps split: nat.splits)
  then show ?thesis using assms by (simp add: fills_def update_account_def account_def map_update)
qed

lemma market_ok_update:
  assumes "market_ok m" and "a < 5" and "ts_fills_received (f (account a m)) = ts_fills_received (account a m)"
    and "a = momentum_trader \<Longrightarrow> unfilled (f (account a m))"
  shows "market_ok (update_account a f m)"
  using assms fills_update [of a m f]
  by (auto simp: market_ok_def update_account_def account_def nth_list_update)

lemma market_ok_count:
  assumes "market_ok m" and "a < 5"
  shows "market_ok (update_account a (\<lambda>st. st\<lparr>ts_orders_sent := ts_orders_sent st + 1\<rparr>) m)"
    "market_ok (update_account a (\<lambda>st. st\<lparr>ts_cancels_sent := ts_cancels_sent st + 1\<rparr>) m)"
  using assms(1) by (auto intro!: market_ok_update [OF assms]) (auto simp: market_ok_def unfilled_def)

text \<open>A trade of which one side is not registered and the other belongs to another agent than the
  momentum trader.\<close>

definition one_sided :: "(OrderId \<times> agent) list \<Rightarrow> Trade \<Rightarrow> bool" where
  "one_sided own t \<longleftrightarrow> (\<exists>a. a < 5 \<and> a \<noteq> momentum_trader \<and>
     (map_of own (t_buy_order_id t) = None \<and> map_of own (t_sell_order_id t) = Some a
      \<or> map_of own (t_buy_order_id t) = Some a \<and> map_of own (t_sell_order_id t) = None))"

lemma on_fill_received [simp]: "ts_fills_received (trader_on_fill sd p q st) = ts_fills_received st + 1"
  by (simp add: trader_on_fill_def Let_def)

lemma update_account_frame [simp]:
  "order_owner (update_account a f m) = order_owner m" "trade_log (update_account a f m) = trade_log m"
  "price_history (update_account a f m) = price_history m" "length (accounts (update_account a f m)) = length (accounts m)"
  by (simp_all add: update_account_def)

lemma sim_callback_ok:
  assumes ok: "market_ok m" and one: "one_sided (order_owner m) t"
  shows "market_ok (sim_callback t m) \<and> order_owner (sim_callback t m) = order_owner m
    \<and> trade_log (sim_callback t m) = trade_log m @ [t]"
proof -
  obtain a sd where a: "a < 5" "a \<noteq> momentum_trader"
    and cb: "sim_callback t m = update_price (t_price t)
      (update_account a (trader_on_fill sd (t_price t) (t_quantity t)) (m\<lparr>trade_log := trade_log m @ [t]\<rparr>))"
    using one by (auto simp: one_sided_def sim_callback_def route_fill_def Let_def)
  have "fills (m\<lparr>trade_log := l\<rparr>) = fills m" for l by (simp add: fills_def)
  moreover have "fills (update_price p m') = fills m'" for p m' by (simp add: fills_def update_price_def Let_def)
  ultimately have "fills (sim_callback t m) = fills m + 1"
    using ok a by (simp add: cb fills_update market_ok_def)
  then show ?thesis
    using ok a unfolding cb
    by (auto simp: market_ok_def update_price_def Let_def account_def update_account_def nth_list_update)
qed

lemma run_callback_ok:
  assumes "market_ok m" and "\<forall>t \<in> set trades. one_sided (order_owner m) t"
  shows "market_ok (run_callback (Some sim_callback) trades m)
    \<and> order_owner (run_callback (Some sim_callback) trades m) = order_owner m
    \<and> trade_log (run_callback (Some sim_callback) trades m) = trade_log m @ trades"
  using assms
proof (induction trades arbitrary: m)
  case (Cons t ts)
  then show ?case using sim_callback_ok [of m t] by (auto simp: run_callback_def)
qed (simp add: run_callback_def)

section \<open>Orders of the agents\<close>

lemma a_next_abs: "a_next (abs_book b) = next_order_id b"
  by (simp add: abs_book_def)

text \<open>Who owns the orders: every registered id was given out, and every resting order belongs to an agent other than
  the momentum trader, which sends only market orders.\<close>

definition owners_ok :: "(OrderId \<times> agent) list \<Rightarrow> OrderBook \<Rightarrow> bool" where
  "owners_ok own b \<longleftrightarrow> (\<forall>i. i \<ge> next_order_id b \<longrightarrow> map_of own i = None)
     \<and> (\<forall>i \<in> a_ids (abs_book b). \<exists>a. map_of own i = Some a \<and> a < 5 \<and> a \<noteq> momentum_trader)"

definition sim_inv :: "string \<Rightarrow> nat \<Rightarrow> sim \<Rightarrow> bool" where
  "sim_inv symb k = (\<lambda>(e, m). engine_inv k e \<and> trade_callback e = Some sim_callback \<and> market_ok m
     \<and> owners_ok (order_owner m) (book_of e symb) \<and> total_trades (stats e) = of_nat (length (trade_log m)))"

definition sends :: "agent \<Rightarrow> OrderType \<Rightarrow> Price \<Rightarrow> bool" where
  "sends a ty price \<longleftrightarrow> a < 5 \<and> (a = momentum_trader \<longrightarrow> ty = Market) \<and> (ty = Market \<or> \<not> is_nan price)"

lemma trades_one_sided:
  assumes own: "owners_ok own b" and fs: "\<And>r f. (r, f) \<in> set fs \<Longrightarrow> o_id r \<in> a_ids (abs_book b)"
    and t: "t \<in> set (trades_of now n buy (next_order_id b) fs)"
  shows "one_sided own t"
proof -
  obtain r q where "(r, q) \<in> set fs" "aggressor buy t = next_order_id b" "aggressor (\<not> buy) t = o_id r"
    using trades_of_mem [OF t] by metis
  then show ?thesis using own fs by (cases buy) (force simp: owners_ok_def one_sided_def aggressor_def)+
qed

lemma owners_ok_register:
  assumes own: "owners_ok own b" and suc: "unat (next_order_id b + 1) = unat (next_order_id b) + 1"
    and ord: "sends a ty price" and next': "next_order_id b' = next_order_id b + 1"
    and ids: "a_ids (abs_book b') \<subseteq> a_ids (abs_book b) \<union> (if may_rest ty then {next_order_id b} else {})"
  shows "owners_ok (AList.update (next_order_id b) a own) b'"
proof -
  have "next_order_id b < j" if "next_order_id b' \<le> j" for j
    using that suc by (simp add: next' word_le_nat_alt word_less_nat_alt)
  then have "map_of (AList.update (next_order_id b) a own) j = None" if "next_order_id b' \<le> j" for j
    using own that by (force simp: owners_ok_def update_conv')
  moreover have "next_order_id b \<notin> a_ids (abs_book b)" using own by (auto simp: owners_ok_def)
  then have "\<exists>c. map_of (AList.update (next_order_id b) a own) j = Some c \<and> c < 5 \<and> c \<noteq> momentum_trader"
    if "j \<in> a_ids (abs_book b')" for j
    using that ids ord own by (auto simp: owners_ok_def update_conv' sends_def may_rest_def split: if_splits)
  ultimately show ?thesis by (simp add: owners_ok_def)
qed

text \<open>An accepted order: its trades each touch one agent, and the identifier it got is the next one registered.\<close>

lemma submit_accepted_owners:
  assumes inv: "sim_inv symb k (e, m)" and ord: "sends a ty price" and k: "k + 1 < 2 ^ 64" and acc: "accepted ty price q"
    and m1: "market_ok m1" "order_owner m1 = order_owner m" "trade_log m1 = trade_log m"
    and sub: "submit_order now symb sd ty price q (e, m1) = Some (i, e', m2)"
  shows "market_ok m2" "owners_ok (AList.update i a (order_owner m2)) (book_of e' symb)" "0 < i"
    "total_trades (stats e') = of_nat (length (trade_log m2))"
proof -
  have einv: "engine_inv k e" and cb: "trade_callback e = Some sim_callback"
    and own: "owners_ok (order_owner m) (book_of e symb)" and tot: "total_trades (stats e) = of_nat (length (trade_log m))"
    using inv by (simp_all add: sim_inv_def)
  let ?b = "book_of e symb" and ?ord = "incoming_order now e symb sd ty price q"
  have "engine_ok e" "next_order_id ?b + 1 \<noteq> 0"
    using einv next_id_suc(2) [OF einv k] by (simp_all add: engine_inv_def)
  then have "submittable e symb ty price" using ord by (auto simp: submittable_def sends_def)
  moreover obtain fs a' where spec: "a_submit ?ord (abs_book ?b) = (fs, a')" by fastforce
  ultimately have i: "i = next_order_id ?b" and e': "abs_book (book_of e' symb) = a'"
    and m2: "m2 = run_callback (Some sim_callback) (trades_of (\<lambda>i. now (2 + i)) 0 (sd = Buy) i fs) m1"
    and tot': "total_trades (stats e') = total_trades (stats e) + of_nat (length (trades_of (\<lambda>i. now (2 + i)) 0 (sd = Buy) i fs))"
    using submit_accepted [OF acc _ spec refl, of m1] sub cb by (auto simp: record_trade_totals)
  have "o_id ?ord = next_order_id ?b" "o_type ?ord = ty" by (simp_all add: incoming_order_def)
  note ids = a_submit_ids [OF spec, unfolded this]
  have "\<forall>t \<in> set (trades_of (\<lambda>i. now (2 + i)) 0 (sd = Buy) i fs). one_sided (order_owner m1) t"
    using trades_one_sided [OF own ids(2)] by (simp add: i m1)
  from run_callback_ok [OF m1(1) this] have "market_ok m2" "order_owner m2 = order_owner m"
    "total_trades (stats e') = of_nat (length (trade_log m2))"
    using tot tot' m1 by (simp_all add: m2)
  moreover have "owners_ok (AList.update i a (order_owner m)) (book_of e' symb)"
    unfolding i using ids(1,3)
    by (intro owners_ok_register [OF own next_id_suc(1) [OF einv k] ord]) (simp_all only: a_next_abs flip: e')
  moreover have "0 < i"
    using engine_ok_book [of e symb] \<open>engine_ok e\<close> by (auto simp: i book_inv_def book_ok_def word_neq_0_conv)
  ultimately show "market_ok m2" "owners_ok (AList.update i a (order_owner m2)) (book_of e' symb)" "0 < i"
    "total_trades (stats e') = of_nat (length (trade_log m2))"
    by simp_all
qed

lemma send_order_inv:
  assumes inv: "sim_inv symb k s" and ord: "sends a ty price" and k: "k + 1 < 2 ^ 64"
  shows "\<exists>i s'. send_order now symb a sd ty price q s = Some (i, s') \<and> sim_inv symb (k + 1) s'"
proof -
  obtain e m where s: "s = (e, m)" by fastforce
  define m1 where "m1 = update_account a (\<lambda>st. st\<lparr>ts_orders_sent := ts_orders_sent st + 1\<rparr>) m"
  have "market_ok m" "a < 5" using inv ord by (simp_all add: s sim_inv_def sends_def)
  then have m1: "market_ok m1" "order_owner m1 = order_owner m" "trade_log m1 = trade_log m"
    unfolding m1_def by (auto intro: market_ok_count)
  have einv: "engine_inv k e" and cb: "trade_callback e = Some sim_callback"
    and own: "owners_ok (order_owner m) (book_of e symb)" and tot: "total_trades (stats e) = of_nat (length (trade_log m))"
    using inv by (simp_all add: s sim_inv_def)
  obtain i e' m2 where sub: "submit_order now symb sd ty price q (e, m1) = Some (i, e', m2)" and einv': "engine_inv (k + 1) e'"
    using submit_engine_inv [OF einv _ k] ord unfolding sends_def by metis
  let ?own = "if 0 < i then AList.update i a (order_owner m2) else order_owner m2"
  have "market_ok m2 \<and> owners_ok ?own (book_of e' symb) \<and> total_trades (stats e') = of_nat (length (trade_log m2))"
  proof (cases "accepted ty price q")
    case True
    from submit_accepted_owners [OF inv [unfolded s] ord k this m1 sub] show ?thesis by simp
  next
    case False
    from submit_rejected [OF this, of now symb sd e m1] sub have "i = 0" "m2 = m1" "total_trades (stats e') = total_trades (stats e)"
      "book_of e' symb = book_of e symb" using get_order_book_same [of e' symb e] by auto
    then show ?thesis using own tot m1 by simp
  qed
  then have "sim_inv symb (k + 1) (e', if 0 < i then m2\<lparr>order_owner := AList.update i a (order_owner m2)\<rparr> else m2)"
    using einv' submit_frame(2) [OF sub] cb by (auto simp: sim_inv_def market_ok_def account_def fills_def)
  then show ?thesis by (auto simp: send_order_def s sub simp flip: m1_def)
qed

lemma send_cancel_inv:
  assumes inv: "sim_inv symb k s" and "a < 5"
  shows "sim_inv symb k (snd (send_cancel symb a i s))"
proof -
  obtain e m where s: "s = (e, m)" by fastforce
  have ok: "engine_ok e" using inv by (simp add: s sim_inv_def engine_inv_def)
  let ?e = "snd (engine_cancel_order symb i e)"
  have b: "abs_book (book_of ?e symb) = a_cancel i (abs_book (book_of e symb))" by (rule engine_cancel_effect(2) [OF ok])
  moreover from this have "next_order_id (book_of ?e symb) = next_order_id (book_of e symb)"
    by (simp add: abs_book_def a_cancel_def map_sides_def)
  moreover have "a_ids (a_cancel i (abs_book (book_of e symb))) \<subseteq> a_ids (abs_book (book_of e symb))"
    by (auto simp: a_ids_def a_cancel_def map_sides_def)
  ultimately have "owners_ok (order_owner m) (book_of ?e symb)" using inv by (auto simp: s sim_inv_def owners_ok_def subset_iff)
  then show ?thesis
    using inv \<open>a < 5\<close> cancel_engine_inv [of k e symb i] engine_cancel_effect(4,5) [OF ok, of symb i]
    by (simp add: s sim_inv_def send_cancel_def Let_def case_prod_unfold market_ok_count)
qed

section \<open>Ticks of the agents\<close>

lemma sim_inv_mono: "sim_inv symb k s \<Longrightarrow> k \<le> k' \<Longrightarrow> sim_inv symb k' s"
  using engine_inv_mono by (auto simp: sim_inv_def)

definition maker_ok :: "MarketMaker \<Rightarrow> bool" where
  "maker_ok mm \<longleftrightarrow> half_spread mm = dlit 5 100 \<and> skew_factor mm = dlit 1 1000 \<and> \<not> is_nan (fair_value mm)"

lemma mm_cancel_stale_inv:
  assumes "sim_inv symb k s" and "maker_ok mm" and "mm_cancel_stale symb (mm, s) = (mm', s')"
  shows "sim_inv symb k s'" "maker_ok mm'"
  using assms by (auto simp: mm_cancel_stale_def maker_ok_def split: if_splits intro!: send_cancel_inv)

lemma mm_on_tick_inv:
  assumes inv: "sim_inv symb k s" and mm: "maker_ok mm" and noise: "finite_double noise" and k: "k + 2 < 2 ^ 64"
  shows "\<exists>mm' s'. mm_on_tick noise now1 now2 symb (mm, s) = Some (mm', s') \<and> sim_inv symb (k + 2) s' \<and> maker_ok mm'"
proof -
  obtain mm1 s1 where 1: "mm_cancel_stale symb (mm, s) = (mm1, s1)" by (meson surj_pair)
  note inv1 = mm_cancel_stale_inv [OF inv mm 1]
  obtain bid ask where q: "mm_quotes noise (ts_position (account market_maker (snd s1))) mm1 = (bid, ask)" by fastforce
  have "sends market_maker Limit bid" "sends market_maker Limit ask"
    using mm_quotes_number [OF _ noise _ _ q] inv1(2) by (simp_all add: maker_ok_def sends_def)
  note send = send_order_inv [OF _ this(1)] send_order_inv [OF _ this(2)]
  have "\<exists>mm2 s2. (if sint (ts_position (account market_maker (snd s1))) < mm_max_position mm1
      then (case send_order now1 symb market_maker Buy Limit bid (quote_size mm1) s1 of
        None \<Rightarrow> None | Some (i, s2) \<Rightarrow> Some (mm1\<lparr>active_bid_id := i\<rparr>, s2))
      else Some (mm1, s1)) = Some (mm2, s2) \<and> sim_inv symb (k + 1) s2 \<and> maker_ok mm2"
    using send(1) [OF inv1(1), of now1 Buy "quote_size mm1"] inv1 sim_inv_mono [OF inv1(1)] k by (auto simp: maker_ok_def simp del: split_paired_Ex)
  then obtain mm2 s2 where 2: "(if sint (ts_position (account market_maker (snd s1))) < mm_max_position mm1
      then (case send_order now1 symb market_maker Buy Limit bid (quote_size mm1) s1 of
        None \<Rightarrow> None | Some (i, s2) \<Rightarrow> Some (mm1\<lparr>active_bid_id := i\<rparr>, s2))
      else Some (mm1, s1)) = Some (mm2, s2)" and inv2: "sim_inv symb (k + 1) s2" "maker_ok mm2" by blast
  have "\<exists>mm3 s3. (if - mm_max_position mm2 < sint (ts_position (account market_maker (snd s2)))
      then (case send_order now2 symb market_maker Sell Limit ask (quote_size mm2) s2 of
        None \<Rightarrow> None | Some (i, s3) \<Rightarrow> Some (mm2\<lparr>active_ask_id := i\<rparr>, s3))
      else Some (mm2, s2)) = Some (mm3, s3) \<and> sim_inv symb (k + 1 + 1) s3 \<and> maker_ok mm3"
    using send(2) [OF inv2(1), of now2 Sell "quote_size mm2"] inv2 sim_inv_mono [OF inv2(1), of "k + 1 + 1"] k by (auto simp: maker_ok_def simp del: split_paired_Ex)
  moreover have "k + 2 = k + 1 + 1" by simp
  ultimately show ?thesis by (simp only: mm_on_tick_def 1 q 2 Let_def case_prod_conv option.case)
qed

lemma mom_on_tick_inv:
  assumes "sim_inv symb k s" and "k + 1 < 2 ^ 64"
  shows "\<exists>mt' s'. mom_on_tick now symb tick (mt, s) = Some (mt', s') \<and> sim_inv symb (k + 1) s'"
proof -
  have "sends momentum_trader Market dzero" by (simp add: sends_def)
  note send = send_order_inv [OF assms(1) this assms(2), of now]
  from send [of Buy "trade_size mt"] send [of Sell "trade_size mt"] sim_inv_mono [OF assms(1), of "k + 1"]
  show ?thesis by (auto simp: mom_on_tick_def Let_def simp del: split_paired_Ex)
qed

lemma noise_on_tick_inv:
  assumes "sim_inv symb k s" and "\<not> is_nan price" and "finite_double (draw_offset d)" and "a < 5" and "a \<noteq> momentum_trader"
    and "k + 1 < 2 ^ 64"
  shows "\<exists>s'. noise_on_tick d now symb a (set_reference_price price nt) s = Some s' \<and> sim_inv symb (k + 1) s'"
proof -
  let ?p = "round_to_cent (dadd price (draw_offset d))"
  have "\<not> is_nan (if dle ?p dzero then dlit 1 100 else ?p)"
    using assms(2,3) by (simp add: round_to_cent_number dadd_number finite_not_nan)
  then have "sends a Limit (if dle ?p dzero then dlit 1 100 else ?p)" "sends a Market dzero"
    using assms(4,5) by (simp_all add: sends_def)
  note send = this [THEN send_order_inv [OF assms(1) _ assms(6)], of now]
  show ?thesis
    using send(1) [of "if draw_side d = 0 then Buy else Sell" "of_nat (draw_lots d * 10)"]
      send(2) [of "if draw_side d = 0 then Buy else Sell" "of_nat (draw_lots d * 10)"] sim_inv_mono [OF assms(1), of "k + 1"]
    unfolding noise_on_tick_def Let_def by (auto simp: set_reference_price_def simp del: split_paired_Ex)
qed

section \<open>A tick and the run\<close>

definition legal_input :: "TickInput \<Rightarrow> bool" where
  "legal_input inp \<longleftrightarrow> good_price (dadd (dlit 1 1) (return_pct inp)) \<and> finite_double (maker_noise inp)
     \<and> (\<forall>j < 3. finite_double (draw_offset (noise_draws inp j)))"

definition state_inv :: "SimulationConfig \<Rightarrow> nat \<Rightarrow> SimState \<Rightarrow> bool" where
  "state_inv config k st \<longleftrightarrow> sim_inv (cfg_symbol config) k (sm_sim st) \<and> good_price (true_price st) \<and> maker_ok (sm_maker st)"

lemma noise_ticks_inv:
  assumes "sim_inv symb k s" and "\<not> is_nan price" and "\<forall>j < 3. finite_double (draw_offset (noise_draws inp j))"
    and "\<forall>j \<in> set js. j < 3" and "k + length js < 2 ^ 64"
  shows "\<exists>s'. noise_ticks inp symb price js s = Some s' \<and> sim_inv symb (k + length js) s'"
  using assms
proof (induction js arbitrary: k s)
  case (Cons j js)
  then obtain s1 where 1: "noise_on_tick (noise_draws inp j) (clocks inp (3 + j)) symb (2 + j) (set_reference_price price NoiseTrader_new) s = Some s1" "sim_inv symb (k + 1) s1"
    using noise_on_tick_inv [of symb k s price "noise_draws inp j" "2 + j" "clocks inp (3 + j)" NoiseTrader_new] by auto
  have "k + length (j # js) = k + 1 + length js" by simp
  with Cons.IH [OF 1(2)] Cons.prems show ?case unfolding noise_ticks.simps 1(1) option.case by (metis list.set_intros(2))
qed auto

lemma agents_tick_inv:
  assumes inv: "state_inv config k st" and legal: "legal_input inp" and k: "k + 6 < 2 ^ 64"
  shows "\<exists>st'. agents_tick config inp tick st = Some st' \<and> state_inv config (k + 6) st'"
proof -
  have st: "sim_inv (cfg_symbol config) k (sm_sim st)" "good_price (true_price st)" "maker_ok (sm_maker st)"
    using inv by (simp_all add: state_inv_def)
  have inp: "finite_double (maker_noise inp)" "\<forall>j < 3. finite_double (draw_offset (noise_draws inp j))"
    using legal by (simp_all add: legal_input_def)
  have "k + 2 < 2 ^ 64" using k by simp
  from mm_on_tick_inv [OF st(1,3) inp(1) this, of "clocks inp 0" "clocks inp 1"]
  obtain mm s1 where 1: "mm_on_tick (maker_noise inp) (clocks inp 0) (clocks inp 1) (cfg_symbol config) (sm_maker st, sm_sim st) = Some (mm, s1)"
    "sim_inv (cfg_symbol config) (k + 2) s1" "maker_ok mm" by blast
  from mom_on_tick_inv [OF 1(2), of "clocks inp 2" tick "sm_momentum st"] k
  obtain mt s2 where 2: "mom_on_tick (clocks inp 2) (cfg_symbol config) tick (sm_momentum st, s1) = Some (mt, s2)"
    "sim_inv (cfg_symbol config) (k + 2 + 1) s2" by (auto simp del: split_paired_Ex)
  have "\<not> is_nan (true_price st)" using st(2) by (simp add: good_price_def)
  from noise_ticks_inv [OF 2(2) this inp(2), of "[0, 1, 2]"] k
  obtain s3 where 3: "noise_ticks inp (cfg_symbol config) (true_price st) [0, 1, 2] s2 = Some s3"
    "sim_inv (cfg_symbol config) (k + 2 + 1 + length [0 :: nat, 1, 2]) s3" by (auto simp del: split_paired_Ex)
  have "k + 2 + 1 + length [0 :: nat, 1, 2] = k + 6" by simp
  with 3(2) have "sim_inv (cfg_symbol config) (k + 6) s3" by metis
  then show ?thesis using st 1(3)
    unfolding agents_tick_def 1(1) 2(1) option.case case_prod_conv 3(1) by (simp add: state_inv_def)
qed

lemma update_price_inv: "sim_inv symb k (e, m) \<Longrightarrow> sim_inv symb k (e, update_price p m)"
  by (auto simp: sim_inv_def market_ok_def update_price_def Let_def account_def fills_def)

lemma push_price_inv:
  assumes "state_inv config k st" and "legal_input inp"
  shows "state_inv config k (push_price (return_pct inp) tick st)"
proof -
  have "good_price (next_price (return_pct inp) (true_price st))"
    using assms next_price_good by (simp add: state_inv_def legal_input_def)
  then show ?thesis
    using assms(1) update_price_inv [of "cfg_symbol config" k "fst (sm_sim st)" "snd (sm_sim st)"]
    by (auto simp: push_price_def state_inv_def maker_ok_def set_fair_value_def good_price_def Let_def)
qed

lemma sim_tick_inv:
  assumes "state_inv config k st" and "legal_input inp" and "k + 6 < 2 ^ 64"
  shows "if 0 < tick \<and> num_ticks config div 10 = 0 then sim_tick config inp tick st = Inl DivisionByZero
    else \<exists>st'. sim_tick config inp tick st = Inr st' \<and> state_inv config (k + 6) st'"
  using agents_tick_inv [OF push_price_inv [OF assms(1,2)] assms(2,3), of tick tick] by (auto simp: sim_tick_def)

lemma sim_start_inv:
  assumes "good_price (initial_price config)"
  shows "state_inv config 1 (sim_start (Simulation_new config))"
proof -
  have "engine_inv 1 (set_trade_callback sim_callback MatchingEngine_new)"
    using engine_inv_new by (simp add: engine_inv_def engine_ok_def ids_below_def book_of_eq set_trade_callback_def)
  moreover have "a_ids (abs_book (OrderBook_new symb n)) = {}" for symb n by (simp add: a_ids_def)
  ultimately show ?thesis using assms
    by (auto simp: state_inv_def sim_inv_def sim_start_def Simulation_new_def market_ok_def owners_ok_def account_def unfilled_def
        fills_def TraderStats_new_def maker_ok_def MarketMaker_new_def good_price_def set_trade_callback_def MatchingEngine_new_def
        book_of_eq sum_list_replicate EngineStats_init_def)
qed

text \<open>The loop ends with the invariant, or in the division, and which one only depends on the number of ticks.\<close>

lemma sim_loop_inv:
  assumes "state_inv config 1 st" and "\<forall>n. legal_input (inputs n)" and "6 * n + 1 < 2 ^ 64"
  shows "case sim_loop config inputs n st of
      Inl err \<Rightarrow> err = DivisionByZero \<and> num_ticks config div 10 = 0 \<and> 2 \<le> n
    | Inr st' \<Rightarrow> state_inv config (6 * n + 1) st' \<and> (num_ticks config div 10 \<noteq> 0 \<or> n < 2)"
  using assms(3)
proof (induction n)
  case (Suc n)
  show ?case
  proof (cases "sim_loop config inputs n st")
    case (Inl err)
    then show ?thesis using Suc by auto
  next
    case (Inr st1)
    then have "state_inv config (6 * n + 1) st1" "6 * n + 1 + 6 < 2 ^ 64" using Suc by auto
    note tick = sim_tick_inv [OF this(1) assms(2) [rule_format, of n] this(2), of "of_nat n"]
    have "unat (of_nat n :: uint64) = n" using Suc.prems by (simp add: unat_of_nat)
    then have "0 < (of_nat n :: uint64) \<longleftrightarrow> 1 \<le> n" by (auto simp: word_less_nat_alt)
    with tick show ?thesis by (auto simp: Inr algebra_simps split: if_splits)
  qed
qed (use assms(1) in simp)

lemma sim_run_inv:
  assumes "good_price (initial_price config)" and "\<forall>n. legal_input (inputs n)" and "6 * unat (num_ticks config) + 1 < 2 ^ 64"
  shows "case sim_loop config inputs (unat (num_ticks config)) (sim_start (Simulation_new config)) of
      Inl err \<Rightarrow> err = DivisionByZero \<and> 2 \<le> num_ticks config \<and> num_ticks config < 10
    | Inr st \<Rightarrow> state_inv config (6 * unat (num_ticks config) + 1) st \<and> (10 \<le> num_ticks config \<or> num_ticks config < 2)"
proof -
  have "num_ticks config div 10 = 0 \<longleftrightarrow> num_ticks config < 10"
    by (simp add: unat_div word_less_nat_alt div_eq_0_iff flip: unat_eq_zero)
  with sim_loop_inv [OF sim_start_inv [OF assms(1)] assms(2,3)] show ?thesis
    by (auto simp: word_le_nat_alt word_less_nat_alt split: sum.splits)
qed

section \<open>Theorems\<close>

text \<open>C20. A simulation of at least ten ticks from a positive price comes to its end, whatever the draws: no
  order of an agent is stuck in the engine, the engine's invariant holds afterwards, and the reference price has
  stayed positive. Legal draws are finite numbers that do not take the whole price away; six ids a
  tick must fit the 64-bit counter.\<close>

theorem simulation_returns:
  assumes "good_price (initial_price config)" and "\<forall>n. legal_input (inputs n)"
    and "10 \<le> num_ticks config" and "6 * unat (num_ticks config) + 1 < 2 ^ 64"
  shows "\<exists>st. sim_loop config inputs (unat (num_ticks config)) (sim_start (Simulation_new config)) = Inr st
    \<and> simulation_run config wall_sec inputs = Inr (sim_results config wall_sec st)
    \<and> engine_ok (fst (sm_sim st)) \<and> good_price (sr_final_price (sim_results config wall_sec st))"
  using sim_run_inv [OF assms(1,2,4)] assms(3)
  by (auto simp: simulation_run_def state_inv_def sim_inv_def engine_inv_def sim_results_def Let_def split: sum.splits)

text \<open>C21. Every trade of a simulation is booked on exactly one account, the owner of the resting order: an
  order is registered only after \<open>submit_order\<close> has returned, so the callback never finds the aggressor. The
  momentum trader, which only sends market orders, therefore ends every run without a fill, without a position and
  with a profit of zero, however much it has traded.\<close>

theorem one_fill_per_trade:
  assumes "good_price (initial_price config)" and "\<forall>n. legal_input (inputs n)"
    and "6 * unat (num_ticks config) + 1 < 2 ^ 64" and "simulation_run config wall_sec inputs = Inr res"
  shows "(\<Sum>tr \<leftarrow> sr_trader_results res. tr_fills_received tr) = sr_total_trades res
    \<and> (\<exists>tr. sr_trader_results res ! momentum_trader = tr \<and> tr_name tr = ''MomentumTrader''
         \<and> tr_fills_received tr = 0 \<and> tr_final_position tr = 0
         \<and> (finite_double (sr_final_price res) \<longrightarrow> deq (tr_pnl tr) dzero))"
proof -
  obtain st where st: "sim_loop config inputs (unat (num_ticks config)) (sim_start (Simulation_new config)) = Inr st"
    and res: "res = sim_results config wall_sec st"
    using assms(4) by (auto simp: simulation_run_def split: sum.splits)
  define m where "m = snd (sm_sim st)"
  have m: "market_ok m" "total_trades (stats (fst (sm_sim st))) = of_nat (length (trade_log m))"
    using sim_run_inv [OF assms(1-3)] by (auto simp: st state_inv_def sim_inv_def m_def split: prod.splits)
  have "map (\<lambda>a. ts_fills_received (account a m)) [0..<5] = map ts_fills_received (accounts m)"
    using m(1) by (auto simp: market_ok_def account_def intro: nth_equalityI)
  then have "(\<Sum>tr \<leftarrow> sr_trader_results res. tr_fills_received tr) = fills m"
    by (simp add: res sim_results_def Let_def trader_result_def comp_def fills_def m_def)
  moreover have "sr_total_trades res = total_trades (stats (fst (sm_sim st)))" by (simp add: res sim_results_def Let_def)
  moreover have "sr_trader_results res ! 1 = trader_result (agent_name 1) (true_price st) (account 1 m)"
    by (simp add: res sim_results_def Let_def m_def)
  moreover have "sr_final_price res = true_price st" by (simp add: res sim_results_def Let_def)
  moreover have "unfilled (account 1 m)" using m(1) by (simp add: market_ok_def)
  ultimately show ?thesis
    using m unfilled_pnl [of "account 1 m" "true_price st"]
    by (simp add: market_ok_def trader_result_def agent_name_def) (simp add: unfilled_def)
qed

text \<open>A run of two to nine ticks divides by zero: the progress report takes the tick number modulo
  \<open>num_ticks / 10\<close>.\<close>

theorem short_run_divides_by_zero:
  assumes "good_price (initial_price config)" and "\<forall>n. legal_input (inputs n)"
    and "2 \<le> num_ticks config" and "num_ticks config < 10"
  shows "simulation_run config wall_sec inputs = Inl DivisionByZero"
proof -
  have "unat (num_ticks config) < 10" using assms(4) by (simp add: word_less_nat_alt)
  then show ?thesis
    using sim_run_inv [OF assms(1,2)] assms(3,4) by (auto simp: simulation_run_def split: sum.splits)
qed

definition quiet_input :: TickInput where
  "quiet_input = \<lparr>return_pct = dzero, maker_noise = dzero,
     noise_draws = (\<lambda>_. \<lparr>draw_trade = dzero, draw_side = 0, draw_lots = 1, draw_limit = dzero, draw_offset = dzero\<rparr>),
     clocks = (\<lambda>_ _. 0)\<rparr>"

lemma quiet_legal: "legal_input quiet_input" "good_price (dlit 150 1)"
proof -
  have "0 < rank (dadd (dlit 1 1) dzero)"
    using dadd_zero_pos [OF literals(8)] dlit_number(3) [of 1 1] by simp
  moreover have zero: "finite_double dzero" by (simp add: finite_double_def is_inf_def inf_mag_def dzero_def)
  ultimately have "good_price (dadd (dlit 1 1) dzero)" by (simp add: good_price_def dadd_number finite_not_nan)
  with zero show "legal_input quiet_input" by (simp add: legal_input_def quiet_input_def)
  show "good_price (dlit 150 1)" using dlit_number [of 1 150] by (simp add: good_price_def finite_double_def)
qed

text \<open>The default configuration with draws that are all zero.\<close>

theorem simulation_returns_witness:
  "\<exists>st. simulation_run SimulationConfig_default dzero (\<lambda>_. quiet_input) = Inr (sim_results SimulationConfig_default dzero st)
     \<and> engine_ok (fst (sm_sim st))"
  using simulation_returns [of SimulationConfig_default "\<lambda>_. quiet_input" dzero] quiet_legal
  by (auto simp: SimulationConfig_default_def)

theorem one_fill_per_trade_witness:
  "\<exists>res. simulation_run SimulationConfig_default dzero (\<lambda>_. quiet_input) = Inr res
     \<and> (\<Sum>tr \<leftarrow> sr_trader_results res. tr_fills_received tr) = sr_total_trades res"
proof -
  have cfg: "good_price (initial_price SimulationConfig_default)" "num_ticks SimulationConfig_default = 10000"
    using quiet_legal(2) by (simp_all add: SimulationConfig_default_def)
  then obtain res where "simulation_run SimulationConfig_default dzero (\<lambda>_. quiet_input) = Inr res"
    using sim_run_inv [OF cfg(1), of "\<lambda>_. quiet_input"] quiet_legal(1)
    by (auto simp: simulation_run_def split: sum.splits)
  with one_fill_per_trade [OF cfg(1) _ _ this] cfg(2) quiet_legal(1) show ?thesis by auto
qed

theorem short_run_divides_by_zero_witness:
  "simulation_run (SimulationConfig_default\<lparr>num_ticks := 5\<rparr>) dzero (\<lambda>_. quiet_input) = Inl DivisionByZero"
  by (rule short_run_divides_by_zero) (use quiet_legal in \<open>simp_all add: SimulationConfig_default_def\<close>)

end
