(* ===== verification/MakerBound.thy ===== *)
theory MakerBound
  imports SimulationCorrect
begin

text \<open>
  How far the market maker of the simulation can be pushed. The maker cancels the quotes of the last
  tick, then sends up to two quotes of 100 shares, a side only while its booked position is inside the
  limit (src/src/simulation/MarketMaker.cpp). Fills of a quote can arrive between two of its ticks,
  while the other agents trade, so the argument is an exposure invariant: the booked position plus
  everything still open on a side stays within 1099 shares. The first section follows the quantities
  owned by one agent through the matching of an order, the next ones follow the exposure through every
  order and cancel of a tick.
\<close>

declare One_nat_def [simp del]

section \<open>Quantities by owner\<close>

lemma fill_queue_liquidity_of:
  "fill_queue match q qs = (fs, q', rs) \<Longrightarrow>
     (\<Sum>r \<leftarrow> qs. if P (o_id r) then uint (o_remaining_qty r) else 0) =
     (\<Sum>(r, f) \<leftarrow> fs. if P (o_id r) then uint f else 0) + (\<Sum>r \<leftarrow> rs. if P (o_id r) then uint (o_remaining_qty r) else 0)"
proof (induction match q qs arbitrary: fs q' rs rule: fill_queue.induct)
  case (2 match q r rest)
  show ?case
  proof (cases "q = 0 \<or> \<not> match r \<or> q < o_remaining_qty r")
    case True
    have "uint (o_remaining_qty r - q) = uint (o_remaining_qty r) - uint q" if "q < o_remaining_qty r"
      using that by (metis less_imp_le uint_minus_simple_alt)
    with True show ?thesis using "2.prems" by (auto split: if_splits)
  next
    case False
    then obtain fs' where fs': "fill_queue match (q - o_remaining_qty r) rest = (fs', q', rs)"
      "fs = (r, o_remaining_qty r) # fs'"
      using "2.prems" by (auto split: prod.splits)
    show ?thesis using "2.IH" [OF _ _ fs'(1)] False fs'(2) by auto
  qed
qed auto

definition owned_open :: "(OrderId \<times> agent) list \<Rightarrow> agent \<Rightarrow> Order list \<Rightarrow> int" where
  "owned_open own a qs = (\<Sum>r \<leftarrow> qs. if map_of own (o_id r) = Some a then uint (o_remaining_qty r) else 0)"

definition owned_fills :: "(OrderId \<times> agent) list \<Rightarrow> agent \<Rightarrow> (Order \<times> Quantity) list \<Rightarrow> int" where
  "owned_fills own a fs = (\<Sum>(r, f) \<leftarrow> fs. if map_of own (o_id r) = Some a then uint f else 0)"

lemma owned_open_fill: "fill_queue match q qs = (fs, q', rs) \<Longrightarrow> owned_open own a qs = owned_fills own a fs + owned_open own a rs"
  unfolding owned_open_def owned_fills_def by (rule fill_queue_liquidity_of)

lemma owned_nonneg: "0 \<le> owned_open own a qs" "0 \<le> owned_fills own a fs"
  by (auto simp: owned_open_def owned_fills_def intro!: sum_list_nonneg)

section \<open>Positions\<close>

definition agent_position :: "agent \<Rightarrow> Market \<Rightarrow> 64 word" where
  "agent_position a m = ts_position (account a m)"

lemma update_account_position:
  "a < length (accounts m) \<Longrightarrow> (\<And>st. ts_position (f st) = ts_position st) \<Longrightarrow> agent_position x (update_account a f m) = agent_position x m"
  by (cases "x = a") (simp_all add: agent_position_def account_def update_account_def)

lemma route_fill_position:
  assumes "a < length (accounts m)"
  shows "agent_position a (route_fill i sd t m) = agent_position a m +
      (if map_of (order_owner m) i = Some a then (if sd = Buy then ucast (t_quantity t) else - ucast (t_quantity t)) else 0)"
  using assms
  by (auto simp: route_fill_def agent_position_def account_def update_account_def trader_on_fill_def Let_def nth_list_update
      split: option.splits)

lemma route_fill_frame [simp]:
  "order_owner (route_fill i sd t m) = order_owner m" "length (accounts (route_fill i sd t m)) = length (accounts m)"
  by (simp_all add: route_fill_def split: option.splits)

definition position_change :: "(OrderId \<times> agent) list \<Rightarrow> agent \<Rightarrow> Trade \<Rightarrow> 64 word" where
  "position_change own a t =
     (if map_of own (t_buy_order_id t) = Some a then ucast (t_quantity t) else 0)
     - (if map_of own (t_sell_order_id t) = Some a then ucast (t_quantity t) else 0)"

lemma sim_callback_position:
  assumes "a < length (accounts m)"
  shows "agent_position a (sim_callback t m) = agent_position a m + position_change (order_owner m) a t"
    "order_owner (sim_callback t m) = order_owner m" "length (accounts (sim_callback t m)) = length (accounts m)"
proof -
  let ?m = "m\<lparr>trade_log := trade_log m @ [t]\<rparr>"
  have price: "agent_position a (update_price p m') = agent_position a m'" "order_owner (update_price p m') = order_owner m'"
    "length (accounts (update_price p m')) = length (accounts m')" for p m'
    by (simp_all add: agent_position_def account_def update_price_def Let_def)
  have "agent_position a ?m = agent_position a m" by (simp add: agent_position_def account_def)
  then show "agent_position a (sim_callback t m) = agent_position a m + position_change (order_owner m) a t"
    using route_fill_position [of a ?m "t_buy_order_id t" Buy t]
      route_fill_position [of a "route_fill (t_buy_order_id t) Buy t ?m" "t_sell_order_id t" Sell t] assms
    by (simp add: sim_callback_def Let_def price position_change_def)
qed (simp_all add: sim_callback_def Let_def update_price_def)

lemma run_callback_position:
  "a < length (accounts m) \<Longrightarrow>
     agent_position a (run_callback (Some sim_callback) trades m) =
     agent_position a m + (\<Sum>t \<leftarrow> trades. position_change (order_owner m) a t)"
  by (induction trades arbitrary: m) (simp_all add: run_callback_Cons sim_callback_position add.assoc)

lemma trades_position_change:
  assumes "map_of own i = None"
  shows "(\<Sum>t \<leftarrow> trades_of now n buy i fs. position_change own a t) =
    (if buy then - of_int (owned_fills own a fs) else of_int (owned_fills own a fs))"
proof (induction fs arbitrary: n)
  case (Cons f fs)
  obtain r q where f: "f = (r, q)" by fastforce
  have q: "(ucast q :: 64 word) = of_int (uint q)" by simp
  show ?case
    using Cons [of "Suc n"] assms unfolding f
    by (simp add: owned_fills_def position_change_def trade_of_def)
qed (simp add: owned_fills_def)

lemma sint_add_of_int:
  fixes p :: "64 word"
  assumes "- (2 ^ 62) \<le> sint p + d" and "sint p + d < 2 ^ 62"
  shows "sint (p + of_int d) = sint p + d"
proof -
  have "sint (p + of_int d) = signed_take_bit 63 (sint p + d)"
    using sint_sbintrunc' [where 'a = 64, of "sint p + d"] by simp
  also have "\<dots> = sint p + d" using assms by (intro signed_take_bit_int_eq_self) simp_all
  finally show ?thesis .
qed

section \<open>Exposure\<close>

text \<open>The position an agent would have if all its bids, or all its asks, were filled.\<close>

definition up :: "string \<Rightarrow> agent \<Rightarrow> sim \<Rightarrow> int" where
  "up symb a = (\<lambda>(e, m). sint (agent_position a m) + owned_open (order_owner m) a (queue True (book_of e symb)))"

definition down :: "string \<Rightarrow> agent \<Rightarrow> sim \<Rightarrow> int" where
  "down symb a = (\<lambda>(e, m). sint (agent_position a m) - owned_open (order_owner m) a (queue False (book_of e symb)))"

definition owns :: "string \<Rightarrow> agent \<Rightarrow> bool \<Rightarrow> sim \<Rightarrow> OrderId set" where
  "owns symb a buy = (\<lambda>(e, m). {o_id r | r. r \<in> set (queue buy (book_of e symb)) \<and> map_of (order_owner m) (o_id r) = Some a})"

lemma owned_open_register:
  assumes "\<forall>r \<in> set qs. o_id r \<noteq> i"
  shows "owned_open (AList.update i a own) x qs = owned_open own x qs"
  using assms by (induction qs) (auto simp: owned_open_def update_conv')

lemma owned_open_enqueue:
  "owned_open own x (enqueue buy r qs) = owned_open own x qs + (if map_of own (o_id r) = Some x then uint (o_remaining_qty r) else 0)"
proof -
  have app: "owned_open own x (xs @ ys) = owned_open own x xs + owned_open own x ys" for xs ys by (simp add: owned_open_def)
  have "owned_open own x (takeWhile P qs) + owned_open own x (dropWhile P qs) = owned_open own x qs" for P
    by (simp flip: app)
  then show ?thesis unfolding enqueue_def insert_after_def app by (simp add: owned_open_def)
qed

lemma send_order_accepted:
  assumes inv: "sim_inv symb k (e, m)" and ord: "sends a ty price" and k: "k + 1 < 2 ^ 64" and acc: "accepted ty price q"
    and send: "send_order now symb a sd ty price q (e, m) = Some (i, e', m')"
  obtains fs q' rs where
    "fill_queue (crosses (sd = Buy) (effective_price sd ty price)) q (queue (sd \<noteq> Buy) (book_of e symb)) = (fs, q', rs)"
    "i = next_order_id (book_of e symb)" "queue (sd \<noteq> Buy) (book_of e' symb) = rs"
    "queue (sd = Buy) (book_of e' symb) = (if 0 < q' \<and> may_rest ty
       then enqueue (sd = Buy) (remainder (incoming_order now e symb sd ty price q) q') (queue (sd = Buy) (book_of e symb))
       else queue (sd = Buy) (book_of e symb))"
    "order_owner m' = AList.update i a (order_owner m)"
    "\<And>x. x < 5 \<Longrightarrow> agent_position x m' = agent_position x m +
       (if sd = Buy then - of_int (owned_fills (order_owner m) x fs) else of_int (owned_fills (order_owner m) x fs))"
proof -
  let ?b = "book_of e symb" and ?ord = "incoming_order now e symb sd ty price q"
  have einv: "engine_inv k e" and cb: "trade_callback e = Some sim_callback" and len: "length (accounts m) = 5"
    and fresh: "map_of (order_owner m) (next_order_id ?b) = None"
    using inv by (auto simp: sim_inv_def market_ok_def owners_ok_def)
  have sub: "submittable e symb ty price"
    using einv next_id_suc(2) [OF einv k] ord by (auto simp: engine_inv_def submittable_def sends_def)
  obtain fs q' rs where fill: "fill_queue (crosses (sd = Buy) (effective_price sd ty price)) q (queue (sd \<noteq> Buy) ?b) = (fs, q', rs)"
    by (metis prod_cases3)
  have flds: "o_side ?ord = sd" "o_price ?ord = effective_price sd ty price" "o_remaining_qty ?ord = q" "o_type ?ord = ty"
    by (simp_all add: incoming_order_def)
  note sides = a_submit_sides [of ?ord "abs_book ?b" fs q' rs, unfolded flds a_side_abs, OF fill]
  define m1 where "m1 = update_account a (\<lambda>st. st\<lparr>ts_orders_sent := ts_orders_sent st + 1\<rparr>) m"
  have m1: "order_owner m1 = order_owner m" "length (accounts m1) = 5" "agent_position x m1 = agent_position x m" for x
    using len ord by (simp_all add: m1_def update_account_position sends_def)
  obtain fs' a' where spec: "a_submit ?ord (abs_book ?b) = (fs', a')" by fastforce
  define trades where "trades = trades_of (\<lambda>i. now (2 + i)) 0 (sd = Buy) (next_order_id ?b) fs"
  have "fs' = fs" using spec sides(1) by simp
  then obtain e'' where "submit_order now symb sd ty price q (e, m1) = Some (next_order_id ?b, e'', run_callback (Some sim_callback) trades m1)"
    and e'': "abs_book (book_of e'' symb) = a'"
    using submit_accepted [OF acc sub spec refl, of m1] cb by (auto simp: trades_def)
  moreover have "0 < next_order_id ?b"
    using engine_ok_book [of e symb] einv by (auto simp: engine_inv_def book_inv_def book_ok_def)
  ultimately have i: "i = next_order_id ?b" and "e'' = e'"
    and m': "m' = (run_callback (Some sim_callback) trades m1)\<lparr>order_owner := AList.update i a (order_owner (run_callback (Some sim_callback) trades m1))\<rparr>"
    using send by (auto simp: send_order_def simp flip: m1_def)
  have owner: "order_owner (run_callback (Some sim_callback) ts x) = order_owner x" if "length (accounts x) = 5" for ts x
    using that by (induction ts arbitrary: x) (simp_all add: run_callback_Cons sim_callback_position(2,3) [of 0])
  have "agent_position x m' = agent_position x m +
       (if sd = Buy then - of_int (owned_fills (order_owner m) x fs) else of_int (owned_fills (order_owner m) x fs))" if "x < 5" for x
  proof -
    have "agent_position x m' = agent_position x (run_callback (Some sim_callback) trades m1)" by (simp add: m' agent_position_def account_def)
    also have "\<dots> = agent_position x m1 + (\<Sum>t \<leftarrow> trades. position_change (order_owner m1) x t)"
      by (rule run_callback_position) (simp add: m1 that)
    finally show ?thesis by (simp only: trades_def m1 trades_position_change [OF fresh])
  qed
  moreover have "order_owner m' = AList.update i a (order_owner m)" using owner [OF m1(2)] by (simp add: m' m1)
  moreover have a': "snd (a_submit ?ord (abs_book ?b)) = abs_book (book_of e' symb)" using spec e'' \<open>e'' = e'\<close> by simp
  note sides(2,3) [unfolded a' a_side_abs]
  ultimately show thesis using that fill i by blast
qed

lemma send_order_rejected:
  assumes inv: "sim_inv symb k (e, m)" and ord: "sends a ty price" and rej: "\<not> accepted ty price q"
    and send: "send_order now symb a sd ty price q (e, m) = Some (i, e', m')"
  shows "agent_position x m' = agent_position x m" "order_owner m' = order_owner m" "book_of e' symb = book_of e symb"
proof -
  define m1 where "m1 = update_account a (\<lambda>st. st\<lparr>ts_orders_sent := ts_orders_sent st + 1\<rparr>) m"
  from submit_rejected [OF rej, of now symb sd e m1] send have "m' = m1" "book_of e' symb = book_of e symb"
    using get_order_book_same [of e' symb e] by (auto simp: send_order_def simp flip: m1_def)
  then show "agent_position x m' = agent_position x m" "order_owner m' = order_owner m" "book_of e' symb = book_of e symb"
    using inv ord by (simp_all add: m1_def update_account_position sim_inv_def market_ok_def sends_def)
qed

lemma remainder_fields [simp]: "o_id (remainder r q) = o_id r" "o_remaining_qty (remainder r q) = q"
  by (simp_all add: remainder_def)

lemma send_order_ids:
  assumes inv: "sim_inv symb k (e, m)"
    and fill: "fill_queue match q (queue (sd \<noteq> Buy) (book_of e symb)) = (fs, q', rs)" and i: "i = next_order_id (book_of e symb)"
  shows "r \<in> set (queue s (book_of e symb)) \<Longrightarrow> o_id r \<noteq> i"
    "r \<in> set rs \<Longrightarrow> \<exists>r0 \<in> set (queue (sd \<noteq> Buy) (book_of e symb)). o_id r0 = o_id r"
proof -
  show "r \<in> set (queue s (book_of e symb)) \<Longrightarrow> o_id r \<noteq> i"
    using old_ids(2) inv engine_ok_book [of e symb] by (fastforce simp: i sim_inv_def engine_inv_def book_inv_def)
  show "r \<in> set rs \<Longrightarrow> \<exists>r0 \<in> set (queue (sd \<noteq> Buy) (book_of e symb)). o_id r0 = o_id r"
    using fill_queue_rest [OF fill, of r] by (metis same_key_def)
qed

text \<open>An agent owns more orders only by sending them.\<close>

lemma send_order_owns:
  assumes inv: "sim_inv symb k (e, m)" and ord: "sends a ty price" and k: "k + 1 < 2 ^ 64"
    and send: "send_order now symb a sd ty price q (e, m) = Some (i, e', m')"
  shows "owns symb x buy (e', m') \<subseteq> owns symb x buy (e, m) \<union> (if a = x \<and> buy = (sd = Buy) then {i} else {})"
proof (cases "accepted ty price q")
  case False
  from send_order_rejected(2,3) [OF inv ord this send] show ?thesis by (auto simp: owns_def)
next
  case acc: True
  from send_order_accepted [OF inv ord k acc send] obtain fs q' rs where
    fill: "fill_queue (crosses (sd = Buy) (effective_price sd ty price)) q (queue (sd \<noteq> Buy) (book_of e symb)) = (fs, q', rs)"
    and i: "i = next_order_id (book_of e symb)" and rs: "queue (sd \<noteq> Buy) (book_of e' symb) = rs"
    and own: "queue (sd = Buy) (book_of e' symb) = (if 0 < q' \<and> may_rest ty
       then enqueue (sd = Buy) (remainder (incoming_order now e symb sd ty price q) q') (queue (sd = Buy) (book_of e symb))
       else queue (sd = Buy) (book_of e symb))"
    and owner: "order_owner m' = AList.update i a (order_owner m)" by metis
  note ids = send_order_ids [OF inv fill i]
  show ?thesis
  proof (cases "buy = (sd = Buy)")
    case True
    then show ?thesis using ids(1) by (auto simp: owns_def own owner update_conv' enqueue_def incoming_order_def i split: if_splits)
  next
    case False
    then have "queue buy (book_of e' symb) = rs" "queue buy (book_of e symb) = queue (sd \<noteq> Buy) (book_of e symb)" using rs by auto
    then show ?thesis using ids by (auto simp: owns_def owner update_conv' split: if_splits) metis+
  qed
qed

text \<open>What an accepted order does to the quantities of an agent: a fill \<open>F\<close> of its resting orders moves the
  position by as much as it takes from the opposite queue, and its own queue gains at most the order.\<close>

lemma send_order_accounting:
  assumes inv: "sim_inv symb k (e, m)" and ord: "sends a ty price" and k: "k + 1 < 2 ^ 64" and x: "x < 5"
    and acc: "accepted ty price q" and send: "send_order now symb a sd ty price q (e, m) = Some (i, e', m')"
    and opp: "opp = (\<lambda>e m. owned_open (order_owner m) x (queue (sd \<noteq> Buy) (book_of e symb)))"
    and mine: "mine = (\<lambda>e m. owned_open (order_owner m) x (queue (sd = Buy) (book_of e symb)))"
  obtains F where "0 \<le> F" and "opp e m = F + opp e' m'" and "mine e m \<le> mine e' m'"
    and "mine e' m' \<le> mine e m + (if a = x then uint q else 0)"
    and "agent_position x m' = agent_position x m + of_int (if sd = Buy then - F else F)"
proof -
  from send_order_accepted [OF inv ord k acc send] obtain fs q' rs where
    fill: "fill_queue (crosses (sd = Buy) (effective_price sd ty price)) q (queue (sd \<noteq> Buy) (book_of e symb)) = (fs, q', rs)"
    and i: "i = next_order_id (book_of e symb)" and rs: "queue (sd \<noteq> Buy) (book_of e' symb) = rs"
    and own: "queue (sd = Buy) (book_of e' symb) = (if 0 < q' \<and> may_rest ty
       then enqueue (sd = Buy) (remainder (incoming_order now e symb sd ty price q) q') (queue (sd = Buy) (book_of e symb))
       else queue (sd = Buy) (book_of e symb))"
    and owner: "order_owner m' = AList.update i a (order_owner m)"
    and pos: "agent_position x m' = agent_position x m +
       (if sd = Buy then - of_int (owned_fills (order_owner m) x fs) else of_int (owned_fills (order_owner m) x fs))"
    using x by metis
  note ids = send_order_ids [OF inv fill i]
  have "opp e' m' = owned_open (order_owner m) x rs"
    unfolding opp rs owner using ids by (intro owned_open_register) metis
  then have 1: "opp e m = owned_fills (order_owner m) x fs + opp e' m'" using owned_open_fill [OF fill] by (simp add: opp)
  have "unat q' \<le> unat q" using fill_queue_conserves [OF fill] by simp
  then have "uint q' \<le> uint q" by (simp add: word_le_nat_alt [symmetric] word_le_def)
  moreover have "owned_open (order_owner m') x (queue (sd = Buy) (book_of e symb)) = mine e m"
    unfolding mine owner using ids(1) by (intro owned_open_register) metis
  ultimately have 2: "mine e m \<le> mine e' m'" "mine e' m' \<le> mine e m + (if a = x then uint q else 0)"
    by (auto simp: mine own owned_open_enqueue owner update_conv' incoming_order_def i)
  show thesis by (rule that [OF _ 1 2]) (use pos in \<open>auto simp: owned_nonneg\<close>)
qed

text \<open>An agent's exposure grows only by the orders it sends itself.\<close>

lemma send_order_exposure:
  assumes inv: "sim_inv symb k (e, m)" and ord: "sends a ty price" and k: "k + 1 < 2 ^ 64" and x: "x < 5"
    and send: "send_order now symb a sd ty price q (e, m) = Some (i, e', m')"
    and bounds: "up symb x (e, m) \<le> 2 ^ 61" "- (2 ^ 61) \<le> down symb x (e, m)"
  shows "up symb x (e', m') \<le> up symb x (e, m) + (if a = x \<and> sd = Buy then uint q else 0)
    \<and> down symb x (e, m) - (if a = x \<and> sd \<noteq> Buy then uint q else 0) \<le> down symb x (e', m')"
proof (cases "accepted ty price q")
  case False
  have "agent_position x m' = agent_position x m" "order_owner m' = order_owner m" "book_of e' symb = book_of e symb"
    using send_order_rejected [OF inv ord False send] by simp_all
  then show ?thesis by (simp add: up_def down_def)
next
  case True
  define opp where "opp = (\<lambda>(e :: Market MatchingEngine) (m :: Market). owned_open (order_owner m) x (queue (sd \<noteq> Buy) (book_of e symb)))"
  define mine where "mine = (\<lambda>(e :: Market MatchingEngine) (m :: Market). owned_open (order_owner m) x (queue (sd = Buy) (book_of e symb)))"
  from send_order_accounting [OF inv ord k x True send opp_def mine_def] obtain F where
    F: "0 \<le> F" "opp e m = F + opp e' m'" and mine: "mine e m \<le> mine e' m'" "mine e' m' \<le> mine e m + (if a = x then uint q else 0)"
    and pos: "agent_position x m' = agent_position x m + of_int (if sd = Buy then - F else F)" .
  have nonneg: "0 \<le> opp e' m'" "0 \<le> mine e m" by (simp_all add: opp_def mine_def owned_nonneg)
  have up: "up symb x (e, m) = sint (agent_position x m) + (if sd = Buy then mine e m else opp e m)"
    "down symb x (e, m) = sint (agent_position x m) - (if sd = Buy then opp e m else mine e m)" for e m
    by (simp_all add: up_def down_def mine_def opp_def)
  have "sint (agent_position x m') = sint (agent_position x m) + (if sd = Buy then - F else F)"
    unfolding pos by (rule sint_add_of_int) (use bounds nonneg F in \<open>auto simp: up split: if_splits\<close>)
  then show ?thesis using mine F nonneg by (simp add: up)
qed

lemma send_cancel_exposure:
  assumes inv: "sim_inv symb k s" and a: "a < 5"
  shows "up symb x (snd (send_cancel symb a i s)) \<le> up symb x s" "down symb x s \<le> down symb x (snd (send_cancel symb a i s))"
    "owns symb x buy (snd (send_cancel symb a i s)) = owns symb x buy s - {i}"
proof -
  obtain e m where s: "s = (e, m)" by fastforce
  have ok: "engine_ok e" and len: "length (accounts m) = 5" using inv by (simp_all add: s sim_inv_def engine_inv_def market_ok_def)
  define e' m' where "e' = snd (engine_cancel_order symb i e)" and "m' = update_account a (\<lambda>st. st\<lparr>ts_cancels_sent := ts_cancels_sent st + 1\<rparr>) m"
  have s': "snd (send_cancel symb a i s) = (e', m')" by (simp add: s send_cancel_def e'_def m'_def case_prod_unfold Let_def)
  have "abs_book (book_of e' symb) = a_cancel i (abs_book (book_of e symb))" unfolding e'_def by (rule engine_cancel_effect(2) [OF ok])
  then have q: "queue buy (book_of e' symb) = filter (\<lambda>r. o_id r \<noteq> i) (queue buy (book_of e symb))" for buy
    by (cases buy) (simp_all add: abs_book_def a_cancel_def map_sides_def)
  have m': "agent_position x m' = agent_position x m" "order_owner m' = order_owner m" for x
    using len a by (simp_all add: m'_def update_account_position)
  have "owned_open own x (filter P qs) \<le> owned_open own x qs" for own P qs
    by (induction qs) (auto simp: owned_open_def intro: add_increasing)
  then show "up symb x (snd (send_cancel symb a i s)) \<le> up symb x s" "down symb x s \<le> down symb x (snd (send_cancel symb a i s))"
    unfolding s' by (simp_all add: s up_def down_def m' q)
  show "owns symb x buy (snd (send_cancel symb a i s)) = owns symb x buy s - {i}"
    unfolding s' by (auto simp: s owns_def m' q)
qed

section \<open>The market maker's limits\<close>

definition maker_limits :: "MarketMaker \<Rightarrow> bool" where
  "maker_limits mm \<longleftrightarrow> quote_size mm = 100 \<and> mm_max_position mm = 1000"

definition maker_inv :: "string \<Rightarrow> MarketMaker \<Rightarrow> sim \<Rightarrow> bool" where
  "maker_inv symb mm s \<longleftrightarrow> up symb market_maker s \<le> 1099 \<and> - 1099 \<le> down symb market_maker s
     \<and> owns symb market_maker True s \<subseteq> {active_bid_id mm} \<and> owns symb market_maker False s \<subseteq> {active_ask_id mm}"

lemma maker_inv_position:
  assumes "maker_inv symb mm s"
  shows "\<bar>sint (agent_position market_maker (snd s))\<bar> \<le> 1099"
  using assms owned_nonneg(1) [of "order_owner (snd s)" 0 "queue True (book_of (fst s) symb)"]
    owned_nonneg(1) [of "order_owner (snd s)" 0 "queue False (book_of (fst s) symb)"]
  by (auto simp: maker_inv_def up_def down_def case_prod_unfold)

lemma other_sends_maker_inv:
  assumes inv: "sim_inv symb k s" and mm: "maker_inv symb mm s" and ord: "sends a ty price" "a \<noteq> market_maker" and k: "k + 1 < 2 ^ 64"
    and send: "send_order now symb a sd ty price q s = Some (i, s')"
  shows "maker_inv symb mm s'"
proof -
  obtain e m e' m' where s: "s = (e, m)" "s' = (e', m')" by fastforce
  have b: "up symb market_maker (e, m) \<le> 2 ^ 61" "- (2 ^ 61) \<le> down symb market_maker (e, m)"
    using mm by (simp_all add: maker_inv_def s)
  have "market_maker < (5 :: nat)" by simp
  from send_order_exposure [OF inv [unfolded s(1)] ord(1) k this send [unfolded s] b] send_order_owns [OF inv [unfolded s(1)] ord(1) k send [unfolded s], where x = market_maker] ord(2) mm
  show ?thesis by (auto simp: maker_inv_def s subset_iff split: if_splits) 
qed

lemma owned_open_none:
  assumes "owns symb a buy (e, m) = {}"
  shows "owned_open (order_owner m) a (queue buy (book_of e symb)) = 0"
proof -
  have "owned_open own a qs = 0" if "\<forall>r \<in> set qs. map_of own (o_id r) \<noteq> Some a" for own qs
    using that by (induction qs) (auto simp: owned_open_def)
  then show ?thesis using assms by (auto simp: owns_def)
qed

lemma cancel_stage:
  assumes inv: "sim_inv symb k s" and own: "owns symb market_maker buy s \<subseteq> {i}"
    and s': "s' = (if 0 < i then snd (send_cancel symb market_maker i s) else s)"
  shows "sim_inv symb k s'" "owns symb market_maker buy s' = {}" "owns symb market_maker b s' \<subseteq> owns symb market_maker b s"
    "up symb market_maker s' \<le> up symb market_maker s" "down symb market_maker s \<le> down symb market_maker s'"
proof -
  have a: "market_maker < (5 :: nat)" by simp
  obtain e m where s: "s = (e, m)" by fastforce
  have "book_ok (book_of e symb)" using inv engine_ok_book [of e symb] by (auto simp: s sim_inv_def engine_inv_def book_inv_def)
  then have "0 \<notin> owns symb market_maker buy s" using old_ids(1) by (fastforce simp: s owns_def)
  with own show "owns symb market_maker buy s' = {}"
    using send_cancel_exposure(3) [OF inv a] by (cases "i = 0") (auto simp: s' word_greater_zero_iff)
  show "sim_inv symb k s'" using inv send_cancel_inv [OF inv a] by (simp add: s')
  show "owns symb market_maker b s' \<subseteq> owns symb market_maker b s" using send_cancel_exposure(3) [OF inv a] by (auto simp: s')
  show "up symb market_maker s' \<le> up symb market_maker s" "down symb market_maker s \<le> down symb market_maker s'"
    using send_cancel_exposure(1,2) [OF inv a] by (simp_all add: s')
qed

lemma mm_cancel_stale_maker:
  assumes inv: "sim_inv symb k s" and mm: "maker_inv symb mm s" and cancel: "mm_cancel_stale symb (mm, s) = (mm', s')"
  shows "sim_inv symb k s'" "maker_inv symb mm' s'" "owns symb market_maker True s' = {}" "owns symb market_maker False s' = {}"
    "quote_size mm' = quote_size mm" "mm_max_position mm' = mm_max_position mm"
proof -
  define s1 where "s1 = (if 0 < active_bid_id mm then snd (send_cancel symb market_maker (active_bid_id mm) s) else s)"
  have s': "s' = (if 0 < active_ask_id mm then snd (send_cancel symb market_maker (active_ask_id mm) s1) else s1)"
    and "quote_size mm' = quote_size mm" "mm_max_position mm' = mm_max_position mm"
    using cancel by (auto simp: mm_cancel_stale_def s1_def split: if_splits)
  then show "quote_size mm' = quote_size mm" "mm_max_position mm' = mm_max_position mm" by simp_all
  have own: "owns symb market_maker True s \<subseteq> {active_bid_id mm}" "owns symb market_maker False s \<subseteq> {active_ask_id mm}"
    using mm by (simp_all add: maker_inv_def)
  note 1 = cancel_stage [OF inv own(1) s1_def]
  have "owns symb market_maker False s1 \<subseteq> {active_ask_id mm}" using 1(3) [of False] own(2) by blast
  note 2 = cancel_stage [OF 1(1) this s']
  show "sim_inv symb k s'" by (rule 2(1))
  show none: "owns symb market_maker True s' = {}" "owns symb market_maker False s' = {}" using 1(2) 2(2) 2(3) [of True] by auto
  show "maker_inv symb mm' s'" using mm 1(4,5) 2(4,5) none by (simp add: maker_inv_def)
qed

lemma maker_sends:
  assumes inv: "sim_inv symb k s" and ord: "sends market_maker Limit price" and k: "k + 1 < 2 ^ 64"
    and send: "send_order now symb market_maker sd Limit price 100 s = Some (i, s')"
    and b: "up symb market_maker s \<le> 1099" "- 1099 \<le> down symb market_maker s"
  shows "up symb market_maker s' \<le> up symb market_maker s + (if sd = Buy then 100 else 0)"
    "down symb market_maker s - (if sd \<noteq> Buy then 100 else 0) \<le> down symb market_maker s'"
    "owns symb market_maker buy s' \<subseteq> owns symb market_maker buy s \<union> (if buy = (sd = Buy) then {i} else {})"
proof -
  obtain e m e' m' where s: "s = (e, m)" "s' = (e', m')" by fastforce
  have x: "market_maker < (5 :: nat)" by simp
  have b': "up symb market_maker (e, m) \<le> 2 ^ 61" "- (2 ^ 61) \<le> down symb market_maker (e, m)"
    using b by (simp_all add: s)
  note exp = send_order_exposure [OF inv [unfolded s(1)] ord k x send [unfolded s] b']
  show "up symb market_maker s' \<le> up symb market_maker s + (if sd = Buy then 100 else 0)"
    "down symb market_maker s - (if sd \<noteq> Buy then 100 else 0) \<le> down symb market_maker s'" using exp by (auto simp: s split: if_splits)
  show "owns symb market_maker buy s' \<subseteq> owns symb market_maker buy s \<union> (if buy = (sd = Buy) then {i} else {})"
    using send_order_owns [OF inv [unfolded s(1)] ord k send [unfolded s], of market_maker buy] by (simp add: s)
qed

text \<open>A quote is only sent from a position below the limit, when no older quote of that side is left.\<close>

lemma bid_stage:
  assumes inv: "sim_inv symb k s" and mm: "maker_limits mm" "maker_inv symb mm s"
    and none: "owns symb market_maker True s = {}" "owns symb market_maker False s = {}"
    and ord: "sends market_maker Limit bid" and k: "k + 1 < 2 ^ 64"
    and stage: "(if sint (ts_position (account market_maker (snd s))) < mm_max_position mm
      then (case send_order now symb market_maker Buy Limit bid (quote_size mm) s of
        None \<Rightarrow> None | Some (i, s1) \<Rightarrow> Some (mm\<lparr>active_bid_id := i\<rparr>, s1))
      else Some (mm, s)) = Some (mm', s')"
  shows "sim_inv symb (k + 1) s'" "maker_limits mm'" "maker_inv symb mm' s'" "owns symb market_maker False s' = {}"
proof -
  have b: "up symb market_maker s \<le> 1099" "- 1099 \<le> down symb market_maker s" using mm(2) by (simp_all add: maker_inv_def)
  have pos: "up symb market_maker s = sint (ts_position (account market_maker (snd s)))"
    using owned_open_none [of symb market_maker True "fst s" "snd s"] none(1) by (simp add: up_def agent_position_def case_prod_unfold)
  have "sim_inv symb (k + 1) s' \<and> maker_limits mm' \<and> maker_inv symb mm' s' \<and> owns symb market_maker False s' = {}"
  proof (cases "sint (ts_position (account market_maker (snd s))) < mm_max_position mm")
    case True
    then obtain i where send: "send_order now symb market_maker Buy Limit bid 100 s = Some (i, s')" "mm' = mm\<lparr>active_bid_id := i\<rparr>"
      using stage mm(1) by (auto simp: maker_limits_def split: option.splits)
    have "sim_inv symb (k + 1) s'" using send_order_inv [OF inv ord k, of now Buy 100] send(1) by auto
    moreover note sent = maker_sends [OF inv ord k send(1) b]
    ultimately show ?thesis
      using sent(1,2) sent(3) [of True] sent(3) [of False] mm True pos none send(2) by (auto simp: maker_inv_def maker_limits_def)
  next
    case False
    with stage mm none sim_inv_mono [OF inv] show ?thesis by auto
  qed
  then show "sim_inv symb (k + 1) s'" "maker_limits mm'" "maker_inv symb mm' s'" "owns symb market_maker False s' = {}" by blast+
qed

lemma ask_stage:
  assumes inv: "sim_inv symb k s" and mm: "maker_limits mm" "maker_inv symb mm s" and none: "owns symb market_maker False s = {}"
    and ord: "sends market_maker Limit ask" and k: "k + 1 < 2 ^ 64"
    and stage: "(if - mm_max_position mm < sint (ts_position (account market_maker (snd s)))
      then (case send_order now symb market_maker Sell Limit ask (quote_size mm) s of
        None \<Rightarrow> None | Some (i, s1) \<Rightarrow> Some (mm\<lparr>active_ask_id := i\<rparr>, s1))
      else Some (mm, s)) = Some (mm', s')"
  shows "maker_limits mm' \<and> maker_inv symb mm' s'"
proof -
  have b: "up symb market_maker s \<le> 1099" "- 1099 \<le> down symb market_maker s" using mm(2) by (simp_all add: maker_inv_def)
  have pos: "down symb market_maker s = sint (ts_position (account market_maker (snd s)))"
    using owned_open_none [of symb market_maker False "fst s" "snd s"] none by (simp add: down_def agent_position_def case_prod_unfold)
  show ?thesis
  proof (cases "- mm_max_position mm < sint (ts_position (account market_maker (snd s)))")
    case True
    then obtain i where send: "send_order now symb market_maker Sell Limit ask 100 s = Some (i, s')" "mm' = mm\<lparr>active_ask_id := i\<rparr>"
      using stage mm(1) by (auto simp: maker_limits_def split: option.splits)
    note sent = maker_sends [OF inv ord k send(1) b]
    show ?thesis
      using sent(1,2) sent(3) [of True] sent(3) [of False] mm True pos none send(2) by (auto simp: maker_inv_def maker_limits_def)
  next
    case False
    with stage mm show ?thesis by auto
  qed
qed

lemma mm_on_tick_maker:
  assumes inv: "sim_inv symb k s" and ok: "maker_ok mm" "maker_limits mm" and mm: "maker_inv symb mm s" and noise: "finite_double noise"
    and k: "k + 2 < 2 ^ 64" and tick: "mm_on_tick noise now1 now2 symb (mm, s) = Some (mm', s')"
  shows "maker_limits mm' \<and> maker_inv symb mm' s'"
proof -
  obtain mm1 s1 where 1: "mm_cancel_stale symb (mm, s) = (mm1, s1)" by (meson surj_pair)
  note st1 = mm_cancel_stale_maker [OF inv mm 1] and ok1 = mm_cancel_stale_inv(2) [OF inv ok(1) 1]
  obtain bid ask where q: "mm_quotes noise (ts_position (account market_maker (snd s1))) mm1 = (bid, ask)" by fastforce
  have ord: "sends market_maker Limit bid" "sends market_maker Limit ask"
    using mm_quotes_number [OF _ noise _ _ q] ok1 by (simp_all add: maker_ok_def sends_def)
  have lim1: "maker_limits mm1" using ok(2) st1(5,6) by (simp add: maker_limits_def)
  obtain mm2 s2 where 2: "(if sint (ts_position (account market_maker (snd s1))) < mm_max_position mm1
      then (case send_order now1 symb market_maker Buy Limit bid (quote_size mm1) s1 of
        None \<Rightarrow> None | Some (i, s2) \<Rightarrow> Some (mm1\<lparr>active_bid_id := i\<rparr>, s2))
      else Some (mm1, s1)) = Some (mm2, s2)"
    and 3: "(if - mm_max_position mm2 < sint (ts_position (account market_maker (snd s2)))
      then (case send_order now2 symb market_maker Sell Limit ask (quote_size mm2) s2 of
        None \<Rightarrow> None | Some (i, s3) \<Rightarrow> Some (mm2\<lparr>active_ask_id := i\<rparr>, s3))
      else Some (mm2, s2)) = Some (mm', s')"
    using tick by (auto simp: mm_on_tick_def 1 q split: option.splits)
  have k': "k + 1 < 2 ^ 64" "k + 1 + 1 < 2 ^ 64" using k by simp_all
  note st2 = bid_stage [OF st1(1) lim1 st1(2-4) ord(1) k'(1) 2]
  show ?thesis by (rule ask_stage [OF st2(1-4) ord(2) k'(2) 3])
qed

section \<open>The other agents and the run\<close>

lemma mom_on_tick_maker:
  assumes "sim_inv symb k s" and "maker_inv symb mm s" and "k + 1 < 2 ^ 64" and "mom_on_tick now symb tick (mt, s) = Some (mt', s')"
  shows "maker_inv symb mm s'"
proof -
  have ord: "sends momentum_trader Market dzero" "momentum_trader \<noteq> market_maker" by (simp_all add: sends_def)
  note other = other_sends_maker_inv [OF assms(1,2) ord assms(3)]
  from assms(2,4) show ?thesis
    by (auto simp: mom_on_tick_def Let_def split: if_splits option.splits intro: other)
qed

lemma noise_on_tick_maker:
  assumes "sim_inv symb k s" and "maker_inv symb mm s" and "\<not> is_nan price" and "finite_double (draw_offset d)"
    and "a < 5" and "a \<noteq> momentum_trader" and "a \<noteq> market_maker" and "k + 1 < 2 ^ 64" and "noise_on_tick d now symb a (set_reference_price price nt) s = Some s'"
  shows "maker_inv symb mm s'"
proof -
  let ?p = "round_to_cent (dadd price (draw_offset d))"
  have "\<not> is_nan (if dle ?p dzero then dlit 1 100 else ?p)"
    using assms(3,4) by (simp add: round_to_cent_number dadd_number finite_not_nan)
  then have ord: "sends a Limit (if dle ?p dzero then dlit 1 100 else ?p)" "sends a Market dzero"
    using assms(5,6) by (simp_all add: sends_def)
  note other = ord [THEN other_sends_maker_inv [OF assms(1,2) _ assms(7,8)]]
  from assms(2,9) show ?thesis
    unfolding noise_on_tick_def Let_def by (auto simp: set_reference_price_def split: if_splits intro: other)
qed

lemma noise_ticks_maker:
  assumes "sim_inv symb k s" and "maker_inv symb mm s" and "\<not> is_nan price" and "\<forall>j < 3. finite_double (draw_offset (noise_draws inp j))"
    and "\<forall>j \<in> set js. j < 3" and "k + length js < 2 ^ 64" and "noise_ticks inp symb price js s = Some s'"
  shows "maker_inv symb mm s'"
  using assms
proof (induction js arbitrary: k s)
  case (Cons j js)
  then obtain s1 where 1: "noise_on_tick (noise_draws inp j) (clocks inp (3 + j)) symb (2 + j) (set_reference_price price NoiseTrader_new) s = Some s1"
    and rest: "noise_ticks inp symb price js s1 = Some s'" by (auto split: option.splits)
  have "k + 1 < 2 ^ 64" "j < 3" using Cons.prems by simp_all
  then have "maker_inv symb mm s1" "sim_inv symb (k + 1) s1"
    using noise_on_tick_maker [OF Cons.prems(1-3) _ _ _ _ _ 1] noise_on_tick_inv [OF Cons.prems(1,3), of "noise_draws inp j" "2 + j" "clocks inp (3 + j)" NoiseTrader_new] 1 Cons.prems(4)
    by auto
  then show ?case using Cons.IH [of "k + 1" s1] Cons.prems rest by simp
qed simp

definition maker_state :: "SimulationConfig \<Rightarrow> SimState \<Rightarrow> bool" where
  "maker_state config st \<longleftrightarrow> maker_limits (sm_maker st) \<and> maker_inv (cfg_symbol config) (sm_maker st) (sm_sim st)"

lemma agents_tick_maker:
  assumes inv: "state_inv config k st" and mm: "maker_state config st" and legal: "legal_input inp" and k: "k + 6 < 2 ^ 64"
    and tick: "agents_tick config inp tick st = Some st'"
  shows "maker_state config st'"
proof -
  let ?symb = "cfg_symbol config"
  have st: "sim_inv ?symb k (sm_sim st)" "good_price (true_price st)" "maker_ok (sm_maker st)" using inv by (simp_all add: state_inv_def)
  have mm': "maker_limits (sm_maker st)" "maker_inv ?symb (sm_maker st) (sm_sim st)" using mm by (simp_all add: maker_state_def)
  have inp: "finite_double (maker_noise inp)" "\<forall>j < 3. finite_double (draw_offset (noise_draws inp j))"
    using legal by (simp_all add: legal_input_def)
  obtain mm1 s1 mt s2 s3 where 1: "mm_on_tick (maker_noise inp) (clocks inp 0) (clocks inp 1) ?symb (sm_maker st, sm_sim st) = Some (mm1, s1)"
    and 2: "mom_on_tick (clocks inp 2) ?symb tick (sm_momentum st, s1) = Some (mt, s2)"
    and 3: "noise_ticks inp ?symb (true_price st) [0, 1, 2] s2 = Some s3" and st': "st' = st\<lparr>sm_maker := mm1, sm_momentum := mt, sm_sim := s3\<rparr>"
    using tick unfolding agents_tick_def by (auto split: option.splits prod.splits simp del: noise_ticks.simps)
  have k': "k + 2 < 2 ^ 64" "k + 2 + 1 < 2 ^ 64" "k + 2 + 1 + length [0 :: nat, 1, 2] < 2 ^ 64" using k by simp_all
  have inv1: "sim_inv ?symb (k + 2) s1" using mm_on_tick_inv [OF st(1,3) inp(1) k'(1), of "clocks inp 0" "clocks inp 1"] 1 by auto
  have inv2: "sim_inv ?symb (k + 2 + 1) s2" using mom_on_tick_inv [OF inv1 k'(2), of "clocks inp 2" tick "sm_momentum st"] 2 by auto
  note m1 = mm_on_tick_maker [OF st(1,3) mm' inp(1) k'(1) 1]
  have m2: "maker_inv ?symb mm1 s2" by (rule mom_on_tick_maker [OF inv1 _ k'(2) 2]) (use m1 in blast)
  have "\<not> is_nan (true_price st)" "\<forall>j \<in> set [0 :: nat, 1, 2]. j < 3" using st(2) by (simp_all add: good_price_def)
  from noise_ticks_maker [OF inv2 m2 this(1) inp(2) this(2) k'(3) 3] m1 show ?thesis by (simp add: st' maker_state_def)
qed

lemma sim_tick_maker:
  assumes inv: "state_inv config k st" and mm: "maker_state config st" and legal: "legal_input inp" and k: "k + 6 < 2 ^ 64"
    and tick: "sim_tick config inp tick st = Inr st'"
  shows "maker_state config st'"
proof (rule agents_tick_maker [OF push_price_inv [OF inv legal] _ legal k])
  have frame: "agent_position a (update_price p m) = agent_position a m" "order_owner (update_price p m) = order_owner m" for a p m
    by (simp_all add: agent_position_def account_def update_price_def Let_def)
  show "maker_state config (push_price (return_pct inp) tick st)"
    using mm by (auto simp: push_price_def maker_state_def maker_limits_def maker_inv_def set_fair_value_def up_def down_def owns_def
        case_prod_unfold frame Let_def)
  show "agents_tick config inp tick (push_price (return_pct inp) tick st) = Some st'"
    using tick by (auto simp: sim_tick_def split: option.splits if_splits)
qed

lemma maker_state_start: "maker_state config (sim_start (Simulation_new config))"
  by (simp add: maker_state_def maker_limits_def maker_inv_def up_def down_def owns_def sim_start_def Simulation_new_def MarketMaker_new_def
      agent_position_def account_def TraderStats_new_def owned_open_def set_trade_callback_def MatchingEngine_new_def book_of_eq)

text \<open>C22. The market maker's booked position never leaves the range from -1099 to 1099: it quotes 100 shares a side, a
  side only while the position is below the limit of 1000, and the quotes of the last tick are cancelled
  first. The limit itself is not a bound: a quote sent at 999 may still be filled.\<close>

theorem maker_position_bounded:
  assumes "good_price (initial_price config)" and "\<forall>n. legal_input (inputs n)" and "6 * n + 1 < 2 ^ 64"
    and "sim_loop config inputs n (sim_start (Simulation_new config)) = Inr st"
  shows "\<bar>sint (ts_position (account market_maker (snd (sm_sim st))))\<bar> \<le> 1099"
proof -
  have "maker_state config st" using assms(3,4)
  proof (induction n arbitrary: st)
    case 0
    then have st: "st = sim_start (Simulation_new config)" by simp
    show ?case unfolding st by (rule maker_state_start)
  next
    case (Suc n)
    then obtain st1 where 1: "sim_loop config inputs n (sim_start (Simulation_new config)) = Inr st1"
      "sim_tick config (inputs n) (of_nat n) st1 = Inr st" by (auto split: sum.splits)
    have "maker_state config st1" using Suc 1(1) by simp
    moreover have "state_inv config (6 * n + 1) st1"
      using sim_loop_inv [OF sim_start_inv [OF assms(1)] assms(2), of n] Suc.prems(1) 1(1) by simp
    ultimately show ?case using sim_tick_maker [OF _ _ _ _ 1(2), of "6 * n + 1"] assms(2) Suc.prems(1) by auto
  qed
  then have "maker_inv (cfg_symbol config) (sm_maker st) (sm_sim st)" by (simp add: maker_state_def)
  from maker_inv_position [OF this] show ?thesis by (simp add: agent_position_def)
qed

theorem maker_position_bounded_witness:
  "\<exists>st. sim_loop SimulationConfig_default (\<lambda>_. quiet_input) 10000 (sim_start (Simulation_new SimulationConfig_default)) = Inr st
     \<and> \<bar>sint (ts_position (account market_maker (snd (sm_sim st))))\<bar> \<le> 1099"
proof -
  have cfg: "good_price (initial_price SimulationConfig_default)" "num_ticks SimulationConfig_default = 10000"
    using quiet_legal(2) by (simp_all add: SimulationConfig_default_def)
  then obtain st where "sim_loop SimulationConfig_default (\<lambda>_. quiet_input) 10000 (sim_start (Simulation_new SimulationConfig_default)) = Inr st"
    using sim_run_inv [OF cfg(1), of "\<lambda>_. quiet_input"] quiet_legal(1) by (auto split: sum.splits)
  with maker_position_bounded [OF cfg(1) _ _ this] quiet_legal(1) show ?thesis by auto
qed

end
