(* ===== verification/SeededSimulation.thy ===== *)
theory SeededSimulation
  imports RandomNumbers MakerBound
begin

text \<open>
  The simulation with its random number generators: one Mersenne Twister per agent, seeded by \<^verbatim>\<open>std::random_device\<close> in the
  constructor of \<^verbatim>\<open>Trader\<close>, and the one of the price walk, seeded with 42 in \<^verbatim>\<open>Simulation::run\<close>. The agents draw where
  the code draws: a noise trader that does not trade in a tick takes one number, one that sends a market order four, one
  that sends a limit order five. \<open>Simulation\<close> takes the numbers of a tick as its input; here it is shown that the
  simulation with generators is that simulation on inputs in range, whatever the seeds, and that the price walk depends on
  nothing but the configuration.
\<close>

section \<open>The agents\<close>

definition mm_on_tick_rng :: "'n distributions \<Rightarrow> clock \<Rightarrow> clock \<Rightarrow> string \<Rightarrow> mt19937 \<times> MarketMaker \<times> sim
    \<Rightarrow> (mt19937 \<times> MarketMaker \<times> sim) option" where
  "mm_on_tick_rng D now_bid now_ask symb = (\<lambda>(rng, st).
     (let (noise, rng') = run_state (random_double D (dneg (dlit 2 100)) (dlit 2 100)) rng
      in map_option (Pair rng') (mm_on_tick noise now_bid now_ask symb st)))"

text \<open>The body of \<^verbatim>\<open>NoiseTrader::on_tick\<close> up to \<^verbatim>\<open>send_order\<close>: the order it will send, if any.\<close>

definition noise_decide :: "'n distributions \<Rightarrow> NoiseTrader \<Rightarrow> (mt19937, (Side \<times> OrderType \<times> Price \<times> Quantity) option) state" where
  "noise_decide D nt = do {
     trade \<leftarrow> random_double D dzero (dlit 1 1);
     if dgt trade (trade_probability nt) then State_Monad.return None
     else do {
       coin \<leftarrow> random_int D 0 1;
       lots \<leftarrow> random_int D 1 (max_size nt div 10);
       limit \<leftarrow> random_double D dzero (dlit 1 1);
       if dlt limit (dlit 7 10) then do {
         offset \<leftarrow> random_double D (dneg (price_range nt)) (price_range nt);
         let price = round_to_cent (dadd (reference_price nt) offset);
         State_Monad.return (Some (if coin = 0 then Buy else Sell, Limit, if dle price dzero then dlit 1 100 else price, of_int (lots * 10)))
       }
       else State_Monad.return (Some (if coin = 0 then Buy else Sell, Market, dzero, of_int (lots * 10)))
     }
   }"

definition noise_on_tick_rng :: "'n distributions \<Rightarrow> clock \<Rightarrow> string \<Rightarrow> agent \<Rightarrow> NoiseTrader \<Rightarrow> mt19937 \<times> sim \<Rightarrow> (mt19937 \<times> sim) option" where
  "noise_on_tick_rng D now symb a nt = (\<lambda>(rng, s).
     (case run_state (noise_decide D nt) rng of
        (None, rng') \<Rightarrow> Some (rng', s)
      | (Some (side, ty, price, qty), rng') \<Rightarrow>
          map_option (\<lambda>(i, s'). (rng', s')) (send_order now symb a side ty price qty s)))"

section \<open>The simulation\<close>

record 'n Generators =
  agent_rngs :: "mt19937 list"
  price_rng :: mt19937
  price_dist :: 'n

definition generators_new :: "'n distributions \<Rightarrow> (agent \<Rightarrow> 32 word) \<Rightarrow> 'n Generators" where
  "generators_new D seeds = \<lparr>agent_rngs = map (\<lambda>a. mt_seed (seeds a)) [0..<5], price_rng = mt_seed 42, price_dist = normal_init D\<rparr>"

fun noise_ticks_rng :: "'n distributions \<Rightarrow> (nat \<Rightarrow> clock) \<Rightarrow> string \<Rightarrow> double \<Rightarrow> nat list \<Rightarrow> mt19937 list \<times> sim \<Rightarrow> (mt19937 list \<times> sim) option" where
  "noise_ticks_rng D clk symb price [] (rngs, s) = Some (rngs, s)"
| "noise_ticks_rng D clk symb price (j # js) (rngs, s) =
     (case noise_on_tick_rng D (clk (3 + j)) symb (2 + j) (set_reference_price price NoiseTrader_new) (rngs ! (2 + j), s) of
        None \<Rightarrow> None
      | Some (rng, s1) \<Rightarrow> noise_ticks_rng D clk symb price js (rngs[2 + j := rng], s1))"

definition agents_tick_rng :: "'n distributions \<Rightarrow> SimulationConfig \<Rightarrow> (nat \<Rightarrow> clock) \<Rightarrow> uint64 \<Rightarrow> mt19937 list \<times> SimState
    \<Rightarrow> (mt19937 list \<times> SimState) option" where
  "agents_tick_rng D config clk tick = (\<lambda>(rngs, st).
     (case mm_on_tick_rng D (clk 0) (clk 1) (cfg_symbol config) (rngs ! market_maker, sm_maker st, sm_sim st) of
        None \<Rightarrow> None
      | Some (rng, mm, s1) \<Rightarrow>
          (case mom_on_tick (clk 2) (cfg_symbol config) tick (sm_momentum st, s1) of
             None \<Rightarrow> None
           | Some (mt, s2) \<Rightarrow>
               (case noise_ticks_rng D clk (cfg_symbol config) (true_price st) [0, 1, 2] (rngs[market_maker := rng], s2) of
                  None \<Rightarrow> None
                | Some (rngs', s3) \<Rightarrow> Some (rngs', st\<lparr>sm_maker := mm, sm_momentum := mt, sm_sim := s3\<rparr>)))))"

definition sim_tick_rng :: "'n distributions \<Rightarrow> SimulationConfig \<Rightarrow> (nat \<Rightarrow> clock) \<Rightarrow> uint64 \<Rightarrow> 'n Generators \<times> SimState
    \<Rightarrow> sim_error + 'n Generators \<times> SimState" where
  "sim_tick_rng D config clk tick = (\<lambda>(gs, st).
     (let (ret, rng, dist) = run_state (normal_dist D dzero (price_volatility config)) (price_rng gs, price_dist gs)
      in case agents_tick_rng D config clk tick (agent_rngs gs, push_price ret tick st) of
           None \<Rightarrow> Inl NoReturn
         | Some (rngs, st1) \<Rightarrow>
             if 0 < tick \<and> num_ticks config div 10 = 0 then Inl DivisionByZero
             else Inr (\<lparr>agent_rngs = rngs, price_rng = rng, price_dist = dist\<rparr>, st1)))"

primrec sim_loop_rng :: "'n distributions \<Rightarrow> SimulationConfig \<Rightarrow> (nat \<Rightarrow> nat \<Rightarrow> clock) \<Rightarrow> nat \<Rightarrow> 'n Generators \<times> SimState
    \<Rightarrow> sim_error + 'n Generators \<times> SimState" where
  "sim_loop_rng D config clks 0 st = Inr st"
| "sim_loop_rng D config clks (Suc n) st =
     (case sim_loop_rng D config clks n st of
        Inl err \<Rightarrow> Inl err
      | Inr st1 \<Rightarrow> sim_tick_rng D config (clks n) (of_nat n) st1)"

definition simulation_run_rng :: "'n distributions \<Rightarrow> SimulationConfig \<Rightarrow> double \<Rightarrow> (agent \<Rightarrow> 32 word) \<Rightarrow> (nat \<Rightarrow> nat \<Rightarrow> clock)
    \<Rightarrow> sim_error + SimulationResults" where
  "simulation_run_rng D config wall_sec seeds clks =
     (case sim_loop_rng D config clks (unat (num_ticks config)) (generators_new D seeds, sim_start (Simulation_new config)) of
        Inl err \<Rightarrow> Inl err
      | Inr (gs, st) \<Rightarrow> Inr (sim_results config wall_sec st))"

section \<open>The numbers of a tick\<close>

text \<open>What the generators will give in a tick: the draws of a noise trader, all five whether it uses them or not, and the
  input of \<open>Simulation\<close>.\<close>

definition noise_drawn :: "'n distributions \<Rightarrow> NoiseTrader \<Rightarrow> mt19937 \<Rightarrow> NoiseDraws" where
  "noise_drawn D nt rng =
     (let (trade, rng1) = run_state (random_double D dzero (dlit 1 1)) rng;
          (coin, rng2) = run_state (random_int D 0 1) rng1;
          (lots, rng3) = run_state (random_int D 1 (max_size nt div 10)) rng2;
          (limit, rng4) = run_state (random_double D dzero (dlit 1 1)) rng3;
          (offset, rng5) = run_state (random_double D (dneg (price_range nt)) (price_range nt)) rng4
      in \<lparr>draw_trade = trade, draw_side = coin, draw_lots = nat lots, draw_limit = limit, draw_offset = offset\<rparr>)"

abbreviation noise_advance :: "'n distributions \<Rightarrow> mt19937 \<Rightarrow> mt19937" where
  "noise_advance D rng \<equiv> snd (run_state (noise_decide D NoiseTrader_new) rng)"

abbreviation maker_draw :: "'n distributions \<Rightarrow> mt19937 \<Rightarrow> double \<times> mt19937" where
  "maker_draw D \<equiv> run_state (random_double D (dneg (dlit 2 100)) (dlit 2 100))"

abbreviation walk_draw :: "'n distributions \<Rightarrow> SimulationConfig \<Rightarrow> 'n Generators \<Rightarrow> double \<times> mt19937 \<times> 'n" where
  "walk_draw D config gs \<equiv> run_state (normal_dist D dzero (price_volatility config)) (price_rng gs, price_dist gs)"

definition drawn_input :: "'n distributions \<Rightarrow> SimulationConfig \<Rightarrow> (nat \<Rightarrow> clock) \<Rightarrow> 'n Generators \<Rightarrow> TickInput" where
  "drawn_input D config clk gs =
     \<lparr>return_pct = fst (walk_draw D config gs), maker_noise = fst (maker_draw D (agent_rngs gs ! market_maker)),
      noise_draws = (\<lambda>j. noise_drawn D NoiseTrader_new (agent_rngs gs ! (2 + j))), clocks = clk\<rparr>"

text \<open>How far the generators are after a tick depends on the generators alone, on no price and on no order.\<close>

definition advance :: "'n distributions \<Rightarrow> SimulationConfig \<Rightarrow> 'n Generators \<Rightarrow> 'n Generators" where
  "advance D config gs =
     \<lparr>agent_rngs = fold (\<lambda>j rngs. rngs[2 + j := noise_advance D (rngs ! (2 + j))]) [0, 1, 2]
        ((agent_rngs gs)[market_maker := snd (maker_draw D (agent_rngs gs ! market_maker))]),
      price_rng = fst (snd (walk_draw D config gs)), price_dist = snd (snd (walk_draw D config gs))\<rparr>"

definition drawn_inputs :: "'n distributions \<Rightarrow> SimulationConfig \<Rightarrow> (agent \<Rightarrow> 32 word) \<Rightarrow> (nat \<Rightarrow> nat \<Rightarrow> clock) \<Rightarrow> nat \<Rightarrow> TickInput" where
  "drawn_inputs D config seeds clks n = drawn_input D config (clks n) ((advance D config ^^ n) (generators_new D seeds))"

lemma noise_reference [simp]:
  "noise_drawn D (set_reference_price p nt) rng = noise_drawn D nt rng"
  "snd (run_state (noise_decide D (set_reference_price p nt)) rng) = snd (run_state (noise_decide D nt) rng)"
  by (simp_all add: noise_drawn_def noise_decide_def set_reference_price_def split_def Let_def)

section \<open>The simulation with generators is a simulation on drawn inputs\<close>

lemma noise_drawn_cases:
  obtains trade rng1 coin rng2 lots rng3 limit rng4 off rng5
  where "run_state (random_double D dzero (dlit 1 1)) rng = (trade, rng1)" "run_state (random_int D 0 1) rng1 = (coin, rng2)"
    "run_state (random_int D 1 (max_size nt div 10)) rng2 = (lots, rng3)"
    "run_state (random_double D dzero (dlit 1 1)) rng3 = (limit, rng4)"
    "run_state (random_double D (dneg (price_range nt)) (price_range nt)) rng4 = (off, rng5)"
    "noise_drawn D nt rng = \<lparr>draw_trade = trade, draw_side = coin, draw_lots = nat lots, draw_limit = limit, draw_offset = off\<rparr>"
proof -
  obtain trade rng1 where 1: "run_state (random_double D dzero (dlit 1 1)) rng = (trade, rng1)" by fastforce
  obtain coin rng2 where 2: "run_state (random_int D 0 1) rng1 = (coin, rng2)" by fastforce
  obtain lots rng3 where 3: "run_state (random_int D 1 (max_size nt div 10)) rng2 = (lots, rng3)" by fastforce
  obtain limit rng4 where 4: "run_state (random_double D dzero (dlit 1 1)) rng3 = (limit, rng4)" by fastforce
  obtain off rng5 where 5: "run_state (random_double D (dneg (price_range nt)) (price_range nt)) rng4 = (off, rng5)" by fastforce
  have "noise_drawn D nt rng = \<lparr>draw_trade = trade, draw_side = coin, draw_lots = nat lots, draw_limit = limit, draw_offset = off\<rparr>"
    by (simp add: noise_drawn_def 1 2 3 4 5 del: One_nat_def)
  with that 1 2 3 4 5 show thesis by blast
qed

lemma noise_on_tick_rng_eq:
  assumes "in_range D" and "10 \<le> max_size nt"
  shows "noise_on_tick_rng D now symb a nt (rng, s) =
    map_option (Pair (snd (run_state (noise_decide D nt) rng))) (noise_on_tick (noise_drawn D nt rng) now symb a nt s)"
proof (rule noise_drawn_cases [of D rng nt])
  fix trade rng1 coin rng2 lots rng3 limit rng4 off rng5
  assume draws: "run_state (random_double D dzero (dlit 1 1)) rng = (trade, rng1)" "run_state (random_int D 0 1) rng1 = (coin, rng2)"
    "run_state (random_int D 1 (max_size nt div 10)) rng2 = (lots, rng3)"
    "run_state (random_double D dzero (dlit 1 1)) rng3 = (limit, rng4)"
    "run_state (random_double D (dneg (price_range nt)) (price_range nt)) rng4 = (off, rng5)"
    and drawn: "noise_drawn D nt rng = \<lparr>draw_trade = trade, draw_side = coin, draw_lots = nat lots, draw_limit = limit, draw_offset = off\<rparr>"
  have "1 \<le> max_size nt div 10" using assms(2) by simp
  from random_int_range(1) [OF assms(1) this draws(3)] have "(of_nat (nat lots) :: Quantity) = of_int lots" by simp
  then show ?thesis
    by (simp add: noise_on_tick_rng_def noise_on_tick_def noise_decide_def drawn draws Let_def option.map_comp comp_def
        split_def del: One_nat_def)
qed

lemma noise_ticks_rng_eq:
  assumes "in_range D" and "distinct js" and "\<forall>j \<in> set js. 2 + j < length rngs"
    and "\<forall>j \<in> set js. noise_draws inp j = noise_drawn D NoiseTrader_new (rngs ! (2 + j))"
  shows "noise_ticks_rng D (clocks inp) symb price js (rngs, s) =
    map_option (Pair (fold (\<lambda>j rngs. rngs[2 + j := noise_advance D (rngs ! (2 + j))]) js rngs)) (noise_ticks inp symb price js s)"
  using assms(2-)
proof (induction js arbitrary: rngs s)
  case (Cons j js)
  have size: "10 \<le> max_size (set_reference_price price NoiseTrader_new)" by (simp add: set_reference_price_def NoiseTrader_new_def)
  let ?rngs = "rngs[2 + j := noise_advance D (rngs ! (2 + j))]"
  have "noise_ticks_rng D (clocks inp) symb price js (?rngs, s') =
      map_option (Pair (fold (\<lambda>j rngs. rngs[2 + j := noise_advance D (rngs ! (2 + j))]) js ?rngs)) (noise_ticks inp symb price js s')" for s'
    using Cons.prems by (intro Cons.IH) (auto simp: nth_list_update)
  then show ?case
    using Cons.prems by (simp add: noise_on_tick_rng_eq [OF assms(1) size] split: option.split)
qed simp

lemma sim_tick_rng_eq:
  assumes "in_range D" and "length (agent_rngs gs) = 5"
  shows "sim_tick_rng D config clk tick (gs, st) = map_sum id (Pair (advance D config gs)) (sim_tick config (drawn_input D config clk gs) tick st)"
proof -
  let ?inp = "drawn_input D config clk gs" and ?rngs = "(agent_rngs gs)[market_maker := snd (maker_draw D (agent_rngs gs ! market_maker))]"
  have noise: "noise_ticks_rng D clk symb price [0, 1, 2] (?rngs, s) =
      map_option (Pair (agent_rngs (advance D config gs))) (noise_ticks ?inp symb price [0, 1, 2] s)" for symb price s
    using noise_ticks_rng_eq [OF assms(1), of "[0, 1, 2]" ?rngs ?inp symb price s] assms(2)
    by (simp add: drawn_input_def advance_def del: noise_ticks.simps noise_ticks_rng.simps)
  have inp: "clocks ?inp = clk" "maker_noise ?inp = fst (maker_draw D (agent_rngs gs ! market_maker))"
    "return_pct ?inp = fst (walk_draw D config gs)" by (simp_all add: drawn_input_def)
  have "agents_tick_rng D config clk tick (agent_rngs gs, st') =
      map_option (Pair (agent_rngs (advance D config gs))) (agents_tick config ?inp tick st')" for st'
    unfolding agents_tick_rng_def agents_tick_def mm_on_tick_rng_def split_def prod.sel Let_def inp noise
    by (auto simp del: noise_ticks.simps noise_ticks_rng.simps One_nat_def simp: noise split: option.split)
  moreover have "\<lparr>agent_rngs = agent_rngs (advance D config gs), price_rng = fst (snd (walk_draw D config gs)),
      price_dist = snd (snd (walk_draw D config gs))\<rparr> = advance D config gs" by (simp add: advance_def)
  ultimately show ?thesis
    by (auto simp: sim_tick_rng_def sim_tick_def split_def inp Let_def split: option.split)
qed

lemma advance_length: "length (agent_rngs ((advance D config ^^ n) (generators_new D seeds))) = 5"
  by (induction n) (simp_all add: generators_new_def advance_def)

lemma sim_loop_rng_eq:
  assumes "in_range D"
  shows "sim_loop_rng D config clks n (generators_new D seeds, st) =
    map_sum id (Pair ((advance D config ^^ n) (generators_new D seeds))) (sim_loop config (drawn_inputs D config seeds clks) n st)"
  by (induction n)
    (simp_all add: sim_tick_rng_eq [OF assms advance_length] drawn_inputs_def id_def split: sum.split)

lemma simulation_run_rng_eq:
  assumes "in_range D"
  shows "simulation_run_rng D config wall_sec seeds clks = simulation_run config wall_sec (drawn_inputs D config seeds clks)"
  by (simp add: simulation_run_rng_def simulation_run_def sim_loop_rng_eq [OF assms] split: sum.split)

section \<open>The drawn inputs are legal\<close>

lemma between_finite:
  assumes "dle a x" and "dle x b" and "finite_double a" and "finite_double b"
  shows "finite_double x"
proof -
  define A B X M where "A = uint (mag a)" and "B = uint (mag b)" and "X = uint (mag x)" and "M = uint inf_mag"
  note defs = this
  have "mag a < inf_mag" "mag b < inf_mag" using assms(3,4) by (auto simp: finite_double_def is_nan_def is_inf_def)
  then have "0 \<le> A" "A < M" "0 \<le> B" "B < M" by (simp_all add: defs word_less_def)
  with assms(1,2) have "X \<noteq> M" unfolding dle_def rank_def defs(1-3) [symmetric] by (auto split: if_splits)
  with assms(1) show ?thesis by (auto simp: finite_double_def dle_def is_inf_def defs)
qed

lemma dneg_dle: "\<not> is_nan p \<Longrightarrow> \<not> sign_bit p \<Longrightarrow> dle (dneg p) p"
  by (simp add: dle_def rank_def dneg_def is_nan_def)

lemma noise_drawn_in_range:
  assumes "in_range D" and "10 \<le> max_size nt" and "dle (dneg (price_range nt)) (price_range nt)"
  shows "draws_in_range nt (noise_drawn D nt rng)"
proof (rule noise_drawn_cases [of D rng nt])
  fix trade rng1 coin rng2 lots rng3 limit rng4 off rng5
  assume draws: "run_state (random_int D 0 1) rng1 = (coin, rng2)" "run_state (random_int D 1 (max_size nt div 10)) rng2 = (lots, rng3)"
    "run_state (random_double D (dneg (price_range nt)) (price_range nt)) rng4 = (off, rng5)"
    and drawn: "noise_drawn D nt rng = \<lparr>draw_trade = trade, draw_side = coin, draw_lots = nat lots, draw_limit = limit, draw_offset = off\<rparr>"
  have "1 \<le> max_size nt div 10" using assms(2) by simp
  from random_int_range [OF assms(1) this draws(2)] random_int_range [OF assms(1) _ draws(1)] random_double_range [OF assms(1,3) draws(3)]
  show ?thesis by (auto simp: draws_in_range_def drawn)
qed

lemma literal_symmetric:
  assumes "0 < d" and "n < 2 ^ 20" and "d \<le> n * one_units"
  shows "dle (dneg (dlit n d)) (dlit n d)" "finite_double (dlit n d)"
  using dlit_number(1) [OF assms(1,2)] dlit_number(3) [OF assms]
  by (auto intro!: dneg_dle simp: finite_double_def rank_def split: if_splits)

lemma noise_new_in_range:
  assumes "in_range D"
  shows "draws_in_range NoiseTrader_new (noise_drawn D NoiseTrader_new rng)"
    "finite_double (draw_offset (noise_drawn D NoiseTrader_new rng))"
proof -
  have range: "dle (dneg (price_range NoiseTrader_new)) (price_range NoiseTrader_new)" "finite_double (price_range NoiseTrader_new)"
    using literal_symmetric [of 2 1] by (simp_all add: NoiseTrader_new_def)
  show 1: "draws_in_range NoiseTrader_new (noise_drawn D NoiseTrader_new rng)"
    by (rule noise_drawn_in_range [OF assms _ range(1)]) (simp add: NoiseTrader_new_def)
  show "finite_double (draw_offset (noise_drawn D NoiseTrader_new rng))"
    by (rule between_finite [of "dneg (price_range NoiseTrader_new)" _ "price_range NoiseTrader_new"])
      (use 1 range(2) in \<open>simp_all add: draws_in_range_def\<close>)
qed

lemma maker_draw_finite:
  assumes "in_range D"
  shows "finite_double (fst (maker_draw D rng))"
proof -
  have m: "dle (dneg (dlit 2 100)) (dlit 2 100)" "finite_double (dlit 2 100)" using literal_symmetric [of 100 2] by simp_all
  obtain x rng' where x: "maker_draw D rng = (x, rng')" by fastforce
  from between_finite [OF random_double_range [OF assms m(1) x]] m(2) show ?thesis by (simp add: x)
qed

lemma drawn_input_legal:
  assumes "in_range D" and "good_price (dadd (dlit 1 1) (fst (walk_draw D config gs)))"
  shows "legal_input (drawn_input D config clk gs)"
  using assms(2) maker_draw_finite [OF assms(1)] noise_new_in_range(2) [OF assms(1)]
  by (simp add: legal_input_def drawn_input_def)

section \<open>Properties\<close>

text \<open>The returns a normal distribution gives to a walk: none takes the whole price away.\<close>

definition walk_ok :: "'n distributions \<Rightarrow> SimulationConfig \<Rightarrow> bool" where
  "walk_ok D config \<longleftrightarrow> (\<forall>s. good_price (dadd (dlit 1 1) (fst (run_state (normal_dist D dzero (price_volatility config)) s))))"

lemma drawn_inputs_legal: "in_range D \<Longrightarrow> walk_ok D config \<Longrightarrow> legal_input (drawn_inputs D config seeds clks n)"
  by (simp add: drawn_inputs_def drawn_input_legal walk_ok_def)

lemma simulation_run_rng_returns:
  assumes "in_range D" and "walk_ok D config" and "good_price (initial_price config)"
    and "10 \<le> num_ticks config" and "6 * unat (num_ticks config) + 1 < 2 ^ 64"
  obtains res where "simulation_run_rng D config wall_sec seeds clks = Inr res"
  using sim_run_inv [OF assms(3) _ assms(5), of "drawn_inputs D config seeds clks"] drawn_inputs_legal [OF assms(1,2)] assms(4)
  by (auto simp: simulation_run_rng_eq [OF assms(1)] simulation_run_def split: sum.splits)


text \<open>The walk of the reference price by itself: the price and the generator of the walk after some ticks.\<close>

primrec price_walk :: "'n distributions \<Rightarrow> SimulationConfig \<Rightarrow> nat \<Rightarrow> double \<times> mt19937 \<times> 'n" where
  "price_walk D config 0 = (initial_price config, mt_seed 42, normal_init D)"
| "price_walk D config (Suc n) =
     (let (price, s) = price_walk D config n; (ret, s') = run_state (normal_dist D dzero (price_volatility config)) s
      in (next_price ret price, s'))"

lemma agents_tick_rng_price:
  "agents_tick_rng D config clk tick (rngs, st) = Some (rngs', st') \<Longrightarrow> true_price st' = true_price st"
  by (auto simp: agents_tick_rng_def split: option.splits prod.splits)

lemma push_price_true_price [simp]: "true_price (push_price ret tick st) = next_price ret (true_price st)"
  by (simp add: push_price_def Let_def)

lemma sim_loop_rng_walk:
  "sim_loop_rng D config clks n (generators_new D seeds, sim_start (Simulation_new config)) = Inr (gs, st)
   \<Longrightarrow> (true_price st, price_rng gs, price_dist gs) = price_walk D config n"
proof (induction n arbitrary: gs st)
  case 0
  then show ?case by (auto simp: generators_new_def sim_start_def Simulation_new_def)
next
  case (Suc n)
  then obtain gs1 st1 where 1: "sim_loop_rng D config clks n (generators_new D seeds, sim_start (Simulation_new config)) = Inr (gs1, st1)"
    and tick: "sim_tick_rng D config (clks n) (of_nat n) (gs1, st1) = Inr (gs, st)"
    by (auto split: sum.splits)
  have "true_price st = next_price (fst (walk_draw D config gs1)) (true_price st1)"
    "(price_rng gs, price_dist gs) = snd (walk_draw D config gs1)"
    using tick agents_tick_rng_price [of D config "clks n" "of_nat n" "agent_rngs gs1" _ "agent_rngs gs" st]
    by (auto simp: sim_tick_rng_def split: option.splits prod.splits if_splits)
  then show ?case using Suc.IH [OF 1, symmetric] by (simp add: split_def Let_def)
qed

text \<open>C24. Only the price walk is seeded: the final price and the return a simulation reports are those of the walk, so
  they are the same in every run of a configuration, whatever the agents' seeds, the clocks and the orders the agents
  send.\<close>

theorem price_walk_reproducible:
  assumes "simulation_run_rng D config wall_sec seeds clks = Inr res"
  shows "sr_final_price res = fst (price_walk D config (unat (num_ticks config)))
    \<and> sr_price_return_pct res = dmul (ddiv (dsub (fst (price_walk D config (unat (num_ticks config)))) (initial_price config))
        (initial_price config)) (dlit 100 1)"
proof -
  obtain gs st where loop: "sim_loop_rng D config clks (unat (num_ticks config)) (generators_new D seeds, sim_start (Simulation_new config)) = Inr (gs, st)"
    and res: "res = sim_results config wall_sec st"
    using assms by (auto simp: simulation_run_rng_def split: sum.splits prod.splits)
  from sim_loop_rng_walk [OF loop] have "true_price st = fst (price_walk D config (unat (num_ticks config)))" by (metis fst_conv)
  then show ?thesis by (simp add: res sim_results_def Let_def)
qed

section \<open>Instances\<close>

text \<open>The default configuration with the distributions of \<open>by_reduction\<close>.\<close>

lemma default_seeded:
  "walk_ok by_reduction SimulationConfig_default" "good_price (initial_price SimulationConfig_default)"
  "10 \<le> num_ticks SimulationConfig_default" "6 * unat (num_ticks SimulationConfig_default) + 1 < 2 ^ 64"
  using quiet_legal by (simp_all add: walk_ok_def by_reduction_def legal_input_def quiet_input_def SimulationConfig_default_def)


theorem price_walk_reproducible_witness:
  "\<exists>res. simulation_run_rng by_reduction SimulationConfig_default dzero (\<lambda>a. of_nat (a + 7)) (\<lambda>_ _ _. 0) = Inr res
    \<and> sr_final_price res = fst (price_walk by_reduction SimulationConfig_default 10000)"
proof (rule simulation_run_rng_returns [OF by_reduction_in_range default_seeded, of dzero "\<lambda>a. of_nat (a + 7)" "\<lambda>_ _ _. 0"])
  fix res
  assume "simulation_run_rng by_reduction SimulationConfig_default dzero (\<lambda>a. of_nat (a + 7)) (\<lambda>_ _ _. 0) = Inr res"
  from this price_walk_reproducible [OF this] show ?thesis by (simp add: SimulationConfig_default_def)
qed

end
