(* ===== verification/Tape.thy ===== *)
theory Tape
  imports Types
begin

text \<open>
  The tape reader of \<^verbatim>\<open>src/replay/ReplayHarness.cpp\<close>: lines, fields, numbers, and the \<open>next\<close> event. A
  tape is the content of the file. The functions of the C++ library the reader uses are given here
  as they are specified: \<^verbatim>\<open>std::getline\<close> with a delimiter, \<^verbatim>\<open>std::stoll\<close>, \<^verbatim>\<open>std::stoull\<close> and
  \<^verbatim>\<open>std::stod\<close>, where \<open>None\<close> stands for the exception they throw.
\<close>

section \<open>Library: lines and numbers\<close>

text \<open>The strings successive calls of \<^verbatim>\<open>std::getline\<close> extract until one fails: a call fails when nothing is
  left, so a delimiter at the end starts no further string.\<close>

lemma length_dropWhile: "length (dropWhile P xs) \<le> length xs"
  by (induction xs) auto

function getlines :: "char \<Rightarrow> string \<Rightarrow> string list" where
  "getlines d s = (if s = [] then []
     else takeWhile (\<lambda>c. c \<noteq> d) s # getlines d (drop 1 (dropWhile (\<lambda>c. c \<noteq> d) s)))"
  by pat_completeness auto

termination
proof (relation "measure (\<lambda>(d, s). length s)", goal_cases)
  case (2 d s)
  then show ?case using length_dropWhile [of "\<lambda>c. c \<noteq> d" s] by (cases "dropWhile (\<lambda>c. c \<noteq> d) s"; cases s) auto
qed simp

declare getlines.simps [simp del]

definition is_space :: "char \<Rightarrow> bool" where
  "is_space c \<longleftrightarrow> c = CHR '' '' \<or> (9 \<le> (of_char c :: nat) \<and> of_char c \<le> (13 :: nat))"

definition digit_val :: "char \<Rightarrow> nat option" where
  "digit_val c = (let n = of_char c in if 48 \<le> n \<and> n \<le> 57 then Some (n - 48) else None)"

definition hex_val :: "char \<Rightarrow> nat option" where
  "hex_val c = (let n = of_char c in
     if 48 \<le> n \<and> n \<le> 57 then Some (n - 48) else if 97 \<le> n \<and> n \<le> 102 then Some (n - 87)
     else if 65 \<le> n \<and> n \<le> 70 then Some (n - 55) else None)"

text \<open>The longest prefix of digits: its value in the base, its length, and what follows.\<close>

fun digits :: "(char \<Rightarrow> nat option) \<Rightarrow> nat \<Rightarrow> nat \<Rightarrow> nat \<Rightarrow> string \<Rightarrow> nat \<times> nat \<times> string" where
  "digits val base acc n [] = (acc, n, [])"
| "digits val base acc n (c # cs) =
     (case val c of Some d \<Rightarrow> digits val base (acc * base + d) (Suc n) cs | None \<Rightarrow> (acc, n, c # cs))"

definition sign_of :: "string \<Rightarrow> bool \<times> string" where
  "sign_of s = (case s of c # cs \<Rightarrow> if c = CHR ''-'' then (True, cs) else if c = CHR ''+'' then (False, cs) else (False, s)
     | [] \<Rightarrow> (False, []))"

text \<open>\<^verbatim>\<open>strtoll\<close> and \<^verbatim>\<open>strtoull\<close> read the same: white space, a sign, decimal digits.\<close>

definition strtoint :: "string \<Rightarrow> (bool \<times> nat) option" where
  "strtoint s = (let (neg, s1) = sign_of (dropWhile is_space s); (v, n, rest) = digits digit_val 10 0 0 s1
     in if n = 0 then None else Some (neg, v))"

definition stoll :: "string \<Rightarrow> 64 word option" where
  "stoll s = (case strtoint s of None \<Rightarrow> None
     | Some (neg, v) \<Rightarrow> if neg then (if v \<le> 2 ^ 63 then Some (- of_nat v) else None)
                        else (if v < 2 ^ 63 then Some (of_nat v) else None))"

definition stoull :: "string \<Rightarrow> 64 word option" where
  "stoull s = (case strtoint s of None \<Rightarrow> None
     | Some (neg, v) \<Rightarrow> if v < 2 ^ 64 then Some (if neg then - of_nat v else of_nat v) else None)"

text \<open>An optional exponent: its marker, a sign, decimal digits; not read unless there is a digit.\<close>

definition exponent :: "char list \<Rightarrow> string \<Rightarrow> int" where
  "exponent marks s = (case s of [] \<Rightarrow> 0
     | c # cs \<Rightarrow> if c \<in> set marks
                 then (let (neg, s1) = sign_of cs; (v, n, rest) = digits digit_val 10 0 0 s1
                       in if n = 0 then 0 else if neg then - int v else int v)
                 else 0)"

text \<open>A mantissa with an optional point: the digits read as one number, how many of them stand behind the
  point, how many there are, and what follows.\<close>

definition mantissa :: "(char \<Rightarrow> nat option) \<Rightarrow> nat \<Rightarrow> string \<Rightarrow> nat \<times> nat \<times> nat \<times> string" where
  "mantissa val base s =
     (let (v, n, rest) = digits val base 0 0 s
      in case rest of
           [] \<Rightarrow> (v, 0, n, [])
         | c # cs \<Rightarrow> if c = CHR ''.''
                     then (let (v2, n2, rest2) = digits val base v 0 cs in (v2, n2, n + n2, rest2))
                     else (v, 0, n, rest))"

definition scaled :: "bool \<Rightarrow> nat \<Rightarrow> nat \<Rightarrow> int \<Rightarrow> double" where
  "scaled neg v base e =
     of_ratio neg (v * one_units * base ^ nat e) (base ^ nat (- e))"

text \<open>\<^verbatim>\<open>strtod\<close> with the range error of its result: overflow, or a tiny inexact result.\<close>

definition range_checked :: "bool \<Rightarrow> nat \<Rightarrow> nat \<Rightarrow> int \<Rightarrow> double option" where
  "range_checked neg v base e =
     (let d = scaled neg v base e
      in if is_inf d \<or> (mag d < 2 ^ 52 \<and> units d * base ^ nat (- e) \<noteq> v * one_units * base ^ nat e) then None else Some d)"

definition lower :: "char \<Rightarrow> char" where
  "lower c = (let n = of_char c :: nat in if 65 \<le> n \<and> n \<le> 90 then char_of (n + 32) else c)"

definition stod :: "string \<Rightarrow> double option" where
  "stod s =
     (let (neg, s1) = sign_of (dropWhile is_space s);
          hex = (case map lower (take 2 s1) of
                   [z, x] \<Rightarrow> z = CHR ''0'' \<and> x = CHR ''x'' \<and> fst (snd (snd (mantissa hex_val 16 (drop 2 s1)))) \<noteq> 0
                 | _ \<Rightarrow> False)
      in if map lower (take 3 s1) = ''inf'' then Some (Double neg inf_mag)
         else if map lower (take 3 s1) = ''nan'' then Some (Double neg (mag dnan))
         else if hex
         then (let (v, f, n, rest) = mantissa hex_val 16 (drop 2 s1)
               in range_checked neg v 2 (exponent ''pP'' rest - 4 * int f))
         else (let (v, f, n, rest) = mantissa digit_val 10 s1
               in if n = 0 then None else range_checked neg v 10 (exponent ''eE'' rest - int f)))"

section \<open>Events\<close>

record ReplayEvent =
  ev_timestamp_ns :: "64 word"
  ev_symbol :: string
  ev_side :: Side
  ev_type :: OrderType
  ev_price :: Price
  ev_quantity :: Quantity
  ev_action :: char
  ev_order_id :: OrderId

definition parse_side :: "string \<Rightarrow> Side" where
  "parse_side s = (case s of [] \<Rightarrow> Buy | c # _ \<Rightarrow> if c = CHR ''S'' \<or> c = CHR ''s'' then Sell else Buy)"

definition parse_type :: "string \<Rightarrow> OrderType" where
  "parse_type s = (case s of [] \<Rightarrow> Limit
     | c # _ \<Rightarrow> if c = CHR ''M'' \<or> c = CHR ''m'' then Market
                else if c = CHR ''I'' \<or> c = CHR ''i'' then IOC else Limit)"

definition split_csv :: "string \<Rightarrow> bool \<times> string list" where
  "split_csv line = (let out = getlines (CHR '','') line in (out \<noteq> [], out))"

text \<open>The body of the \<^verbatim>\<open>try\<close> block. The symbol is what \<^verbatim>\<open>strncpy\<close> leaves in the 16 bytes, read back as a C
  string: at most 15 characters, up to the first zero.\<close>

definition parse_fields :: "string list \<Rightarrow> ReplayEvent option" where
  "parse_fields cols =
     (case stoll (cols ! 0) of None \<Rightarrow> None | Some ts \<Rightarrow>
      (case (if cols ! 4 = [] then Some dzero else stod (cols ! 4)) of None \<Rightarrow> None | Some price \<Rightarrow>
      (case (if cols ! 5 = [] then Some 0 else stoull (cols ! 5)) of None \<Rightarrow> None | Some quantity \<Rightarrow>
      (case (if cols ! 7 = [] then Some 0 else stoull (cols ! 7)) of None \<Rightarrow> None | Some order_id \<Rightarrow>
         Some \<lparr>ev_timestamp_ns = ts, ev_symbol = takeWhile (\<lambda>c. c \<noteq> CHR 0x00) (take 15 (cols ! 1)),
           ev_side = parse_side (cols ! 2), ev_type = parse_type (cols ! 3), ev_price = price,
           ev_quantity = ucast quantity, ev_action = (if cols ! 6 = [] then CHR ''N'' else hd (cols ! 6)),
           ev_order_id = order_id\<rparr>))))"

text \<open>The reader is the lines left and the count of events; \<open>tape_open\<close> discards the header line.\<close>

record TapeReader =
  tape_lines :: "string list"
  tape_count :: nat

definition tape_open :: "string \<Rightarrow> TapeReader" where
  "tape_open content = \<lparr>tape_lines = drop 1 (getlines (CHR 0x0A) content), tape_count = 0\<rparr>"

fun tape_next_lines :: "string list \<Rightarrow> (ReplayEvent \<times> string list) option" where
  "tape_next_lines [] = None"
| "tape_next_lines (line # rest) =
     (if line = [] then tape_next_lines rest
      else (let (ok, cols) = split_csv line
            in if \<not> ok \<or> length cols < 8 then tape_next_lines rest
               else (case parse_fields cols of None \<Rightarrow> tape_next_lines rest | Some ev \<Rightarrow> Some (ev, rest))))"

definition tape_next :: "TapeReader \<Rightarrow> ReplayEvent option \<times> TapeReader" where
  "tape_next r = (case tape_next_lines (tape_lines r) of
       None \<Rightarrow> (None, r\<lparr>tape_lines := []\<rparr>)
     | Some (ev, rest) \<Rightarrow> (Some ev, r\<lparr>tape_lines := rest, tape_count := tape_count r + 1\<rparr>))"

text \<open>The events a loop \<^verbatim>\<open>while (reader.next(ev))\<close> sees.\<close>

definition line_event :: "string \<Rightarrow> ReplayEvent option" where
  "line_event line = (let cols = getlines (CHR '','') line
     in if length cols < 8 then None else parse_fields cols)"

lemma tape_next_lines_shorter: "tape_next_lines ls = Some (ev, rest) \<Longrightarrow> length rest < length ls"
  by (induction ls) (auto simp: Let_def split: if_splits option.splits prod.splits)

function tape_events :: "TapeReader \<Rightarrow> ReplayEvent list" where
  "tape_events r = (case tape_next r of (None, _) \<Rightarrow> [] | (Some ev, r') \<Rightarrow> ev # tape_events r')"
  by pat_completeness auto

termination
proof (relation "measure (\<lambda>r. length (tape_lines r))", goal_cases)
  case (2 r x r' ev)
  then show ?case using tape_next_lines_shorter
    by (auto simp: tape_next_def split: option.splits)
qed simp

declare tape_events.simps [simp del]

end
