(* ===== verification/Replay.thy ===== *)
theory Replay
  imports Tape MessageLoop RiskCorrect
begin

text \<open>
  The replay loop of \<^verbatim>\<open>src/replay/ReplayHarness.cpp\<close>. \<open>now k\<close> is the clock of the engine in the \<open>k\<close>-th
  event and \<open>timer k\<close> the two readings of the steady clock around the engine call of that event.
  The latencies handed to the histogram are kept as the list of recorded values; what the
  histogram makes of them is part of \<open>Programs\<close>.
\<close>

section \<open>State\<close>

text \<open>The local variables the trade callback updates.\<close>

record ReplayTally =
  trades_count :: uint64
  volume_running :: Quantity
  notional_running :: double

definition replay_callback :: "ReplayTally TradeCallback" where
  "replay_callback t r = \<lparr>trades_count = trades_count r + 1, volume_running = volume_running r + t_quantity t,
     notional_running = dadd (notional_running r) (dmul (t_price t) (of_uint (t_quantity t)))\<rparr>"

record ReplayState =
  rp_engine :: "ReplayTally MatchingEngine"
  rp_tally :: ReplayTally
  rp_risk :: RiskChecker
  id_map :: "(OrderId \<times> OrderId) list"
  events_processed :: uint64
  new_orders :: uint64
  cancels :: uint64
  risk_rejections :: uint64
  latency_log :: "64 word list"

definition replay_start :: "ReplayTally MatchingEngine \<Rightarrow> RiskChecker \<Rightarrow> ReplayState" where
  "replay_start e r = \<lparr>rp_engine = set_trade_callback replay_callback e,
     rp_tally = \<lparr>trades_count = 0, volume_running = 0, notional_running = dzero\<rparr>, rp_risk = r, id_map = [],
     events_processed = 0, new_orders = 0, cancels = 0, risk_rejections = 0, latency_log = []\<rparr>"

definition record_replay_latency :: "64 word \<times> 64 word \<Rightarrow> ReplayState \<Rightarrow> ReplayState" where
  "record_replay_latency = (\<lambda>(t0, t1) st.
     (let latency_ns = t1 - t0
      in if 0 < sint latency_ns then st\<lparr>latency_log := latency_log st @ [latency_ns]\<rparr> else st))"

section \<open>One event\<close>

definition replay_new :: "bool \<Rightarrow> clock \<Rightarrow> 64 word \<times> 64 word \<Rightarrow> ReplayEvent \<Rightarrow> ReplayState \<Rightarrow> ReplayState option" where
  "replay_new gate now timer ev st =
     (let st1 = st\<lparr>new_orders := new_orders st + 1\<rparr>;
          (reason, r1) = gate_check gate (ev_symbol ev) (ev_side ev) (ev_type ev) (ev_price ev) (ev_quantity ev) (rp_risk st1);
          st2 = st1\<lparr>rp_risk := r1\<rparr>
      in if reason \<noteq> NoReason then Some (st2\<lparr>risk_rejections := risk_rejections st2 + 1\<rparr>)
         else (case submit_order now (ev_symbol ev) (ev_side ev) (ev_type ev) (ev_price ev) (ev_quantity ev)
                      (rp_engine st2, rp_tally st2) of
                 None \<Rightarrow> None
               | Some (assigned_id, e', tally') \<Rightarrow>
                   (let st3 = record_replay_latency timer (st2\<lparr>rp_engine := e', rp_tally := tally'\<rparr>)
                    in Some (if ev_order_id ev \<noteq> 0
                             then st3\<lparr>id_map := AList.update (ev_order_id ev) assigned_id (id_map st3)\<rparr> else st3))))"

definition replay_cancel :: "64 word \<times> 64 word \<Rightarrow> ReplayEvent \<Rightarrow> ReplayState \<Rightarrow> ReplayState" where
  "replay_cancel timer ev st =
     (let st1 = st\<lparr>cancels := cancels st + 1\<rparr>;
          target = (case map_of (id_map st1) (ev_order_id ev) of None \<Rightarrow> ev_order_id ev | Some i \<Rightarrow> i);
          (cancelled, e') = engine_cancel_order (ev_symbol ev) target (rp_engine st1)
      in record_replay_latency timer (st1\<lparr>rp_engine := e'\<rparr>))"

definition replay_event :: "bool \<Rightarrow> clock \<Rightarrow> 64 word \<times> 64 word \<Rightarrow> ReplayEvent \<Rightarrow> ReplayState \<Rightarrow> ReplayState option" where
  "replay_event gate now timer ev st =
     (let st1 = st\<lparr>events_processed := events_processed st + 1\<rparr>
      in if ev_action ev = CHR ''N'' \<or> ev_action ev = CHR ''n'' then replay_new gate now timer ev st1
         else if ev_action ev = CHR ''C'' \<or> ev_action ev = CHR ''c'' then Some (replay_cancel timer ev st1)
         else Some st1)"

section \<open>The whole tape\<close>

fun replay_events :: "bool \<Rightarrow> (nat \<Rightarrow> clock) \<Rightarrow> (nat \<Rightarrow> 64 word \<times> 64 word) \<Rightarrow> nat \<Rightarrow> ReplayEvent list \<Rightarrow> ReplayState \<Rightarrow> ReplayState option" where
  "replay_events gate now timer k [] st = Some st"
| "replay_events gate now timer k (ev # evs) st =
     (case replay_event gate (now k) (timer k) ev st of
        None \<Rightarrow> None
      | Some st1 \<Rightarrow> replay_events gate now timer (Suc k) evs st1)"

record ReplayResult =
  res_events_processed :: uint64
  res_new_orders :: uint64
  res_cancels :: uint64
  res_risk_rejections :: uint64
  res_trades_generated :: uint64
  res_volume_traded :: Quantity
  res_notional_traded :: double
  res_total_duration_ns :: "64 word"
  res_throughput_ops_per_sec :: double

text \<open>\<open>wall\<close> are the readings before and after the loop.\<close>

definition replay_result :: "64 word \<times> 64 word \<Rightarrow> ReplayState \<Rightarrow> ReplayResult" where
  "replay_result = (\<lambda>(t_start, t_end) st.
     (let duration = t_end - t_start
      in \<lparr>res_events_processed = events_processed st, res_new_orders = new_orders st, res_cancels = cancels st,
          res_risk_rejections = risk_rejections st, res_trades_generated = trades_count (rp_tally st),
          res_volume_traded = volume_running (rp_tally st), res_notional_traded = notional_running (rp_tally st),
          res_total_duration_ns = duration,
          res_throughput_ops_per_sec =
            (if 0 < sint duration
             then ddiv (dmul (of_uint (events_processed st)) (dlit 1000000000 1)) (of_sint duration) else dzero)\<rparr>))"

definition replay :: "bool \<Rightarrow> (nat \<Rightarrow> clock) \<Rightarrow> (nat \<Rightarrow> 64 word \<times> 64 word) \<Rightarrow> 64 word \<times> 64 word \<Rightarrow> string
    \<Rightarrow> ReplayTally MatchingEngine \<Rightarrow> RiskChecker \<Rightarrow> (ReplayResult \<times> ReplayState) option" where
  "replay gate now timer wall tape e r =
     (case replay_events gate now timer 0 (tape_events (tape_open tape)) (replay_start e r) of
        None \<Rightarrow> None
      | Some st \<Rightarrow> Some (replay_result wall st, st))"

end
