(* ===== verification/Determinism.thy ===== *)
theory Determinism
  imports MessageLoop
begin

text \<open>
  What the engine does does not depend on the clock. Timestamps are recorded in orders and trades and
  never read: two engines whose books agree up to timestamps answer every call alike and agree again
  afterwards. This is what makes replaying a tape a regression test.
\<close>

section \<open>Up to timestamps\<close>

definition untimed_order :: "Order \<Rightarrow> Order" where
  "untimed_order ord = ord\<lparr>o_timestamp := 0\<rparr>"

definition untimed_trade :: "Trade \<Rightarrow> Trade" where
  "untimed_trade t = t\<lparr>t_timestamp := 0\<rparr>"

definition untimed :: "abstract_book \<Rightarrow> abstract_book" where
  "untimed = map_sides (\<lambda>_. map untimed_order)"

lemma untimed_order_simps [simp]:
  "o_id (untimed_order ord) = o_id ord" "o_price (untimed_order ord) = o_price ord"
  "o_quantity (untimed_order ord) = o_quantity ord" "o_remaining_qty (untimed_order ord) = o_remaining_qty ord"
  "o_side (untimed_order ord) = o_side ord" "o_type (untimed_order ord) = o_type ord" "o_status (untimed_order ord) = o_status ord"
  "untimed_order ord\<lparr>o_remaining_qty := q\<rparr> = untimed_order (ord\<lparr>o_remaining_qty := q\<rparr>)"
  by (simp_all add: untimed_order_def)

lemma untimed_simps [simp]:
  "a_bids (untimed a) = map untimed_order (a_bids a)" "a_asks (untimed a) = map untimed_order (a_asks a)"
  "a_next (untimed a) = a_next a"
  by (simp_all add: untimed_def map_sides_def)

lemma crosses_untimed [simp]: "crosses buy p (untimed_order r) = crosses buy p r"
  by (simp add: crosses_def)

lemma fill_queue_untimed:
  assumes "\<And>r. match (untimed_order r) = match r"
  shows "fill_queue match q (map untimed_order qs) =
    (case fill_queue match q qs of (fs, q', rs) \<Rightarrow> (map (apfst untimed_order) fs, q', map untimed_order rs))"
  using assms by (induction match q qs rule: fill_queue.induct) (simp_all add: case_prod_unfold Let_def)

lemma enqueue_untimed: "enqueue buy (untimed_order ord) (map untimed_order qs) = map untimed_order (enqueue buy ord qs)"
  unfolding enqueue_def
  using map_insert_after [of untimed_order "\<lambda>other. side_rank buy (o_price other) \<le> side_rank buy (o_price ord)" ord qs] by simp

lemma a_submit_untimed:
  "a_submit (untimed_order ord) (untimed a) =
     (case a_submit ord a of (fs, a') \<Rightarrow> (map (apfst untimed_order) fs, untimed a'))"
proof -
  have rem: "remainder (untimed_order ord) q = untimed_order (remainder ord q)" for q
    by (simp add: remainder_def untimed_order_def)
  have "untimed \<lparr>a_bids = x, a_asks = y, a_next = n\<rparr> = \<lparr>a_bids = map untimed_order x, a_asks = map untimed_order y, a_next = n\<rparr>" for x y n
    by (simp add: untimed_def map_sides_def)
  then show ?thesis
    by (cases "o_side ord = Buy")
      (simp_all add: a_submit_def fill_queue_untimed case_prod_unfold Let_def rem enqueue_untimed)
qed

lemma a_cancel_untimed: "untimed (a_cancel i a) = a_cancel i (untimed a)"
  by (simp add: untimed_def a_cancel_def map_sides_def filter_map comp_def)

lemma a_ids_untimed [simp]: "a_ids (untimed a) = a_ids a"
  by (simp add: a_ids_def image_Un image_image)

lemma trades_of_untimed:
  "map untimed_trade (trades_of now n buy i fs) = map untimed_trade (trades_of now' n' buy i (map (apfst untimed_order) fs))"
  by (induction fs arbitrary: n n') (auto simp: trade_of_def untimed_trade_def)

section \<open>Engines\<close>

text \<open>A callback that does not look at timestamps either.\<close>

definition ignores_time :: "'s TradeCallback \<Rightarrow> bool" where
  "ignores_time cb \<longleftrightarrow> (\<forall>t s. cb (untimed_trade t) s = cb t s)"

definition same_books :: "'s MatchingEngine \<Rightarrow> 's MatchingEngine \<Rightarrow> bool" where
  "same_books e1 e2 \<longleftrightarrow> (\<forall>symb. untimed (abs_book (book_of e1 symb)) = untimed (abs_book (book_of e2 symb)))"

text \<open>The counters that do not measure time.\<close>

definition untimed_stats :: "EngineStats \<Rightarrow> EngineStats" where
  "untimed_stats st = st\<lparr>total_latency_ns := 0, min_latency_ns := 0, max_latency_ns := 0\<rparr>"

definition same_engine :: "'s MatchingEngine \<Rightarrow> 's MatchingEngine \<Rightarrow> bool" where
  "same_engine e1 e2 \<longleftrightarrow> same_books e1 e2 \<and> untimed_stats (stats e1) = untimed_stats (stats e2)"

lemma run_callback_untimed:
  assumes "pred_option ignores_time cb" and "map untimed_trade ts = map untimed_trade ts'"
  shows "run_callback cb ts s = run_callback cb ts' s"
  using assms(2)
proof (induction ts arbitrary: ts' s)
  case (Cons t ts)
  then obtain t' ts'' where t': "ts' = t' # ts''" "untimed_trade t = untimed_trade t'" "map untimed_trade ts = map untimed_trade ts''"
    by auto
  have "(case cb of None \<Rightarrow> s | Some f \<Rightarrow> f t s) = (case cb of None \<Rightarrow> s | Some f \<Rightarrow> f t' s)"
    using assms(1) t'(2) by (cases cb) (simp_all add: ignores_time_def, metis)
  then show ?case using Cons.IH [OF t'(3)] by (simp add: t'(1) run_callback_def)
qed (simp add: run_callback_def)

lemma record_trades_untimed:
  assumes "map untimed_trade ts = map untimed_trade ts'" and "untimed_stats st = untimed_stats st'"
  shows "untimed_stats (fst (fold (record_trade cb) ts (st, s))) = untimed_stats (fst (fold (record_trade cb) ts' (st', s')))"
  using assms
proof (induction ts arbitrary: ts' st st' s s')
  case (Cons t ts)
  then obtain t' ts'' where t': "ts' = t' # ts''" "untimed_trade t = untimed_trade t'" "map untimed_trade ts = map untimed_trade ts''"
    by auto
  have q: "t_quantity t = t_quantity t'" "t_price t = t_price t'" using t'(2) by (cases t; cases t'; simp add: untimed_trade_def)+
  have "untimed_stats (fst (record_trade cb t (st, s))) = untimed_stats (fst (record_trade cb t' (st', s')))"
    using Cons.prems(2) by (cases st; cases st'; simp add: record_trade_def q untimed_stats_def)
  from Cons.IH [OF t'(3) this, of "snd (record_trade cb t (st, s))" "snd (record_trade cb t' (st', s'))"] show ?case by (simp add: t'(1))
qed simp

lemma same_books_next: "same_books e1 e2 \<Longrightarrow> next_order_id (book_of e1 symb) = next_order_id (book_of e2 symb)"
  unfolding same_books_def by (metis abs_book_def abstract_book.select_convs(3) untimed_simps(3))

lemma submit_accepted_untimed:
  assumes acc: "accepted ty price q" and sub: "submittable e1 symb ty price" "submittable e2 symb ty price"
    and same: "same_engine e1 e2" and cb: "trade_callback e1 = cb" "trade_callback e2 = cb" "pred_option ignores_time cb"
    and 1: "submit_order now1 symb sd ty price q (e1, s) = Some (i1, e1', s1)"
    and 2: "submit_order now2 symb sd ty price q (e2, s) = Some (i2, e2', s2)"
  shows "i1 = i2 \<and> s1 = s2 \<and> untimed (abs_book (book_of e1' symb)) = untimed (abs_book (book_of e2' symb))
    \<and> untimed_stats (stats e1') = untimed_stats (stats e2')"
proof -
  let ?n = "next_order_id (book_of e1 symb)"
  have books: "same_books e1 e2" using same by (simp add: same_engine_def)
  have n: "next_order_id (book_of e2 symb) = ?n" using same_books_next [OF books] by simp
  let ?o1 = "incoming_order now1 e1 symb sd ty price q" and ?o2 = "incoming_order now2 e2 symb sd ty price q"
  obtain fs1 a1 where a1: "a_submit ?o1 (abs_book (book_of e1 symb)) = (fs1, a1)" by fastforce
  obtain fs2 a2 where a2: "a_submit ?o2 (abs_book (book_of e2 symb)) = (fs2, a2)" by fastforce
  have "untimed_order ?o1 = untimed_order ?o2" by (simp add: incoming_order_def untimed_order_def Order_new_def n)
  then have fs: "map (apfst untimed_order) fs1 = map (apfst untimed_order) fs2" "untimed a1 = untimed a2"
    using a_submit_untimed [of ?o1 "abs_book (book_of e1 symb)"] a_submit_untimed [of ?o2 "abs_book (book_of e2 symb)"] books
    by (simp_all add: a1 a2 same_books_def)
  define ts1 where "ts1 = trades_of (\<lambda>i. now1 (2 + i)) 0 (sd = Buy) ?n fs1"
  define ts2 where "ts2 = trades_of (\<lambda>i. now2 (2 + i)) 0 (sd = Buy) ?n fs2"
  have ts: "map untimed_trade ts1 = map untimed_trade ts2" unfolding ts1_def ts2_def using trades_of_untimed fs(1) by metis
  have "untimed_stats ((stats e1)\<lparr>total_orders := total_orders (stats e1) + 1\<rparr>) = untimed_stats ((stats e2)\<lparr>total_orders := total_orders (stats e2) + 1\<rparr>)"
    using same unfolding same_engine_def by (cases "stats e1"; cases "stats e2"; simp add: untimed_stats_def)
  moreover have "untimed_stats (record_latency l st) = untimed_stats st" for l st by (simp add: record_latency_def untimed_stats_def)
  ultimately show ?thesis
    using submit_accepted [OF acc sub(1) a1 refl, of s] submit_accepted [OF acc sub(2) a2 refl, of s] 1 2 fs(2)
      run_callback_untimed [OF cb(3) ts, of s] record_trades_untimed [OF ts]
    by (auto simp: cb n ts1_def ts2_def)
qed

lemma submit_rejected_untimed:
  assumes rej: "\<not> accepted ty price q" and same: "same_engine e1 e2"
    and 1: "submit_order now1 symb sd ty price q (e1, s) = Some (i1, e1', s1)"
    and 2: "submit_order now2 symb sd ty price q (e2, s) = Some (i2, e2', s2)"
  shows "i1 = i2 \<and> s1 = s2 \<and> untimed (abs_book (book_of e1' symb)) = untimed (abs_book (book_of e2' symb))
    \<and> untimed_stats (stats e1') = untimed_stats (stats e2')"
proof -
  from submit_rejected [OF rej, of now1 symb sd e1 s] submit_rejected [OF rej, of now2 symb sd e2 s] 1 2
  have r: "i1 = 0" "i2 = 0" "s1 = s" "s2 = s" "books e1' = books (snd (get_order_book symb e1))" "books e2' = books (snd (get_order_book symb e2))"
    "stats e1' = (stats e1)\<lparr>total_orders := total_orders (stats e1) + 1, total_rejects := total_rejects (stats e1) + 1\<rparr>"
    "stats e2' = (stats e2)\<lparr>total_orders := total_orders (stats e2) + 1, total_rejects := total_rejects (stats e2) + 1\<rparr>"
    by auto
  have "book_of e1' symb = book_of e1 symb" "book_of e2' symb = book_of e2 symb"
    using get_order_book_books [of symb e1] get_order_book_books [of symb e2] r by (auto simp: book_of_eq split: option.splits)
  moreover have "untimed_stats (stats e1') = untimed_stats (stats e2')"
    using same unfolding same_engine_def r by (cases "stats e1"; cases "stats e2"; simp add: untimed_stats_def)
  ultimately show ?thesis using r same by (simp add: same_engine_def same_books_def)
qed

text \<open>The same order on two engines that agree up to time: the same id, the same calls of the callback, and they agree again.\<close>

lemma submit_untimed:
  assumes ok: "engine_inv k e1" "engine_inv k e2" "k + 1 < 2 ^ 64" and price: "ty = Market \<or> \<not> is_nan price"
    and same: "same_engine e1 e2" and cb: "trade_callback e1 = cb" "trade_callback e2 = cb" "pred_option ignores_time cb"
  obtains i s' e1' e2' where
    "submit_order now1 symb sd ty price q (e1, s) = Some (i, e1', s')" "submit_order now2 symb sd ty price q (e2, s) = Some (i, e2', s')"
    "engine_inv (k + 1) e1'" "engine_inv (k + 1) e2'" "same_engine e1' e2'" "trade_callback e1' = cb" "trade_callback e2' = cb"
proof -
  obtain i1 e1' s1 where 1: "submit_order now1 symb sd ty price q (e1, s) = Some (i1, e1', s1)" "engine_inv (k + 1) e1'"
    by (rule submit_engine_inv [OF ok(1) price ok(3)])
  obtain i2 e2' s2 where 2: "submit_order now2 symb sd ty price q (e2, s) = Some (i2, e2', s2)" "engine_inv (k + 1) e2'"
    by (rule submit_engine_inv [OF ok(2) price ok(3)])
  have sub: "submittable e1 symb ty price" "submittable e2 symb ty price"
    using ok price next_id_suc(2) [OF ok(1,3)] next_id_suc(2) [OF ok(2,3)] by (simp_all add: submittable_def engine_inv_def)
  have other: "untimed (abs_book (book_of e1' x)) = untimed (abs_book (book_of e2' x))" if "x \<noteq> symb" for x
    using submit_frame(1) [OF 1(1) that] submit_frame(1) [OF 2(1) that] same book_of_cong unfolding same_engine_def same_books_def by metis
  have "i1 = i2 \<and> s1 = s2 \<and> untimed (abs_book (book_of e1' symb)) = untimed (abs_book (book_of e2' symb))
    \<and> untimed_stats (stats e1') = untimed_stats (stats e2')"
    using submit_accepted_untimed [OF _ sub same cb 1(1) 2(1)] submit_rejected_untimed [OF _ same 1(1) 2(1)] by blast
  moreover from this other have "same_engine e1' e2'" unfolding same_engine_def same_books_def by metis
  ultimately show thesis
    using that 1 2 submit_frame(2) [OF 1(1)] submit_frame(2) [OF 2(1)] cb by metis
qed

lemma cancel_untimed:
  assumes ok: "engine_ok e1" "engine_ok e2" and same: "same_engine e1 e2"
  shows "fst (engine_cancel_order symb i e1) = fst (engine_cancel_order symb i e2)"
    "same_engine (snd (engine_cancel_order symb i e1)) (snd (engine_cancel_order symb i e2))"
proof -
  have eq: "untimed (abs_book (book_of e1 x)) = untimed (abs_book (book_of e2 x))" for x using same by (simp add: same_engine_def same_books_def)
  then have "a_ids (abs_book (book_of e1 symb)) = a_ids (abs_book (book_of e2 symb))" by (metis a_ids_untimed)
  then show fst: "fst (engine_cancel_order symb i e1) = fst (engine_cancel_order symb i e2)"
    by (simp add: engine_cancel_effect(1) [OF ok(1)] engine_cancel_effect(1) [OF ok(2)])
  have "untimed (abs_book (book_of (snd (engine_cancel_order symb i e1)) x)) = untimed (abs_book (book_of (snd (engine_cancel_order symb i e2)) x))" for x
  proof (cases "x = symb")
    case True
    then show ?thesis
      by (simp add: engine_cancel_effect(2) [OF ok(1)] engine_cancel_effect(2) [OF ok(2)] a_cancel_untimed eq)
  next
    case False
    then show ?thesis
      using engine_cancel_effect(3) [OF ok(1) False, of i] engine_cancel_effect(3) [OF ok(2) False, of i] book_of_cong eq by metis
  qed
  then show "same_engine (snd (engine_cancel_order symb i e1)) (snd (engine_cancel_order symb i e2))"
    using same fst by (cases "stats e1"; cases "stats e2"; simp add: same_engine_def same_books_def untimed_stats_def
      engine_cancel_effect(5) [OF ok(1)] engine_cancel_effect(5) [OF ok(2)])
qed

end
