(* ===== verification/ReplayCorrect.thy ===== *)
theory ReplayCorrect
  imports Replay Determinism
begin

text \<open>
  The theorems on the tape reader and the replay loop: which rows of a tape become events, that a replay
  returns and keeps the engine's invariant, that its outcome does not depend on the clock, what its
  tallies count, and how a cancel finds its order.
\<close>

section \<open>The tape reader\<close>

lemma getlines_ne: "s \<noteq> [] \<Longrightarrow> getlines d s \<noteq> []"
  by (subst getlines.simps) simp

lemma tape_next_lines_Cons:
  "tape_next_lines (l # ls) = (case line_event l of None \<Rightarrow> tape_next_lines ls | Some ev \<Rightarrow> Some (ev, ls))"
proof (cases "l = []")
  case True
  then show ?thesis by (simp add: line_event_def getlines.simps)
next
  case False
  then show ?thesis using getlines_ne [of l "CHR '',''"] by (simp add: line_event_def split_csv_def Let_def)
qed

lemma tape_next_lines_eq:
  "tape_next_lines ls =
     (case dropWhile (\<lambda>l. line_event l = None) ls of [] \<Rightarrow> None | l # rest \<Rightarrow> Some (the (line_event l), rest))"
  by (induction ls) (auto simp: tape_next_lines_Cons simp del: tape_next_lines.simps(2) split: option.splits)

lemma map_filter_dropWhile: "List.map_filter f (dropWhile (\<lambda>x. f x = None) xs) = List.map_filter f xs"
  by (induction xs) (auto simp: map_filter_def)

lemma tape_events_lines: "tape_events r = List.map_filter line_event (tape_lines r)"
proof (induction r rule: tape_events.induct)
  case (1 r)
  let ?rest = "dropWhile (\<lambda>l. line_event l = None) (tape_lines r)"
  have filter: "List.map_filter line_event (tape_lines r) = List.map_filter line_event ?rest"
    by (simp add: map_filter_dropWhile)
  show ?case
  proof (cases ?rest)
    case Nil
    have "tape_next r = (None, r\<lparr>tape_lines := []\<rparr>)" unfolding tape_next_def tape_next_lines_eq Nil by simp
    moreover have "List.map_filter line_event (tape_lines r) = []" unfolding filter Nil by (simp add: map_filter_def)
    ultimately show ?thesis by (subst tape_events.simps) simp
  next
    case (Cons l ls)
    then have "line_event l \<noteq> None" by (metis (mono_tags, lifting) dropWhile_eq_Cons_conv)
    then obtain ev where ev: "line_event l = Some ev" by blast
    let ?r = "r\<lparr>tape_lines := ls, tape_count := tape_count r + 1\<rparr>"
    have "tape_next r = (Some ev, ?r)" unfolding tape_next_def tape_next_lines_eq Cons using ev by simp
    moreover from this have "tape_events ?r = List.map_filter line_event ls" using 1 [of "Some ev" ?r ev] by simp
    moreover have "List.map_filter line_event (tape_lines r) = ev # List.map_filter line_event ls"
      unfolding filter Cons using ev by (simp add: map_filter_def)
    ultimately show ?thesis by (subst tape_events.simps) simp
  qed
qed


text \<open>The reader gives the events of the rows that have eight fields with well-formed numbers, in order;
  the header and every other row are skipped.\<close>

theorem tape_events_are_well_formed_rows:
  "tape_events (tape_open tape) = List.map_filter line_event (drop 1 (getlines (CHR 0x0A) tape))"
  using tape_events_lines [of "tape_open tape"] by (simp add: tape_open_def)

text \<open>A row of eight columns never has an empty last one: when the order id is left out, the row ends with
  a comma, the splitter reports seven fields and the reader skips the row, although it has a default
  for an empty id.\<close>

theorem empty_order_id_is_skipped:
  "line_event (concat (map (\<lambda>f. f @ '','') [a, b, c, d, e, f, g])) = None"
  if "\<forall>x \<in> set [a, b, c, d, e, f, g]. CHR '','' \<notin> set x"
proof -
  have step: "getlines (CHR '','') (x @ CHR '','' # rest) = x # getlines (CHR '','') rest" if "CHR '','' \<notin> set x" for x rest
  proof -
    have "\<forall>c \<in> set x. c \<noteq> CHR '',''" using that by auto
    then show ?thesis by (subst getlines.simps) (simp add: takeWhile_append2 dropWhile_append2)
  qed
  have nil: "getlines (CHR '','') [] = []" by (simp add: getlines.simps)
  show ?thesis using that by (simp add: line_event_def step nil)
qed

theorem empty_order_id_is_skipped_witness: "line_event ''1000,AAPL,B,L,150.00,100,N,'' = None"
  using empty_order_id_is_skipped [of "''1000''" "''AAPL''" "''B''" "''L''" "''150.00''" "''100''" "''N''"] by simp

section \<open>The replay loop\<close>

definition legal_event :: "ReplayEvent \<Rightarrow> bool" where
  "legal_event ev \<longleftrightarrow> ev_type ev = Market \<or> \<not> is_nan (ev_price ev)"

lemma record_replay_latency_frame [simp]:
  "rp_engine (record_replay_latency t st) = rp_engine st" "rp_tally (record_replay_latency t st) = rp_tally st"
  "rp_risk (record_replay_latency t st) = rp_risk st" "id_map (record_replay_latency t st) = id_map st"
  "events_processed (record_replay_latency t st) = events_processed st" "new_orders (record_replay_latency t st) = new_orders st"
  "cancels (record_replay_latency t st) = cancels st" "risk_rejections (record_replay_latency t st) = risk_rejections st"
  by (simp_all add: record_replay_latency_def Let_def case_prod_unfold)

text \<open>Two replay states that agree in everything but timestamps and latencies.\<close>

definition agree :: "ReplayState \<Rightarrow> ReplayState \<Rightarrow> bool" where
  "agree st1 st2 \<longleftrightarrow> same_engine (rp_engine st1) (rp_engine st2)
     \<and> trade_callback (rp_engine st1) = Some replay_callback \<and> trade_callback (rp_engine st2) = Some replay_callback
     \<and> rp_tally st1 = rp_tally st2 \<and> rp_risk st1 = rp_risk st2 \<and> id_map st1 = id_map st2
     \<and> events_processed st1 = events_processed st2 \<and> new_orders st1 = new_orders st2
     \<and> cancels st1 = cancels st2 \<and> risk_rejections st1 = risk_rejections st2"

lemma replay_callback_time: "pred_option ignores_time (Some replay_callback)"
  by (simp add: ignores_time_def replay_callback_def untimed_trade_def)

lemma replay_new_agree:
  assumes "agree st1 st2" and "engine_inv k (rp_engine st1)" "engine_inv k (rp_engine st2)" "k + 1 < 2 ^ 64" and "legal_event ev"
  obtains st1' st2' where "replay_new gate now1 timer1 ev st1 = Some st1'" "replay_new gate now2 timer2 ev st2 = Some st2'"
    "agree st1' st2'" "engine_inv (k + 1) (rp_engine st1')" "engine_inv (k + 1) (rp_engine st2')"
proof -
  obtain reason r1 where
    v: "gate_check gate (ev_symbol ev) (ev_side ev) (ev_type ev) (ev_price ev) (ev_quantity ev) (rp_risk st2) = (reason, r1)" by fastforce
  have eq: "rp_risk st1 = rp_risk st2" "rp_tally st1 = rp_tally st2" using assms(1) by (simp_all add: agree_def)
  have price: "ev_type ev = Market \<or> \<not> is_nan (ev_price ev)" and same: "same_engine (rp_engine st1) (rp_engine st2)"
    and cb: "trade_callback (rp_engine st1) = Some replay_callback" "trade_callback (rp_engine st2) = Some replay_callback"
    using assms by (simp_all add: agree_def legal_event_def)
  obtain i s' e1' e2' where sub:
    "submit_order now1 (ev_symbol ev) (ev_side ev) (ev_type ev) (ev_price ev) (ev_quantity ev) (rp_engine st1, rp_tally st2) = Some (i, e1', s')"
    "submit_order now2 (ev_symbol ev) (ev_side ev) (ev_type ev) (ev_price ev) (ev_quantity ev) (rp_engine st2, rp_tally st2) = Some (i, e2', s')"
    "engine_inv (k + 1) e1'" "engine_inv (k + 1) e2'" "same_engine e1' e2'"
    "trade_callback e1' = Some replay_callback" "trade_callback e2' = Some replay_callback"
    by (rule submit_untimed [OF assms(2-4) price same cb replay_callback_time])
  have mono: "engine_inv (k + 1) (rp_engine st1)" "engine_inv (k + 1) (rp_engine st2)"
    using assms(2,3) by (auto intro: engine_inv_mono)
  show thesis
  proof (cases "reason = NoReason")
    case True
    let ?st = "\<lambda>timer st e'. (let st3 = record_replay_latency timer
        (st\<lparr>new_orders := new_orders st + 1, rp_risk := r1, rp_engine := e', rp_tally := s'\<rparr>)
      in if ev_order_id ev \<noteq> 0 then st3\<lparr>id_map := AList.update (ev_order_id ev) i (id_map st3)\<rparr> else st3)"
    have "replay_new gate now1 timer1 ev st1 = Some (?st timer1 st1 e1')"
      using True sub(1) v eq unfolding replay_new_def Let_def by simp
    moreover have "replay_new gate now2 timer2 ev st2 = Some (?st timer2 st2 e2')"
      using True sub(2) v unfolding replay_new_def Let_def by simp
    ultimately show thesis
      by (rule that) (use sub assms(1) in \<open>simp_all add: agree_def Let_def\<close>)
  next
    case False
    let ?st = "\<lambda>st. st\<lparr>new_orders := new_orders st + 1, rp_risk := r1, risk_rejections := risk_rejections st + 1\<rparr>"
    have "replay_new gate now1 timer1 ev st1 = Some (?st st1)" using False v eq unfolding replay_new_def Let_def by simp
    moreover have "replay_new gate now2 timer2 ev st2 = Some (?st st2)" using False v unfolding replay_new_def Let_def by simp
    ultimately show thesis
      by (rule that) (use mono assms(1) in \<open>simp_all add: agree_def\<close>)
  qed
qed

lemma replay_cancel_agree:
  assumes "agree st1 st2" and "engine_inv k (rp_engine st1)" "engine_inv k (rp_engine st2)"
  shows "agree (replay_cancel timer1 ev st1) (replay_cancel timer2 ev st2)"
    "engine_inv k (rp_engine (replay_cancel timer1 ev st1))"
proof -
  have ok: "engine_ok (rp_engine st1)" "engine_ok (rp_engine st2)" using assms(2,3) by (simp_all add: engine_inv_def)
  show "agree (replay_cancel timer1 ev st1) (replay_cancel timer2 ev st2)"
    using assms(1) cancel_untimed(2) [OF ok]
    by (simp add: agree_def replay_cancel_def Let_def case_prod_unfold engine_cancel_effect(4) [OF ok(1)] engine_cancel_effect(4) [OF ok(2)])
  show "engine_inv k (rp_engine (replay_cancel timer1 ev st1))"
    using assms(2) cancel_engine_inv by (simp add: replay_cancel_def Let_def case_prod_unfold)
qed

lemma replay_event_agree:
  assumes "agree st1 st2" and "engine_inv k (rp_engine st1)" "engine_inv k (rp_engine st2)" "k + 1 < 2 ^ 64" and "legal_event ev"
  obtains st1' st2' where "replay_event gate now1 timer1 ev st1 = Some st1'" "replay_event gate now2 timer2 ev st2 = Some st2'"
    "agree st1' st2'" "engine_inv (k + 1) (rp_engine st1')" "engine_inv (k + 1) (rp_engine st2')"
proof -
  let ?s1 = "st1\<lparr>events_processed := events_processed st1 + 1\<rparr>" and ?s2 = "st2\<lparr>events_processed := events_processed st2 + 1\<rparr>"
  have a: "agree ?s1 ?s2" "agree ?s2 ?s1" "engine_inv k (rp_engine ?s1)" "engine_inv k (rp_engine ?s2)"
    using assms by (simp_all add: agree_def same_engine_def same_books_def)
  show thesis
  proof (cases "ev_action ev = CHR ''N'' \<or> ev_action ev = CHR ''n''")
    case True
    obtain st1' st2' where "replay_new gate now1 timer1 ev ?s1 = Some st1'" "replay_new gate now2 timer2 ev ?s2 = Some st2'"
      "agree st1' st2'" "engine_inv (k + 1) (rp_engine st1')" "engine_inv (k + 1) (rp_engine st2')"
      by (rule replay_new_agree [OF a(1,3,4) assms(4,5)])
    with True that show thesis by (simp add: replay_event_def Let_def)
  next
    case new: False
    show thesis
    proof (cases "ev_action ev = CHR ''C'' \<or> ev_action ev = CHR ''c''")
      case True
      then show thesis
        using new replay_cancel_agree(1) [OF a(1,3,4), of timer1 ev timer2] replay_cancel_agree(2) [OF a(1,3,4), of timer1 ev]
          replay_cancel_agree(2) [OF a(2,4,3), of timer2 ev]
        by (intro that) (auto simp: replay_event_def Let_def intro: engine_inv_mono)
    next
      case False
      then show thesis using new a by (intro that) (auto simp: replay_event_def Let_def intro: engine_inv_mono)
    qed
  qed
qed

lemma replay_events_agree:
  assumes "agree st1 st2" and "engine_inv k (rp_engine st1)" "engine_inv k (rp_engine st2)" "k + length evs < 2 ^ 64"
    and "\<forall>ev \<in> set evs. legal_event ev"
  shows "\<exists>st1' st2'. replay_events gate now1 timer1 n evs st1 = Some st1' \<and> replay_events gate now2 timer2 n evs st2 = Some st2'
    \<and> agree st1' st2' \<and> engine_ok (rp_engine st1')"
  using assms
proof (induction evs arbitrary: st1 st2 k n)
  case (Cons ev evs)
  obtain st1' st2' where st': "replay_event gate (now1 n) (timer1 n) ev st1 = Some st1'"
    "replay_event gate (now2 n) (timer2 n) ev st2 = Some st2'" "agree st1' st2'"
    "engine_inv (k + 1) (rp_engine st1')" "engine_inv (k + 1) (rp_engine st2')"
    by (rule replay_event_agree [OF Cons.prems(1-3)]) (use Cons.prems(4,5) in auto)
  then show ?case using Cons.IH [OF st'(3-5), of "Suc n"] Cons.prems(4,5) by simp
qed (simp add: engine_inv_def)

text \<open>C28. Replaying a tape returns, keeps the engine's invariant, and has the same outcome whatever the clock
  reads: every figure of the result but the duration and the throughput is the same, and the books
  and counters of the engine at the end agree but for timestamps and latencies.\<close>

theorem replay_deterministic:
  assumes "engine_inv k e" and "\<forall>ev \<in> set (tape_events (tape_open tape)). legal_event ev"
    and "k + length (tape_events (tape_open tape)) < 2 ^ 64"
  shows "\<exists>res1 st1 res2 st2. replay gate now1 timer1 wall1 tape e r = Some (res1, st1)
    \<and> replay gate now2 timer2 wall2 tape e r = Some (res2, st2)
    \<and> res1\<lparr>res_total_duration_ns := 0, res_throughput_ops_per_sec := dzero\<rparr> =
        res2\<lparr>res_total_duration_ns := 0, res_throughput_ops_per_sec := dzero\<rparr>
    \<and> same_engine (rp_engine st1) (rp_engine st2) \<and> rp_risk st1 = rp_risk st2 \<and> engine_ok (rp_engine st1)"
proof -
  have "engine_inv k (rp_engine (replay_start e r))"
    using assms(1) by (simp add: replay_start_def set_trade_callback_def engine_inv_def engine_ok_def ids_below_def book_of_eq)
  moreover have "agree (replay_start e r) (replay_start e r)"
    by (simp add: agree_def same_engine_def same_books_def) (simp add: replay_start_def set_trade_callback_def)
  ultimately obtain st1 st2 where
    "replay_events gate now1 timer1 0 (tape_events (tape_open tape)) (replay_start e r) = Some st1"
    "replay_events gate now2 timer2 0 (tape_events (tape_open tape)) (replay_start e r) = Some st2"
    "agree st1 st2" "engine_ok (rp_engine st1)"
    using replay_events_agree [of "replay_start e r" "replay_start e r" k] assms(2,3) by metis
  then show ?thesis by (simp add: replay_def agree_def replay_result_def case_prod_unfold Let_def)
qed

section \<open>Tallies\<close>

definition is_new :: "ReplayEvent \<Rightarrow> bool" where
  "is_new ev \<longleftrightarrow> ev_action ev = CHR ''N'' \<or> ev_action ev = CHR ''n''"

definition is_cancel :: "ReplayEvent \<Rightarrow> bool" where
  "is_cancel ev \<longleftrightarrow> ev_action ev = CHR ''C'' \<or> ev_action ev = CHR ''c''"

lemma run_replay_callback:
  "trades_count (run_callback (Some replay_callback) ts r) = trades_count r + of_nat (length ts)"
  "volume_running (run_callback (Some replay_callback) ts r) = volume_running r + (\<Sum>t \<leftarrow> ts. t_quantity t)"
  by (induction ts arbitrary: r) (simp_all add: run_callback_def replay_callback_def algebra_simps)

lemma ucast_plus: "ucast (a + b :: 64 word) = (ucast a + ucast b :: 32 word)"
  by (rule word_uint_eqI) (simp add: unsigned_ucast_eq uint_word_ariths take_bit_eq_mod mod_mod_cancel mod_simps)

lemma ucast_widened: "ucast (ucast (q :: 32 word) :: 64 word) = q"
  by (rule word_uint_eqI) (simp add: unsigned_ucast_eq take_bit_word_eq_self)

lemma ucast_sum_quantity: "ucast (\<Sum>t \<leftarrow> ts. ucast (t_quantity t) :: 64 word) = (\<Sum>t \<leftarrow> ts. t_quantity t)"
  by (induction ts) (simp_all add: ucast_plus ucast_widened)

text \<open>What one event adds to the counters, the tally and the engine's own counters.\<close>

definition tally_ok :: "'a MatchingEngine \<Rightarrow> ReplayState \<Rightarrow> bool" where
  "tally_ok e0 st \<longleftrightarrow> trade_callback (rp_engine st) = Some replay_callback
     \<and> total_trades (stats (rp_engine st)) = total_trades (stats e0) + trades_count (rp_tally st)
     \<and> ucast (total_volume (stats (rp_engine st))) = ucast (total_volume (stats e0)) + volume_running (rp_tally st)"

lemma tally_ok_submit:
  assumes "tally_ok e0 st" and "submit_order now symb sd ty price q (rp_engine st, rp_tally st) = Some (i, e', s')"
    and "rp_engine st' = e'" "rp_tally st' = s'"
  shows "tally_ok e0 st'"
proof -
  from submit_counters [OF assms(2)] obtain trades where
    "s' = run_callback (Some replay_callback) trades (rp_tally st)"
    "total_trades (stats e') = total_trades (stats (rp_engine st)) + of_nat (length trades)"
    "total_volume (stats e') = total_volume (stats (rp_engine st)) + (\<Sum>t \<leftarrow> trades. ucast (t_quantity t))"
    using assms(1) by (metis tally_ok_def)
  then show ?thesis
    using assms submit_frame(2) [OF assms(2)] by (simp add: tally_ok_def run_replay_callback ucast_plus ucast_sum_quantity)
qed

lemma replay_new_counts:
  assumes "replay_new gate now timer ev st = Some st'"
  shows "events_processed st' = events_processed st" "new_orders st' = new_orders st + 1" "cancels st' = cancels st"
    "tally_ok e0 st \<Longrightarrow> tally_ok e0 st'"
proof -
  obtain reason r1 where
    v: "gate_check gate (ev_symbol ev) (ev_side ev) (ev_type ev) (ev_price ev) (ev_quantity ev) (rp_risk st) = (reason, r1)" by fastforce
  show "events_processed st' = events_processed st" "new_orders st' = new_orders st + 1" "cancels st' = cancels st"
    using assms by (auto simp: replay_new_def Let_def v split: if_splits option.splits)
  assume ok: "tally_ok e0 st"
  show "tally_ok e0 st'"
  proof (cases "reason = NoReason")
    case True
    with assms v obtain i e' s' where
      "submit_order now (ev_symbol ev) (ev_side ev) (ev_type ev) (ev_price ev) (ev_quantity ev) (rp_engine st, rp_tally st) = Some (i, e', s')"
      "rp_engine st' = e'" "rp_tally st' = s'"
      by (auto simp: replay_new_def Let_def split: if_splits option.splits)
    then show ?thesis using tally_ok_submit [OF ok] by blast
  qed (use assms v ok in \<open>auto simp: replay_new_def Let_def tally_ok_def\<close>)
qed

lemma replay_cancel_counts:
  "events_processed (replay_cancel timer ev st) = events_processed st" "new_orders (replay_cancel timer ev st) = new_orders st"
  "cancels (replay_cancel timer ev st) = cancels st + 1" "tally_ok e0 st \<Longrightarrow> tally_ok e0 (replay_cancel timer ev st)"
  by (auto simp: replay_cancel_def Let_def case_prod_unfold tally_ok_def engine_cancel_order_def split: option.splits if_splits)

lemma replay_events_counts:
  assumes "replay_events gate now timer k evs st = Some st'" and "tally_ok e0 st"
  shows "events_processed st' = events_processed st + of_nat (length evs)
    \<and> new_orders st' = new_orders st + of_nat (length (filter is_new evs))
    \<and> cancels st' = cancels st + of_nat (length (filter is_cancel evs)) \<and> tally_ok e0 st'"
  using assms
proof (induction evs arbitrary: k st)
  case (Cons ev evs)
  let ?s = "st\<lparr>events_processed := events_processed st + 1\<rparr>"
  have s: "tally_ok e0 ?s" using Cons.prems(2) by (simp add: tally_ok_def)
  obtain st1 where st1: "replay_event gate (now k) (timer k) ev st = Some st1" "replay_events gate now timer (Suc k) evs st1 = Some st'"
    using Cons.prems(1) by (auto split: option.splits)
  have "events_processed st1 = events_processed st + 1 \<and> new_orders st1 = new_orders st + (if is_new ev then 1 else 0)
    \<and> cancels st1 = cancels st + (if is_cancel ev then 1 else 0) \<and> tally_ok e0 st1"
  proof (cases "is_new ev")
    case True
    then have "replay_new gate (now k) (timer k) ev ?s = Some st1" using st1(1) by (simp add: replay_event_def is_new_def)
    from replay_new_counts [OF this] s True show ?thesis by (auto simp: is_new_def is_cancel_def)
  next
    case False
    then show ?thesis
      using st1(1) s
      by (auto simp: replay_event_def is_new_def is_cancel_def Let_def replay_cancel_counts(1-3) intro: replay_cancel_counts(4) split: if_splits)
  qed
  with Cons.IH [OF st1(2)] show ?case by (auto simp: algebra_simps)
qed simp

lemma replay_Some:
  assumes "replay gate now timer wall tape e r = Some (res, st)"
  shows "replay_events gate now timer 0 (tape_events (tape_open tape)) (replay_start e r) = Some st \<and> res = replay_result wall st"
proof -
  have "\<And>x. (case x of None \<Rightarrow> None | Some st \<Rightarrow> Some (replay_result wall st, st)) = Some (res, st) \<Longrightarrow> x = Some st \<and> res = replay_result wall st"
    by (auto split: option.splits)
  from this [OF assms [unfolded replay_def]] show ?thesis .
qed

text \<open>The figures a replay reports: the events of the tape and how many of them are orders and cancels;
  the trades the engine made during the replay; and their volume, of which a \<^verbatim>\<open>Quantity\<close> keeps the
  low 32 bits.\<close>

theorem replay_tallies:
  assumes "replay gate now timer wall tape e r = Some (res, st)"
  shows "res_events_processed res = of_nat (length (tape_events (tape_open tape)))
    \<and> res_new_orders res = of_nat (length (filter is_new (tape_events (tape_open tape))))
    \<and> res_cancels res = of_nat (length (filter is_cancel (tape_events (tape_open tape))))
    \<and> res_trades_generated res = total_trades (stats (rp_engine st)) - total_trades (stats e)
    \<and> res_volume_traded res = ucast (total_volume (stats (rp_engine st)) - total_volume (stats e))"
proof -
  obtain st' where st': "replay_events gate now timer 0 (tape_events (tape_open tape)) (replay_start e r) = Some st'"
    "res = replay_result wall st'" "st = st'"
    using replay_Some [OF assms] by blast
  have "tally_ok e (replay_start e r)" by (simp add: tally_ok_def replay_start_def set_trade_callback_def)
  from replay_events_counts [OF st'(1) this]
  have c: "events_processed st = of_nat (length (tape_events (tape_open tape)))"
    "new_orders st = of_nat (length (filter is_new (tape_events (tape_open tape))))"
    "cancels st = of_nat (length (filter is_cancel (tape_events (tape_open tape))))" "tally_ok e st"
    by (simp_all add: st'(3)) (simp_all add: replay_start_def)
  have "ucast (a - b :: 64 word) = (ucast a - ucast b :: 32 word)" for a b
    using ucast_plus [of "a - b" b] by (simp add: algebra_simps)
  then have "ucast (total_volume (stats (rp_engine st)) - total_volume (stats e)) = volume_running (rp_tally st)"
    using c(4) by (simp add: tally_ok_def)
  moreover have "total_trades (stats (rp_engine st)) - total_trades (stats e) = trades_count (rp_tally st)"
    using c(4) by (simp add: tally_ok_def)
  moreover have "res_events_processed res = events_processed st" "res_new_orders res = new_orders st" "res_cancels res = cancels st"
    "res_trades_generated res = trades_count (rp_tally st)" "res_volume_traded res = volume_running (rp_tally st)"
    by (simp_all add: st'(2,3) replay_result_def case_prod_unfold Let_def)
  ultimately show ?thesis using c(1-3) by simp
qed

section \<open>A concrete tape\<close>

definition tape1 :: string where
  "tape1 = ''header'' @ [CHR 0x0A] @ ''1,AAPL,B,M,,5,N,1'' @ [CHR 0x0A] @ ''2,AAPL,,,,,C,1''"

lemma events_tape1:
  "tape_events (tape_open tape1) =
     [\<lparr>ev_timestamp_ns = 1, ev_symbol = ''AAPL'', ev_side = Buy, ev_type = Market, ev_price = dzero, ev_quantity = 5,
       ev_action = CHR ''N'', ev_order_id = 1\<rparr>,
      \<lparr>ev_timestamp_ns = 2, ev_symbol = ''AAPL'', ev_side = Buy, ev_type = Limit, ev_price = dzero, ev_quantity = 0,
       ev_action = CHR ''C'', ev_order_id = 1\<rparr>]"
proof -
  have rows: "getlines (CHR 0x0A) tape1 = [''header'', ''1,AAPL,B,M,,5,N,1'', ''2,AAPL,,,,,C,1'']"
    by (simp add: tape1_def getlines.simps)
  have cols: "getlines (CHR '','') ''1,AAPL,B,M,,5,N,1'' = [''1'', ''AAPL'', ''B'', ''M'', [], ''5'', ''N'', ''1'']"
    "getlines (CHR '','') ''2,AAPL,,,,,C,1'' = [''2'', ''AAPL'', [], [], [], [], ''C'', ''1'']"
    by (simp_all add: getlines.simps)
  have nums: "stoll ''1'' = Some 1" "stoll ''2'' = Some 2" "stoull ''5'' = Some 5" "stoull ''1'' = Some 1"
    by (simp_all add: stoll_def stoull_def strtoint_def sign_of_def is_space_def digit_val_def)
  show ?thesis
    by (simp add: tape_events_lines tape_open_def rows map_filter_def line_event_def cols parse_fields_def nums parse_side_def parse_type_def)
qed

lemma legal_tape1: "\<forall>ev \<in> set (tape_events (tape_open tape1)). legal_event ev"
  by (simp add: events_tape1 legal_event_def)

theorem replay_deterministic_witness:
  "\<exists>res1 st1 res2 st2. replay True (\<lambda>_ _. 0) (\<lambda>_. (0, 5)) (0, 9) tape1 MatchingEngine_new risk0 = Some (res1, st1)
    \<and> replay True (\<lambda>_ k. of_nat k) (\<lambda>_. (3, 4)) (1, 7) tape1 MatchingEngine_new risk0 = Some (res2, st2)
    \<and> res_trades_generated res1 = res_trades_generated res2"
proof -
  have n: "1 + length (tape_events (tape_open tape1)) < 2 ^ 64" by (simp add: events_tape1)
  from replay_deterministic [OF engine_inv_new legal_tape1 n, of True "\<lambda>_ _. 0" "\<lambda>_. (0, 5)" "(0, 9)" risk0
      "\<lambda>_ k. of_nat k" "\<lambda>_. (3, 4)" "(1, 7)"]
  obtain res1 st1 res2 st2 where r: "replay True (\<lambda>_ _. 0) (\<lambda>_. (0, 5)) (0, 9) tape1 MatchingEngine_new risk0 = Some (res1, st1)"
    "replay True (\<lambda>_ k. of_nat k) (\<lambda>_. (3, 4)) (1, 7) tape1 MatchingEngine_new risk0 = Some (res2, st2)"
    "res1\<lparr>res_total_duration_ns := 0, res_throughput_ops_per_sec := dzero\<rparr> =
      res2\<lparr>res_total_duration_ns := 0, res_throughput_ops_per_sec := dzero\<rparr>" by blast
  have "res_trades_generated res1 = res_trades_generated res2"
    using arg_cong [OF r(3), of res_trades_generated] by simp
  with r(1,2) show ?thesis by blast
qed

theorem replay_tallies_witness:
  "\<exists>res st. replay True (\<lambda>_ _. 0) (\<lambda>_. (0, 5)) (0, 9) tape1 MatchingEngine_new risk0 = Some (res, st)
    \<and> res_events_processed res = 2 \<and> res_new_orders res = 1 \<and> res_cancels res = 1"
proof -
  have inv: "engine_inv 1 (rp_engine (replay_start MatchingEngine_new risk0))" "agree (replay_start MatchingEngine_new risk0) (replay_start MatchingEngine_new risk0)"
    using engine_inv_new
    by (simp_all add: replay_start_def set_trade_callback_def engine_inv_def engine_ok_def ids_below_def book_of_eq agree_def same_engine_def same_books_def)
  have "1 + length (tape_events (tape_open tape1)) < 2 ^ 64" by (simp add: events_tape1)
  from replay_events_agree [OF inv(2) inv(1) inv(1) this legal_tape1, of True "\<lambda>_ _. 0" "\<lambda>_. (0, 5)" 0]
  obtain st where "replay_events True (\<lambda>_ _. 0) (\<lambda>_. (0, 5)) 0 (tape_events (tape_open tape1)) (replay_start MatchingEngine_new risk0) = Some st"
    by blast
  then have r: "replay True (\<lambda>_ _. 0) (\<lambda>_. (0, 5)) (0, 9) tape1 MatchingEngine_new risk0 = Some (replay_result (0, 9) st, st)"
    unfolding replay_def by simp
  from replay_tallies [OF r] have "res_events_processed (replay_result (0, 9) st) = 2" "res_new_orders (replay_result (0, 9) st) = 1"
    "res_cancels (replay_result (0, 9) st) = 1"
    by (simp_all add: events_tape1 is_new_def is_cancel_def)
  with r show ?thesis by blast
qed

section \<open>Cancels\<close>

text \<open>A cancel that names the tape id of an earlier order goes to the id the engine gave that order. If the
  risk check refused the order, nothing was recorded for its tape id, and the cancel goes to the order
  that happens to have that number on the engine.\<close>

theorem cancel_target:
  assumes "replay_new gate now timer ev st = Some st1" and "ev_order_id ev \<noteq> 0" and "ev_order_id c = ev_order_id ev"
  shows "rp_engine (replay_cancel timer' c st1) = snd (engine_cancel_order (ev_symbol c)
    (if fst (gate_check gate (ev_symbol ev) (ev_side ev) (ev_type ev) (ev_price ev) (ev_quantity ev) (rp_risk st)) = NoReason
     then fst (the (submit_order now (ev_symbol ev) (ev_side ev) (ev_type ev) (ev_price ev) (ev_quantity ev) (rp_engine st, rp_tally st)))
     else (case map_of (id_map st) (ev_order_id ev) of None \<Rightarrow> ev_order_id ev | Some i \<Rightarrow> i)) (rp_engine st1))"
proof -
  obtain reason r1 where
    v: "gate_check gate (ev_symbol ev) (ev_side ev) (ev_type ev) (ev_price ev) (ev_quantity ev) (rp_risk st) = (reason, r1)" by fastforce
  have "map_of (id_map st1) (ev_order_id ev) =
    (if reason = NoReason
     then Some (fst (the (submit_order now (ev_symbol ev) (ev_side ev) (ev_type ev) (ev_price ev) (ev_quantity ev) (rp_engine st, rp_tally st))))
     else map_of (id_map st) (ev_order_id ev))"
    using assms(1,2) by (auto simp: replay_new_def Let_def v update_conv' split: if_splits option.splits)
  then show ?thesis
    by (simp add: replay_cancel_def Let_def case_prod_unfold assms(3) v split: option.split)
qed

definition order7 :: ReplayEvent where
  "order7 = \<lparr>ev_timestamp_ns = 1, ev_symbol = ''AAPL'', ev_side = Buy, ev_type = Market, ev_price = dzero, ev_quantity = 5,
     ev_action = CHR ''N'', ev_order_id = 7\<rparr>"

theorem cancel_target_witness:
  "\<exists>st1. replay_new True (\<lambda>_. 0) (0, 5) order7 (replay_start MatchingEngine_new (engage_kill_switch risk0)) = Some st1
    \<and> rp_engine (replay_cancel (0, 5) (order7\<lparr>ev_action := CHR ''C''\<rparr>) st1) = snd (engine_cancel_order ''AAPL'' 7 (rp_engine st1))"
proof -
  let ?st = "replay_start MatchingEngine_new (engage_kill_switch risk0)"
  have v: "fst (gate_check True (ev_symbol order7) (ev_side order7) (ev_type order7) (ev_price order7) (ev_quantity order7) (rp_risk ?st)) = KillSwitchActive"
    by (simp add: gate_check_def check_def reject_def replay_start_def engage_kill_switch_def)
  then obtain st1 where st1: "replay_new True (\<lambda>_. 0) (0, 5) order7 ?st = Some st1"
    by (simp add: replay_new_def case_prod_unfold Let_def)
  have "ev_order_id order7 \<noteq> 0" "ev_order_id (order7\<lparr>ev_action := CHR ''C''\<rparr>) = ev_order_id order7" by (simp_all add: order7_def)
  from cancel_target [OF st1 this, of "(0, 5)"] st1 v show ?thesis
    by (intro exI [of _ st1]) (simp add: replay_start_def order7_def)
qed

section \<open>The loop as a message handler\<close>

interpretation harness: message_handler "\<lambda>k st. engine_inv k (rp_engine st) \<and> trade_callback (rp_engine st) = Some replay_callback"
  "\<lambda>(now, timer, ev). legal_event ev" "\<lambda>(now, timer, ev) st. map_option (Pair ()) (replay_event gate now timer ev st)" "2 ^ 64" for gate
proof (unfold_locales, clarify, goal_cases)
  case (1 k st now t0 t1 ev)
  have "agree st st" using 1 by (simp add: agree_def same_engine_def same_books_def)
  from replay_event_agree [OF this, of k ev gate now "(t0, t1)" now "(t0, t1)"] 1
  show ?case by (auto simp: agree_def)
qed

text \<open>The loop over the tape is the loop over its messages, and so returns.\<close>

lemma replay_events_run_all:
  "replay_events gate now timer k evs st = map_option snd (run_all (\<lambda>(now, timer, ev) st. map_option (Pair ()) (replay_event gate now timer ev st))
     (map (\<lambda>i. (now (k + i), timer (k + i), evs ! i)) [0..<length evs]) st)"
proof (induction evs arbitrary: k st)
  case (Cons ev evs)
  have "map (\<lambda>i. (now (k + i), timer (k + i), (ev # evs) ! i)) [0..<length (ev # evs)] =
    (now k, timer k, ev) # map (\<lambda>i. (now (Suc k + i), timer (Suc k + i), evs ! i)) [0..<length evs]"
    by (simp add: upt_conv_Cons map_Suc_upt [symmetric] del: upt_Suc)
  then show ?case using Cons [of "Suc k"] by (simp del: upt_Suc split: option.split)
qed simp

lemma replay_events_return:
  assumes "engine_inv k (rp_engine st)" and "trade_callback (rp_engine st) = Some replay_callback"
    and "\<forall>ev \<in> set evs. legal_event ev" and "k + length evs < 2 ^ 64"
  shows "\<exists>st'. replay_events gate now timer n evs st = Some st' \<and> engine_inv (k + length evs) (rp_engine st')"
  using harness.run_all_handles [of k st "map (\<lambda>i. (now (n + i), timer (n + i), evs ! i)) [0..<length evs]" gate] assms
  by (auto simp: replay_events_run_all)

end
