(* ===== verification/Rounding.thy ===== *)
theory Rounding
  imports Double
begin

text \<open>
  How accurate the rounding of \<open>Double\<close> is: the value of a rounded ratio, and its distance from the exact one. The value of a
  finite double is \<open>units\<close>, a natural number of units of the smallest positive double.
\<close>

section \<open>The rounding step\<close>

lemma round_half_even_error:
  assumes "0 < d"
  shows "2 * \<bar>int (round_half_even n d * d) - int n\<bar> \<le> int d"
proof -
  obtain q r where q: "n div d = q" and r: "n mod d = r" by blast
  have n: "n = q * d + r" and rd: "r < d" using assms q r by (simp_all flip: q r)
  show ?thesis
  proof (cases "2 * r < d \<or> 2 * r = d \<and> even q")
    case True
    then have "round_half_even n d = q" by (auto simp: round_half_even_def Let_def q r)
    then show ?thesis using True by (auto simp: n)
  next
    case False
    then have "round_half_even n d = q + 1" by (auto simp: round_half_even_def Let_def q r)
    then have "int (round_half_even n d * d) - int n = int d - int r" by (simp add: n algebra_simps)
    then show ?thesis using False rd by auto
  qed
qed

lemma round_half_even_unique:
  assumes "0 < d" and "2 * \<bar>int (m * d) - int n\<bar> < int d"
  shows "round_half_even n d = m"
proof -
  have "\<bar>a - b\<bar> < e" if "2 * \<bar>b - c\<bar> < e" "2 * \<bar>a - c\<bar> \<le> e" for a b c e :: int using that by arith
  from this [OF assms(2) round_half_even_error [OF assms(1), of n]]
  have "\<bar>int (round_half_even n d * d) - int (m * d)\<bar> < int d" .
  then have "\<bar>int (round_half_even n d) - int m\<bar> * int d < 1 * int d"
    by (simp add: abs_mult flip: left_diff_distrib)
  then have "\<bar>int (round_half_even n d) - int m\<bar> < 1" by (rule mult_right_less_imp_less) simp
  then show ?thesis by linarith
qed

lemma round_half_even_scale:
  assumes "0 < c"
  shows "round_half_even (n * c) (d * c) = round_half_even n d"
proof -
  have "n * c div (d * c) = n div d" "n * c mod (d * c) = n mod d * c"
    using assms by (simp_all add: mult_mod_left)
  moreover have "2 * (n mod d * c) = 2 * (n mod d) * c" by simp
  ultimately show ?thesis using assms unfolding round_half_even_def Let_def by (simp only: mult_less_cancel2 mult_cancel2) auto
qed

lemma round_half_even_bounds: "n div d \<le> round_half_even n d" "round_half_even n d \<le> n div d + 1"
  by (simp_all add: round_half_even_def Let_def)

section \<open>The value of a rounded ratio\<close>

lemma bit_len_lower: "0 < bit_len n \<Longrightarrow> 2 ^ (bit_len n - 1) \<le> n"
proof (induction n rule: bit_len.induct)
  case (1 n)
  show ?case
  proof (cases "n = 0 \<or> bit_len (n div 2) = 0")
    case True
    then show ?thesis using "1.prems" by (cases "n = 0") (auto simp: bit_len.simps [of n] bit_len.simps [of 0])
  next
    case False
    then have "2 ^ (bit_len (n div 2) - 1) \<le> n div 2" using "1.IH" by simp
    then have "2 * 2 ^ (bit_len (n div 2) - 1) \<le> n" by linarith
    then show ?thesis using False by (simp add: bit_len.simps [of n] flip: power_Suc)
  qed
qed

text \<open>The exponent shift of a ratio: its significand is a multiple of \<open>2 ^ shift n d\<close> units.\<close>

definition shift :: "nat \<Rightarrow> nat \<Rightarrow> nat" where
  "shift n d = bit_len (n div d) - 53"

lemma significand_bounds:
  assumes "0 < d"
  shows "round_half_even n (d * 2 ^ shift n d) \<le> 2 ^ 53" and "0 < shift n d \<Longrightarrow> 2 ^ 52 \<le> round_half_even n (d * 2 ^ shift n d)"
proof -
  let ?s = "shift n d"
  have q: "n div (d * 2 ^ ?s) = n div d div 2 ^ ?s" by (simp add: div_mult2_eq)
  have "n div d < 2 ^ (53 + ?s)" using bit_len_upper [of "n div d"] by (rule order_less_le_trans) (simp add: shift_def)
  then have "n div d div 2 ^ ?s < 2 ^ 53" by (simp add: less_mult_imp_div_less power_add)
  then show "round_half_even n (d * 2 ^ ?s) \<le> 2 ^ 53" using round_half_even_bounds(2) [of n "d * 2 ^ ?s"] q by linarith
  assume s: "0 < ?s"
  then have "2 ^ (52 + ?s) \<le> n div d" using bit_len_lower [of "n div d"] by (simp add: shift_def)
  then have "2 ^ 52 \<le> n div d div 2 ^ ?s" by (simp add: power_add less_eq_div_iff_mult_less_eq)
  then show "2 ^ 52 \<le> round_half_even n (d * 2 ^ ?s)" using round_half_even_bounds(1) [of n "d * 2 ^ ?s"] q by linarith
qed

lemma units_significand:
  assumes "q \<le> 2 ^ 53" and "0 < s \<Longrightarrow> 2 ^ 52 \<le> q" and "unat (mag x) = s * 2 ^ 52 + q"
  shows "units x = q * 2 ^ s"
proof (cases "q < 2 ^ 52")
  case True
  then have "s = 0" using assms(2) by fastforce
  then show ?thesis using True assms(3) by (simp add: units_def Let_def)
next
  case False
  show ?thesis
  proof (cases "q = 2 ^ 53")
    case True
    then have "unat (mag x) = (s + 2) * 2 ^ 52" using assms(3) by simp
    then have "unat (mag x) div 2 ^ 52 = s + 2" "unat (mag x) mod 2 ^ 52 = 0" by (simp_all del: add_mult_distrib)
    then show ?thesis using True by (simp add: units_def Let_def)
  next
    case ne: False
    then have "unat (mag x) = (q - 2 ^ 52) + (s + 1) * 2 ^ 52" and lt: "q - 2 ^ 52 < 2 ^ 52" using False assms(1,3) by simp_all
    then have "unat (mag x) div 2 ^ 52 = s + 1" "unat (mag x) mod 2 ^ 52 = q - 2 ^ 52"
      by (simp_all only: div_mult_self1 mod_mult_self1) (simp_all add: div_less)
    then show ?thesis using False by (simp add: units_def Let_def)
  qed
qed

lemma of_ratio_units:
  assumes "0 < d" and "n div d < 2 ^ k" and "53 \<le> k" and "k \<le> 2000"
  shows "units (of_ratio b n d) = round_half_even n (d * 2 ^ shift n d) * 2 ^ shift n d"
    and "2 * \<bar>int (units (of_ratio b n d) * d) - int n\<bar> \<le> int (d * 2 ^ shift n d)"
proof -
  have "unat (mag (of_ratio b n d)) = shift n d * 2 ^ 52 + round_half_even n (d * 2 ^ shift n d)"
    by (simp only: of_ratio_finite(2) [OF assms] round_ratio_def shift_def Let_def)
  from units_significand [OF significand_bounds [OF assms(1)] this] show u: "units (of_ratio b n d) = round_half_even n (d * 2 ^ shift n d) * 2 ^ shift n d" .
  have "0 < d * 2 ^ shift n d" using assms(1) by simp
  from round_half_even_error [OF this, of n] show "2 * \<bar>int (units (of_ratio b n d) * d) - int n\<bar> \<le> int (d * 2 ^ shift n d)"
    unfolding u by (simp add: mult_ac)
qed

section \<open>Rounding is monotone and exact on doubles\<close>

lemma round_half_even_mono:
  assumes "n \<le> n'"
  shows "round_half_even n d \<le> round_half_even n' d"
proof (cases "n div d = n' div d")
  case True
  have "n mod d \<le> n' mod d"
    using assms True div_mult_mod_eq [of n d] div_mult_mod_eq [of n' d] by (metis add_le_cancel_left)
  then show ?thesis by (auto simp: round_half_even_def Let_def True)
next
  case False
  then have "n div d + 1 \<le> n' div d" using div_le_mono [OF assms, of d] by simp
  then show ?thesis using round_half_even_bounds [of n d] round_half_even_bounds(1) [of n' d] by linarith
qed

lemma bit_len_mono: "m \<le> n \<Longrightarrow> bit_len m \<le> bit_len n"
  using bit_len_bound [of m "bit_len n"] bit_len_upper [of n] by simp

lemma round_ratio_mono:
  assumes "0 < d" and "n \<le> n'"
  shows "round_ratio n d \<le> round_ratio n' d"
proof -
  have r: "round_ratio m d = shift m d * 2 ^ 52 + round_half_even m (d * 2 ^ shift m d)" for m by (simp add: round_ratio_def shift_def Let_def)
  have "shift n d \<le> shift n' d" using bit_len_mono [OF div_le_mono [OF assms(2)]] by (simp add: shift_def diff_le_mono)
  then consider "shift n d = shift n' d" | "shift n d + 1 \<le> shift n' d" by linarith
  then show ?thesis
  proof cases
    case 1
    then show ?thesis using round_half_even_mono [OF assms(2)] by (simp add: r)
  next
    case 2
    have "shift n d * 2 ^ 52 + round_half_even n (d * 2 ^ shift n d) \<le> shift n d * 2 ^ 52 + 2 ^ 53" using significand_bounds(1) [OF assms(1)] by simp
    also have "\<dots> = (shift n d + 1) * 2 ^ 52 + 2 ^ 52" by simp
    also have "\<dots> \<le> shift n' d * 2 ^ 52 + round_half_even n' (d * 2 ^ shift n' d)"
      using 2 significand_bounds(2) [OF assms(1), of n'] by (intro add_mono mult_right_mono) simp_all
    finally show ?thesis by (simp only: r)
  qed
qed

lemma bit_len_eq:
  assumes "2 ^ k \<le> n" and "n < 2 ^ Suc k"
  shows "bit_len n = Suc k"
proof -
  have "2 ^ k < (2 :: nat) ^ bit_len n" using assms(1) bit_len_upper [of n] by (rule order_le_less_trans)
  then have "k < bit_len n" by (rule power_less_imp_less_exp [rotated]) simp
  then show ?thesis using bit_len_bound [OF assms(2)] by simp
qed

text \<open>Rounding gives a double back, so the units of a double determine its magnitude, in order.\<close>

lemma round_units: "round_ratio (units x) 1 = unat (mag x)"
proof -
  let ?e = "unat (mag x) div 2 ^ 52" and ?f = "unat (mag x) mod 2 ^ 52"
  have m: "unat (mag x) = ?e * 2 ^ 52 + ?f" by simp
  have f: "?f < 2 ^ 52" by simp
  show ?thesis
  proof (cases "?e = 0")
    case True
    then have u: "units x = ?f" by (simp add: units_def)
    have "bit_len ?f \<le> 52" by (rule bit_len_bound [OF f])
    then show ?thesis using True by (simp add: u round_ratio_def round_half_even_def div_eq_0_iff)
  next
    case False
    then have u: "units x = (?f + 2 ^ 52) * 2 ^ (?e - 1)" by (simp add: units_def)
    have "2 ^ (52 + (?e - 1)) \<le> units x" unfolding u power_add by (intro mult_right_mono) simp_all
    moreover have "units x < 2 ^ Suc (52 + (?e - 1))" unfolding u power_Suc power_add using f by (simp add: mult.assoc [symmetric])
    ultimately have "bit_len (units x) = Suc (52 + (?e - 1))" by (rule bit_len_eq)
    then have "round_ratio (units x) 1 = (?e - 1) * 2 ^ 52 + round_half_even ((?f + 2 ^ 52) * 2 ^ (?e - 1)) (2 ^ (?e - 1))"
      unfolding round_ratio_def Let_def div_by_1 mult_1 by (simp add: u)
    also have "round_half_even ((?f + 2 ^ 52) * 2 ^ (?e - 1)) (2 ^ (?e - 1)) = ?f + 2 ^ 52" by (simp add: round_half_even_def)
    also have "(?e - 1) * 2 ^ 52 + (?f + 2 ^ 52) = (?e - 1 + 1) * 2 ^ 52 + ?f" by (simp only: add_mult_distrib mult_1 add_ac)
    also have "\<dots> = ?e * 2 ^ 52 + ?f" using False by simp
    finally show ?thesis by simp
  qed
qed

lemma units_le_iff: "units x \<le> units y \<longleftrightarrow> mag x \<le> mag y"
proof
  assume "units x \<le> units y"
  from round_ratio_mono [OF zero_less_one this] show "mag x \<le> mag y" by (simp only: round_units word_le_nat_alt)
next
  assume le: "mag x \<le> mag y"
  show "units x \<le> units y"
  proof (rule ccontr)
    assume "\<not> units x \<le> units y"
    then have "units y \<le> units x" by simp
    from round_ratio_mono [OF zero_less_one this] le have "mag x = mag y" by (simp only: round_units word_le_nat_alt word_unat_eq_iff)
    then have "units x = units y" by (simp add: units_def)
    with \<open>\<not> units x \<le> units y\<close> show False by simp
  qed
qed

lemma units_less_iff: "units x < units y \<longleftrightarrow> mag x < mag y"
  using units_le_iff [of y x] by (simp add: not_le [symmetric])

section \<open>Sums and differences of nonnegative doubles\<close>

lemma dadd_nonneg:
  assumes "finite_double a" and "finite_double b" and "\<not> sign_bit a" and "\<not> sign_bit b" and "0 < units a + units b"
  shows "dadd a b = of_ratio False (units a + units b) 1"
proof -
  have "signed_units a + signed_units b = int (units a + units b)" using assms(3,4) by (simp add: signed_units_def)
  then show ?thesis using assms unfolding dadd_def finite_double_def Let_def by (auto simp: nat_int_add)
qed

lemma dsub_nonneg:
  assumes "finite_double a" and "finite_double b" and "\<not> sign_bit a" and "\<not> sign_bit b" and "units b < units a"
  shows "dsub a b = of_ratio False (units a - units b) 1"
proof -
  have "signed_units a + signed_units (dneg b) = int (units a - units b)"
    using assms(3-5) by (simp add: signed_units_def dneg_def units_def of_nat_diff)
  then show ?thesis using assms unfolding dsub_def dadd_def finite_double_def Let_def by (simp add: of_nat_diff nat_diff_distrib)
qed

end
