(* ===== verification/Output.thy ===== *)
theory Output
  imports Rounding
begin

text \<open>
  Formatted output on \<^verbatim>\<open>std::cout\<close>: the operands of \<^verbatim>\<open><<\<close>, the manipulators the program uses, and the characters they
  produce. The stream keeps its format between calls, as the C++ library does: the width is spent by the next
  operand, the other settings stay. A \<^verbatim>\<open>double\<close> is printed by \<^verbatim>\<open>%.*f\<close> after \<^verbatim>\<open>std::fixed\<close> and by \<^verbatim>\<open>%.*g\<close> otherwise, from its
  exact value with correct rounding.
\<close>

section \<open>Numbers as text\<close>

definition digit_char :: "nat \<Rightarrow> char" where
  "digit_char d = char_of (48 + d)"

fun show_nat :: "nat \<Rightarrow> string" where
  "show_nat n = (if n < 10 then [digit_char n] else show_nat (n div 10) @ [digit_char (n mod 10)])"

declare show_nat.simps [simp del]

definition show_int :: "int \<Rightarrow> string" where
  "show_int i = (if i < 0 then ''-'' else []) @ show_nat (nat \<bar>i\<bar>)"

text \<open>The last \<open>p\<close> digits of a number, leading zeros included.\<close>

primrec last_digits :: "nat \<Rightarrow> nat \<Rightarrow> string" where
  "last_digits 0 n = []"
| "last_digits (Suc p) n = last_digits p (n div 10) @ [digit_char (n mod 10)]"

text \<open>The number \<open>m / 10 ^ p\<close> with \<open>p\<close> decimals.\<close>

definition decimal :: "nat \<Rightarrow> nat \<Rightarrow> string" where
  "decimal p m = show_nat (m div 10 ^ p) @ (if p = 0 then [] else CHR ''.'' # last_digits p m)"

definition show_special :: "double \<Rightarrow> string option" where
  "show_special d = (if is_nan d then Some ''nan'' else if is_inf d then Some ''inf'' else None)"

definition show_fixed :: "nat \<Rightarrow> double \<Rightarrow> string" where
  "show_fixed p d = (if sign_bit d then ''-'' else []) @
     (case show_special d of Some s \<Rightarrow> s | None \<Rightarrow> decimal p (round_half_even (units d * 10 ^ p) one_units))"

text \<open>The decimal exponent of a positive number of units, and its first \<open>p\<close> digits with the exponent they have after
  rounding. The factor \<open>10 ^ 400\<close> makes the smallest double an integer with leading digits.\<close>

definition decimal_exponent :: "nat \<Rightarrow> int" where
  "decimal_exponent u = int (length (show_nat (u * 10 ^ 400 div one_units))) - 401"

definition leading_digits :: "nat \<Rightarrow> nat \<Rightarrow> nat \<times> int" where
  "leading_digits p u =
     (let x = decimal_exponent u;
          m = round_half_even (u * 10 ^ nat (int p - 1 - x)) (one_units * 10 ^ nat (x + 1 - int p))
      in if m = 10 ^ p then (10 ^ (p - 1), x + 1) else (m, x))"

definition strip_zeros :: "string \<Rightarrow> string" where
  "strip_zeros s =
     (if CHR ''.'' \<in> set s
      then rev (case dropWhile (\<lambda>c. c = CHR ''0'') (rev s) of [] \<Rightarrow> [] | c # cs \<Rightarrow> if c = CHR ''.'' then cs else c # cs)
      else s)"

definition show_exponent :: "int \<Rightarrow> string" where
  "show_exponent x = (if x < 0 then ''e-'' else ''e+'') @ (if \<bar>x\<bar> < 10 then ''0'' else []) @ show_nat (nat \<bar>x\<bar>)"

definition show_general :: "nat \<Rightarrow> double \<Rightarrow> string" where
  "show_general prec d = (if sign_bit d then ''-'' else []) @
     (case show_special d of Some s \<Rightarrow> s | None \<Rightarrow>
        if units d = 0 then ''0''
        else let p = max 1 prec; (m, x) = leading_digits p (units d)
             in if -4 \<le> x \<and> x < int p then strip_zeros (decimal (nat (int p - 1 - x)) m)
                else strip_zeros (decimal (p - 1) m) @ show_exponent x)"

section \<open>The stream\<close>

datatype out = Text string | Number int | Real double | Setw nat | Fixed | Setprecision nat | Left | Right

record Format =
  fmt_width :: nat
  fmt_fixed :: bool
  fmt_precision :: nat
  fmt_left :: bool

definition Format_default :: Format where
  "Format_default = \<lparr>fmt_width = 0, fmt_fixed = False, fmt_precision = 6, fmt_left = False\<rparr>"

definition pad :: "Format \<Rightarrow> string \<Rightarrow> string" where
  "pad f s = (let fill = replicate (fmt_width f - length s) (CHR '' '') in if fmt_left f then s @ fill else fill @ s)"

fun put :: "Format \<Rightarrow> out \<Rightarrow> string \<times> Format" where
  "put f (Text s) = (pad f s, f\<lparr>fmt_width := 0\<rparr>)"
| "put f (Number i) = (pad f (show_int i), f\<lparr>fmt_width := 0\<rparr>)"
| "put f (Real d) = (pad f (if fmt_fixed f then show_fixed (fmt_precision f) d else show_general (fmt_precision f) d), f\<lparr>fmt_width := 0\<rparr>)"
| "put f (Setw n) = ([], f\<lparr>fmt_width := n\<rparr>)"
| "put f Fixed = ([], f\<lparr>fmt_fixed := True\<rparr>)"
| "put f (Setprecision n) = ([], f\<lparr>fmt_precision := n\<rparr>)"
| "put f Left = ([], f\<lparr>fmt_left := True\<rparr>)"
| "put f Right = ([], f\<lparr>fmt_left := False\<rparr>)"

fun render :: "Format \<Rightarrow> out list \<Rightarrow> string \<times> Format" where
  "render f [] = ([], f)"
| "render f (x # xs) = (let (s, f1) = put f x; (t, f2) = render f1 xs in (s @ t, f2))"

abbreviation newline :: string where
  "newline \<equiv> [CHR 0x0A]"

text \<open>\<^verbatim>\<open>static_cast\<close> of a finite double to an integer type it fits into drops the fraction.\<close>

definition truncate_int64 :: "double \<Rightarrow> int" where
  "truncate_int64 d = (let n = int (units d div one_units) in if sign_bit d then - n else n)"

section \<open>Digits\<close>

lemma digit_char_inj: "a < 10 \<Longrightarrow> (of_char (digit_char a) :: nat) = 48 + a"
  by (simp add: digit_char_def)

lemma show_nat_nonempty [simp]: "show_nat n \<noteq> []"
  by (subst show_nat.simps) simp

lemma length_show_nat: "length (show_nat n) \<le> k \<longleftrightarrow> n < 10 ^ k \<and> 0 < k"
proof (induction n arbitrary: k rule: show_nat.induct)
  case (1 n)
  show ?case
  proof (cases "n < 10")
    case True
    have "n < 10 ^ k" if "0 < k"
    proof -
      have "(10 :: nat) ^ 1 \<le> 10 ^ k" using that by (intro power_increasing) simp_all
      then show ?thesis using True by simp
    qed
    with True show ?thesis by (subst show_nat.simps) auto
  next
    case False
    note big = False
    show ?thesis
    proof (cases k)
      case (Suc j)
      have "length (show_nat n) \<le> k \<longleftrightarrow> length (show_nat (n div 10)) \<le> j" using big Suc by (subst show_nat.simps) simp
      also have "\<dots> \<longleftrightarrow> n div 10 < 10 ^ j \<and> 0 < j" using "1.IH" big by simp
      also have "\<dots> \<longleftrightarrow> n < 10 ^ k"
        using Suc big by (cases j) (auto simp: div_less_iff_less_mult mult_ac)
      finally show ?thesis using Suc by simp
    qed simp
  qed
qed

lemma length_last_digits [simp]: "length (last_digits p n) = p"
  by (induction p arbitrary: n) simp_all

lemma length_decimal: "length (decimal p m) = length (show_nat (m div 10 ^ p)) + (if p = 0 then 0 else Suc p)"
  by (simp add: decimal_def)

lemma length_pad: "length (pad f s) = max (fmt_width f) (length s)"
  by (auto simp: pad_def Let_def)

lemma render_append: "render f (xs @ ys) = (let (s, f1) = render f xs; (t, f2) = render f1 ys in (s @ t, f2))"
  by (induction xs arbitrary: f) (simp_all add: Let_def split: prod.splits)

section \<open>Exact conversions\<close>

lemma round_ratio_scale:
  assumes "0 < c"
  shows "round_ratio (n * c) (d * c) = round_ratio n d"
proof -
  have "n * c div (d * c) = n div d" using assms by simp
  moreover have "d * c * 2 ^ s = d * 2 ^ s * c" for s by simp
  ultimately show ?thesis by (simp only: round_ratio_def Let_def round_half_even_scale [OF assms])
qed

lemma of_ratio_scale: "0 < c \<Longrightarrow> of_ratio b (n * c) (d * c) = of_ratio b n d"
  by (simp add: of_ratio_def round_ratio_scale)

lemma round_half_even_exact: "0 < d \<Longrightarrow> round_half_even (q * d) d = q"
  by (simp add: round_half_even_def Let_def)

text \<open>A multiple \<open>m\<close> of a power of two is a double when \<open>m\<close> has at most 53 bits.\<close>

lemma of_ratio_exact:
  assumes "m < 2 ^ 53" and "e \<le> 1900" and "0 < d"
  shows "units (of_ratio b (m * 2 ^ e * d) d) = m * 2 ^ e"
proof -
  let ?n = "m * 2 ^ e * d"
  have q: "?n div d = m * 2 ^ e" using assms(3) by simp
  have lt: "?n div d < 2 ^ (53 + e)" unfolding q power_add using assms(1) by simp
  have k: "53 \<le> 53 + e" "53 + e \<le> 2000" using assms(2) by simp_all
  have s: "shift ?n d \<le> e" using bit_len_bound [OF lt] by (simp add: shift_def)
  then have n: "?n = m * 2 ^ (e - shift ?n d) * (d * 2 ^ shift ?n d)" by (simp flip: power_add)
  have "round_half_even ?n (d * 2 ^ shift ?n d) = m * 2 ^ (e - shift ?n d)"
    by (subst (1) n) (rule round_half_even_exact, simp add: assms(3))
  then show ?thesis unfolding of_ratio_units(1) [OF assms(3) lt k] using s by (simp flip: power_add)
qed

text \<open>The rounding error of a quotient below \<open>2 ^ k\<close>.\<close>

lemma quotient_error:
  assumes "0 < b" and "a < 2 ^ k * b" and "k \<le> 900"
  shows "2 * \<bar>int (units (of_ratio s (a * one_units) b) * b) - int (a * one_units)\<bar> \<le> int (b * 2 ^ (1021 + k))"
proof -
  let ?N = "a * one_units :: nat"
  have "?N < 2 ^ k * b * one_units" using assms(2) by (intro mult_strict_right_mono) simp_all
  also have "\<dots> = 2 ^ (1074 + k) * b" by (simp only: power_add mult_ac)
  finally have lt: "?N div b < 2 ^ (1074 + k)" by (simp add: div_less_iff_less_mult assms(1))
  have "shift ?N b \<le> 1021 + k" using bit_len_bound [OF lt] by (simp add: shift_def)
  then have "(2 :: nat) ^ shift ?N b \<le> 2 ^ (1021 + k)" by (rule power_increasing) simp
  then have "int (b * 2 ^ shift ?N b) \<le> int (b * 2 ^ (1021 + k))" by (simp only: of_nat_le_iff mult_le_mono2)
  moreover have "53 \<le> 1074 + k" "1074 + k \<le> 2000" using assms(3) by simp_all
  ultimately show ?thesis using of_ratio_units(2) [OF assms(1) lt, of s] by linarith
qed

text \<open>The rounded quotient of two integers has the integer part of the exact one, as long as it is below 128 and the
  divisor below \<open>2 ^ 46\<close>: the rounding error is less than the distance to the next integer.\<close>

lemma quotient_floor:
  assumes "0 < b" and "b < 2 ^ 46" and "a < 128 * b"
  shows "units (of_ratio s (a * one_units) b) div one_units = a div b"
proof -
  define N where "N = a * one_units"
  define u where "u = units (of_ratio s N b)"
  define k where "k = a div b"
  have "b * 2 ^ (1021 + 7) < 2 ^ 46 * 2 ^ (1021 + 7)" using assms(2) by (intro mult_strict_right_mono) simp_all
  also have "\<dots> = (one_units :: nat)" by (simp flip: power_add)
  finally have half: "int (b * 2 ^ (1021 + 7)) < int one_units" by (simp only: of_nat_less_iff)
  have "x < z" if "2 * x \<le> y" "y < z" "0 \<le> x" for x y z :: int using that by linarith
  moreover have "a < 2 ^ 7 * b" "7 \<le> (900 :: nat)" using assms(3) by simp_all
  from quotient_error [OF assms(1) this] have "2 * \<bar>int (u * b) - int N\<bar> \<le> int (b * 2 ^ (1021 + 7))" unfolding u_def N_def .
  ultimately have close: "\<bar>int (u * b) - int N\<bar> < int one_units" using half abs_ge_zero by blast
  have ab: "k * b \<le> a" "a < (k + 1) * b" using assms(1) by (simp_all add: k_def div_times_less_eq_dividend dividend_less_div_times)
  have "N + one_units \<le> (k + 1) * b * one_units" unfolding N_def using ab(2) by (metis Suc_eq_plus1 Suc_leI add.commute mult_Suc mult_le_mono1)
  moreover have "u * b < N + one_units" using close by linarith
  ultimately have "u * b < (k + 1) * one_units * b" by (simp only: mult_ac)
  then have upper: "u < (k + 1) * one_units" using assms(1) by simp
  have lower: "k * one_units \<le> u"
  proof (cases "k * b = a")
    case True
    have "k < 128" using assms(1,3) by (simp add: k_def div_less_iff_less_mult)
    then have "k < 2 ^ 53" by simp
    moreover have "N = k * one_units * b" using True by (auto simp: N_def mult_ac)
    ultimately show ?thesis using of_ratio_exact [of k 1074 b s] assms(1) by (simp add: u_def)
  next
    case False
    then have "(k * b + 1) * one_units \<le> N" unfolding N_def using ab(1) by (intro mult_right_mono) simp_all
    then have "k * b * one_units + one_units \<le> N" by (simp only: add_mult_distrib mult_1)
    moreover have "x < v" if "x + e \<le> n" "\<bar>int v - int n\<bar> < int e" for x e n v :: nat using that by linarith
    ultimately have "k * b * one_units < u * b" using close by blast
    then have "k * one_units * b \<le> u * b" by (simp only: mult_ac)
    then show ?thesis using assms(1) by simp
  qed
  from lower upper have "u div one_units = k" by (intro div_nat_eqI) (simp_all add: mult_ac)
  then show ?thesis by (simp add: u_def N_def k_def)
qed

text \<open>Integers of at most 53 bits are doubles, and arithmetic on them is exact up to the last rounding.\<close>

lemma of_uint_dlit: "of_uint w = dlit (unat w) 1"
  by (simp only: of_uint_def dlit_def)

lemma whole_double:
  assumes "m < 2 ^ 53"
  shows "units (dlit m 1) = m * one_units" and "finite_double (dlit m 1)"
proof -
  show "units (dlit m 1) = m * one_units" using of_ratio_exact [OF assms, of 1074 1 False] by (simp only: dlit_def mult_1_right)
  have "m * one_units < 2 ^ 53 * one_units" using assms by (intro mult_strict_right_mono) simp_all
  also have "\<dots> = 2 ^ 1127" by (simp flip: power_add)
  finally have "m * one_units div 1 < 2 ^ 1127" by (simp only: div_by_1)
  then show "finite_double (dlit m 1)" unfolding dlit_def by (rule of_ratio_finite(3) [rotated]) simp_all
qed

lemma dlit_sign [simp]: "\<not> sign_bit (dlit n d)"
  by (simp add: dlit_def of_ratio_def pack_def)

lemma whole_arith:
  assumes "a < 2 ^ 53" and "b < 2 ^ 53"
  shows "dmul (dlit a 1) (dlit b 1) = dlit (a * b) 1" and "0 < b \<Longrightarrow> ddiv (dlit a 1) (dlit b 1) = dlit a b"
proof -
  have num: "\<not> is_nan (dlit a 1)" "\<not> is_inf (dlit a 1)" "\<not> is_nan (dlit b 1)" "\<not> is_inf (dlit b 1)"
    using whole_double(2) [OF assms(1)] whole_double(2) [OF assms(2)] by (simp_all add: finite_double_def)
  have "dmul (dlit a 1) (dlit b 1) = of_ratio False (a * one_units * (b * one_units)) one_units"
    using num unfolding dmul_def Let_def whole_double(1) [OF assms(1)] whole_double(1) [OF assms(2)] by auto
  also have "a * one_units * (b * one_units) = a * b * one_units * one_units" by (simp only: mult_ac)
  also have "of_ratio False \<dots> one_units = dlit (a * b) 1" unfolding dlit_def
    using of_ratio_scale [of one_units False "a * b * one_units" 1] by (simp only: mult_1) simp
  finally show "dmul (dlit a 1) (dlit b 1) = dlit (a * b) 1" .
  assume b: "0 < b"
  have "ddiv (dlit a 1) (dlit b 1) = of_ratio False (a * one_units * one_units) (b * one_units)"
    using num b unfolding ddiv_def Let_def whole_double(1) [OF assms(1)] whole_double(1) [OF assms(2)] by auto
  also have "\<dots> = dlit a b" unfolding dlit_def by (rule of_ratio_scale) simp
  finally show "ddiv (dlit a 1) (dlit b 1) = dlit a b" .
qed

lemma whole_add:
  assumes "a < 2 ^ 53" and "b < 2 ^ 53" and "0 < a + b"
  shows "dadd (dlit a 1) (dlit b 1) = dlit (a + b) 1"
proof -
  have "0 < (a + b) * one_units" using assms(3) by simp
  then have "0 < units (dlit a 1) + units (dlit b 1)" by (simp only: whole_double(1) assms add_mult_distrib)
  then have "dadd (dlit a 1) (dlit b 1) = of_ratio False (units (dlit a 1) + units (dlit b 1)) 1"
    by (intro dadd_nonneg whole_double(2) dlit_sign assms)
  then show ?thesis by (simp only: whole_double(1) assms dlit_def [of "a + b"] add_mult_distrib [symmetric])
qed

lemma whole_rank:
  assumes "m < 2 ^ 53" and "n < 2 ^ 53"
  shows "rank (dlit m 1) < rank (dlit n 1) \<longleftrightarrow> m < n" and "rank (dlit m 1) \<le> rank (dlit n 1) \<longleftrightarrow> m \<le> n"
    and "rank (dlit m 1) = rank (dlit n 1) \<longleftrightarrow> m = n"
proof -
  have less: "rank (dlit m 1) < rank (dlit n 1) \<longleftrightarrow> m < n" if "m < 2 ^ 53" "n < 2 ^ 53" for m n
    using units_less_iff [of "dlit m 1" "dlit n 1"] whole_double(1) that by (simp add: rank_def word_less_def)
  show "rank (dlit m 1) < rank (dlit n 1) \<longleftrightarrow> m < n" by (rule less [OF assms])
  show "rank (dlit m 1) \<le> rank (dlit n 1) \<longleftrightarrow> m \<le> n" using less [OF assms(2,1)] by linarith
  show "rank (dlit m 1) = rank (dlit n 1) \<longleftrightarrow> m = n" using less [OF assms] less [OF assms(2,1)] by linarith
qed

lemma whole_zero: "dlit 0 1 = dzero"
  by (simp add: dlit_def of_ratio_def round_ratio_def round_half_even_def bit_len.simps pack_def dzero_def inf_mag_def)

text \<open>An amount of whole cents prints with exactly these cents, up to \<open>2 ^ 46\<close> dollars.\<close>

lemma cents_small:
  assumes "c < 100 * 2 ^ 46"
  shows "c * one_units div 100 < 2 ^ 1120" and "finite_double (dlit c 100)"
proof -
  have "c * one_units < 100 * 2 ^ 46 * one_units" using assms by (intro mult_strict_right_mono) simp_all
  also have "\<dots> = 2 ^ 1120 * 100" by (simp only: mult_ac flip: power_add) simp
  finally show small: "c * one_units div 100 < 2 ^ 1120" by (simp add: div_less_iff_less_mult)
  show "finite_double (dlit c 100)" unfolding dlit_def by (rule of_ratio_finite(3) [OF _ small]) simp_all
qed

lemma cents_normal:
  assumes "c < 100 * 2 ^ 46" and "0 < c"
  shows "\<not> mag (dlit c 100) < 2 ^ 52"
proof -
  have "2 ^ 53 * 100 \<le> (1 :: nat) * one_units" by simp
  also have "\<dots> \<le> c * one_units" using assms(2) by (intro mult_right_mono) simp_all
  finally have "2 ^ 53 \<le> c * one_units div 100" by (simp only: less_eq_div_iff_mult_less_eq zero_less_numeral)
  then have "\<not> bit_len (c * one_units div 100) \<le> 53"
    using bit_len_upper [of "c * one_units div 100"] power_increasing [of _ 53 "2 :: nat"] by (meson leD le_less_trans one_le_numeral order_less_le_trans)
  then have "1 * 2 ^ 52 \<le> (bit_len (c * one_units div 100) - 53) * 2 ^ 52" by (intro mult_right_mono) simp_all
  also have "\<dots> \<le> round_ratio (c * one_units) 100" by (simp only: round_ratio_def Let_def le_add1)
  also have "\<dots> = unat (mag (dlit c 100))" unfolding dlit_def by (rule of_ratio_finite(2) [OF _ cents_small(1) [OF assms(1)], symmetric]) simp_all
  finally show ?thesis by (simp add: word_less_nat_alt)
qed

lemma show_cents:
  assumes "c < 100 * 2 ^ 46"
  shows "show_fixed 2 (dlit c 100) = decimal 2 c"
proof -
  have "100 * 2 ^ (1021 + 46) < (2 ^ 1074 :: nat)" by simp
  then have half: "int (100 * 2 ^ (1021 + 46)) < int one_units" by (simp only: of_nat_less_iff)
  have "2 * \<bar>int (units (dlit c 100) * 100) - int (c * one_units)\<bar> \<le> int (100 * 2 ^ (1021 + 46))"
    unfolding dlit_def by (rule quotient_error) (use assms in simp_all)
  then have "2 * \<bar>int (c * one_units) - int (units (dlit c 100) * 100)\<bar> < int one_units"
    unfolding abs_minus_commute [of "int (c * one_units)"] by (rule order_le_less_trans [OF _ half])
  then have "round_half_even (units (dlit c 100) * 100) one_units = c" by (intro round_half_even_unique) simp_all
  then show ?thesis using cents_small(2) [OF assms] by (simp add: show_fixed_def show_special_def finite_double_def)
qed

end
