(* ===== verification/LatencyHistogram.thy ===== *)
theory LatencyHistogram
  imports Output
begin

text \<open>
  The histogram wrapper of \<^verbatim>\<open>src/metrics/LatencyHistogram.cpp\<close>. The histogram itself is the third-party library
  HdrHistogram: its functions are the record \<open>api\<close>, an argument of every operation that calls one of them, over an
  abstract type of histograms. What the class adds is ownership: each object holds a handle or a null pointer, moves
  transfer it, the destructor closes it. The memory is explicit, so that a handle closed twice, used after
  it was closed, or never closed is a state of the model.
\<close>

section \<open>Memory and the library\<close>

record 'h hdr_api =
  hdr_init :: "64 word \<Rightarrow> 64 word \<Rightarrow> 32 word \<Rightarrow> 'h option"
  hdr_record_value :: "'h \<Rightarrow> 64 word \<Rightarrow> 'h"
  hdr_record_corrected_value :: "'h \<Rightarrow> 64 word \<Rightarrow> 64 word \<Rightarrow> 'h"
  hdr_value_at_percentile :: "'h \<Rightarrow> double \<Rightarrow> 64 word"
  hdr_min :: "'h \<Rightarrow> 64 word"
  hdr_max :: "'h \<Rightarrow> 64 word"
  hdr_mean :: "'h \<Rightarrow> double"
  hdr_stddev :: "'h \<Rightarrow> double"
  hdr_total_count :: "'h \<Rightarrow> 64 word"
  hdr_percentiles_print :: "'h \<Rightarrow> 32 word \<Rightarrow> double \<Rightarrow> string"
  hdr_reset :: "'h \<Rightarrow> 'h"

text \<open>\<open>blocks\<close> are the histograms the library has allocated and not freed, by address; \<open>objects\<close> are the wrapper objects
  of the program, by address, with their member \<^verbatim>\<open>h_\<close>.\<close>

record 'h Memory =
  blocks :: "nat \<rightharpoonup> 'h"
  next_block :: nat
  objects :: "nat \<rightharpoonup> nat option"

datatype hist_error = Init_failed | Null_handle | Dangling_handle | Bad_object | Cannot_open string

definition hdr_close :: "nat \<Rightarrow> 'h Memory \<Rightarrow> hist_error + 'h Memory" where
  "hdr_close h m = (if blocks m h = None then Inl Dangling_handle else Inr (m\<lparr>blocks := (blocks m)(h := None)\<rparr>))"

definition close_if_set :: "nat option \<Rightarrow> 'h Memory \<Rightarrow> hist_error + 'h Memory" where
  "close_if_set p m = (case p of None \<Rightarrow> Inr m | Some h \<Rightarrow> hdr_close h m)"

section \<open>The special members\<close>

definition LatencyHistogram_new :: "'h hdr_api \<Rightarrow> 64 word \<Rightarrow> 64 word \<Rightarrow> 32 word \<Rightarrow> nat \<Rightarrow> 'h Memory \<Rightarrow> hist_error + 'h Memory" where
  "LatencyHistogram_new api lowest_value highest_value significant_figures v m =
     (if objects m v \<noteq> None then Inl Bad_object
      else case hdr_init api lowest_value highest_value significant_figures of
        None \<Rightarrow> Inl Init_failed
      | Some x \<Rightarrow> Inr (m\<lparr>blocks := (blocks m)(next_block m \<mapsto> x), next_block := next_block m + 1,
                         objects := (objects m)(v \<mapsto> Some (next_block m))\<rparr>))"

text \<open>The default arguments: one nanosecond to one minute, three significant figures.\<close>

definition LatencyHistogram_default :: "'h hdr_api \<Rightarrow> nat \<Rightarrow> 'h Memory \<Rightarrow> hist_error + 'h Memory" where
  "LatencyHistogram_default api = LatencyHistogram_new api 1 60000000000 3"

definition move_construct :: "nat \<Rightarrow> nat \<Rightarrow> 'h Memory \<Rightarrow> hist_error + 'h Memory" where
  "move_construct v other m =
     (if objects m v \<noteq> None then Inl Bad_object
      else case objects m other of
        None \<Rightarrow> Inl Bad_object
      | Some p \<Rightarrow> Inr (m\<lparr>objects := (objects m)(v \<mapsto> p, other \<mapsto> None)\<rparr>))"

definition move_assign :: "nat \<Rightarrow> nat \<Rightarrow> 'h Memory \<Rightarrow> hist_error + 'h Memory" where
  "move_assign v other m =
     (case objects m v of
        None \<Rightarrow> Inl Bad_object
      | Some p \<Rightarrow>
          (case objects m other of
             None \<Rightarrow> Inl Bad_object
           | Some q \<Rightarrow>
               if v \<noteq> other
               then (case close_if_set p m of
                       Inl e \<Rightarrow> Inl e
                     | Inr m1 \<Rightarrow> Inr (m1\<lparr>objects := (objects m1)(v \<mapsto> q, other \<mapsto> None)\<rparr>))
               else Inr m))"

definition destroy :: "nat \<Rightarrow> 'h Memory \<Rightarrow> hist_error + 'h Memory" where
  "destroy v m =
     (case objects m v of
        None \<Rightarrow> Inl Bad_object
      | Some p \<Rightarrow>
          (case close_if_set p m of
             Inl e \<Rightarrow> Inl e
           | Inr m1 \<Rightarrow> Inr (m1\<lparr>objects := (objects m1)(v := None)\<rparr>)))"

section \<open>Recording and queries\<close>

text \<open>Every other member function passes \<^verbatim>\<open>h_\<close> to the library, which dereferences it.\<close>

definition the_handle :: "nat \<Rightarrow> 'h Memory \<Rightarrow> hist_error + nat \<times> 'h" where
  "the_handle v m =
     (case objects m v of
        None \<Rightarrow> Inl Bad_object
      | Some None \<Rightarrow> Inl Null_handle
      | Some (Some h) \<Rightarrow> (case blocks m h of None \<Rightarrow> Inl Dangling_handle | Some x \<Rightarrow> Inr (h, x)))"

definition update_hist :: "('h \<Rightarrow> 'h) \<Rightarrow> nat \<Rightarrow> 'h Memory \<Rightarrow> hist_error + 'h Memory" where
  "update_hist f v m =
     (case the_handle v m of Inl e \<Rightarrow> Inl e | Inr (h, x) \<Rightarrow> Inr (m\<lparr>blocks := (blocks m)(h \<mapsto> f x)\<rparr>))"

definition query :: "('h \<Rightarrow> 'r) \<Rightarrow> nat \<Rightarrow> 'h Memory \<Rightarrow> hist_error + 'r" where
  "query f v m = (case the_handle v m of Inl e \<Rightarrow> Inl e | Inr (h, x) \<Rightarrow> Inr (f x))"

definition record_value :: "'h hdr_api \<Rightarrow> 64 word \<Rightarrow> nat \<Rightarrow> 'h Memory \<Rightarrow> hist_error + 'h Memory" where
  "record_value api value_ns = update_hist (\<lambda>x. hdr_record_value api x value_ns)"

definition record_corrected :: "'h hdr_api \<Rightarrow> 64 word \<Rightarrow> 64 word \<Rightarrow> nat \<Rightarrow> 'h Memory \<Rightarrow> hist_error + 'h Memory" where
  "record_corrected api value_ns expected_interval_ns = update_hist (\<lambda>x. hdr_record_corrected_value api x value_ns expected_interval_ns)"

definition reset :: "'h hdr_api \<Rightarrow> nat \<Rightarrow> 'h Memory \<Rightarrow> hist_error + 'h Memory" where
  "reset api = update_hist (hdr_reset api)"

definition value_at_percentile :: "'h hdr_api \<Rightarrow> double \<Rightarrow> nat \<Rightarrow> 'h Memory \<Rightarrow> hist_error + 64 word" where
  "value_at_percentile api percentile = query (\<lambda>x. hdr_value_at_percentile api x percentile)"

definition hist_min :: "'h hdr_api \<Rightarrow> nat \<Rightarrow> 'h Memory \<Rightarrow> hist_error + 64 word" where
  "hist_min api = query (hdr_min api)"

definition hist_max :: "'h hdr_api \<Rightarrow> nat \<Rightarrow> 'h Memory \<Rightarrow> hist_error + 64 word" where
  "hist_max api = query (hdr_max api)"

definition mean :: "'h hdr_api \<Rightarrow> nat \<Rightarrow> 'h Memory \<Rightarrow> hist_error + double" where
  "mean api = query (hdr_mean api)"

definition stddev :: "'h hdr_api \<Rightarrow> nat \<Rightarrow> 'h Memory \<Rightarrow> hist_error + double" where
  "stddev api = query (hdr_stddev api)"

definition total_count :: "'h hdr_api \<Rightarrow> nat \<Rightarrow> 'h Memory \<Rightarrow> hist_error + 64 word" where
  "total_count api = query (hdr_total_count api)"

definition summary_items :: "'h hdr_api \<Rightarrow> string \<Rightarrow> 'h \<Rightarrow> out list" where
  "summary_items api label x =
     [Text label, Text '':  count='', Number (sint (hdr_total_count api x)), Text ''  min='', Number (sint (hdr_min api x)),
      Text ''  mean='', Real (hdr_mean api x),
      Text ''  p50='', Number (sint (hdr_value_at_percentile api x (dlit 50 1))),
      Text ''  p90='', Number (sint (hdr_value_at_percentile api x (dlit 90 1))),
      Text ''  p99='', Number (sint (hdr_value_at_percentile api x (dlit 99 1))),
      Text ''  p99.9='', Number (sint (hdr_value_at_percentile api x (dlit 999 10))),
      Text ''  max='', Number (sint (hdr_max api x)), Text [CHR 0x0A]]"

definition print_summary :: "'h hdr_api \<Rightarrow> string \<Rightarrow> nat \<Rightarrow> 'h Memory \<Rightarrow> hist_error + out list" where
  "print_summary api label = query (summary_items api label)"

text \<open>\<open>can_open\<close> says for which paths \<^verbatim>\<open>fopen\<close> succeeds; the result is the content of the file.\<close>

definition write_csv :: "'h hdr_api \<Rightarrow> (string \<Rightarrow> bool) \<Rightarrow> string \<Rightarrow> nat \<Rightarrow> 'h Memory \<Rightarrow> hist_error + string" where
  "write_csv api can_open path v m =
     (if \<not> can_open path then Inl (Cannot_open (''LatencyHistogram: cannot open '' @ path))
      else query (\<lambda>x. hdr_percentiles_print api x 5 (dlit 1 1)) v m)"

section \<open>Programs over histograms\<close>

datatype command = Construct nat "64 word" "64 word" "32 word" | Move_construct nat nat | Move_assign nat nat | Destroy nat
  | Record_value nat "64 word" | Record_corrected nat "64 word" "64 word" | Reset nat

fun exec :: "'h hdr_api \<Rightarrow> command \<Rightarrow> 'h Memory \<Rightarrow> hist_error + 'h Memory" where
  "exec api (Construct v lo hi sf) = LatencyHistogram_new api lo hi sf v"
| "exec api (Move_construct v w) = move_construct v w"
| "exec api (Move_assign v w) = move_assign v w"
| "exec api (Destroy v) = destroy v"
| "exec api (Record_value v x) = record_value api x v"
| "exec api (Record_corrected v x i) = record_corrected api x i v"
| "exec api (Reset v) = reset api v"

fun exec_all :: "'h hdr_api \<Rightarrow> command list \<Rightarrow> 'h Memory \<Rightarrow> hist_error + 'h Memory" where
  "exec_all api [] m = Inr m"
| "exec_all api (c # cs) m = (case exec api c m of Inl e \<Rightarrow> Inl e | Inr m' \<Rightarrow> exec_all api cs m')"

definition Memory_empty :: "'h Memory" where
  "Memory_empty = \<lparr>blocks = Map.empty, next_block = 0, objects = Map.empty\<rparr>"

section \<open>Specification: objects hold values\<close>

text \<open>The class promises that an object holds a histogram, or nothing after it was moved from, and that a move
  hands the histogram over. No handles and no memory appear here.\<close>

type_synonym 'h store = "nat \<rightharpoonup> 'h option"

definition contents :: "'h Memory \<Rightarrow> 'h store" where
  "contents m v = map_option (\<lambda>p. Option.bind p (blocks m)) (objects m v)"

definition spec_update :: "('h \<Rightarrow> 'h) \<Rightarrow> nat \<Rightarrow> 'h store \<Rightarrow> hist_error + 'h store" where
  "spec_update f v s = (case s v of None \<Rightarrow> Inl Bad_object | Some None \<Rightarrow> Inl Null_handle | Some (Some x) \<Rightarrow> Inr (s(v \<mapsto> Some (f x))))"

fun spec_exec :: "'h hdr_api \<Rightarrow> command \<Rightarrow> 'h store \<Rightarrow> hist_error + 'h store" where
  "spec_exec api (Construct v lo hi sf) s =
     (if s v \<noteq> None then Inl Bad_object
      else case hdr_init api lo hi sf of None \<Rightarrow> Inl Init_failed | Some x \<Rightarrow> Inr (s(v \<mapsto> Some x)))"
| "spec_exec api (Move_construct v w) s =
     (if s v \<noteq> None \<or> s w = None then Inl Bad_object else Inr (s(v \<mapsto> the (s w), w \<mapsto> None)))"
| "spec_exec api (Move_assign v w) s =
     (if s v = None \<or> s w = None then Inl Bad_object else Inr (if v = w then s else s(v \<mapsto> the (s w), w \<mapsto> None)))"
| "spec_exec api (Destroy v) s = (if s v = None then Inl Bad_object else Inr (s(v := None)))"
| "spec_exec api (Record_value v x) s = spec_update (\<lambda>h. hdr_record_value api h x) v s"
| "spec_exec api (Record_corrected v x i) s = spec_update (\<lambda>h. hdr_record_corrected_value api h x i) v s"
| "spec_exec api (Reset v) s = spec_update (hdr_reset api) v s"

fun spec_exec_all :: "'h hdr_api \<Rightarrow> command list \<Rightarrow> 'h store \<Rightarrow> hist_error + 'h store" where
  "spec_exec_all api [] s = Inr s"
| "spec_exec_all api (c # cs) s = (case spec_exec api c s of Inl e \<Rightarrow> Inl e | Inr s' \<Rightarrow> spec_exec_all api cs s')"

section \<open>Ownership\<close>

definition memory_inv :: "'h Memory \<Rightarrow> bool" where
  "memory_inv m \<longleftrightarrow>
     (\<forall>v h. objects m v = Some (Some h) \<longrightarrow> blocks m h \<noteq> None)
   \<and> (\<forall>v w h. objects m v = Some (Some h) \<longrightarrow> objects m w = Some (Some h) \<longrightarrow> v = w)
   \<and> (\<forall>h. blocks m h \<noteq> None \<longrightarrow> h < next_block m \<and> (\<exists>v. objects m v = Some (Some h)))"

lemma memory_invD:
  assumes "memory_inv m"
  shows "objects m v = Some (Some h) \<Longrightarrow> \<exists>x. blocks m h = Some x"
    and "objects m v = Some (Some h) \<Longrightarrow> objects m w = Some (Some h) \<Longrightarrow> v = w"
    and "blocks m h = Some x \<Longrightarrow> h < next_block m" and "blocks m h = Some x \<Longrightarrow> \<exists>v. objects m v = Some (Some h)"
  using assms unfolding memory_inv_def by blast+

lemma memory_invI:
  assumes "\<And>v h. objects m v = Some (Some h) \<Longrightarrow> \<exists>x. blocks m h = Some x"
    and "\<And>v w h. objects m v = Some (Some h) \<Longrightarrow> objects m w = Some (Some h) \<Longrightarrow> v = w"
    and "\<And>h x. blocks m h = Some x \<Longrightarrow> h < next_block m" and "\<And>h x. blocks m h = Some x \<Longrightarrow> \<exists>v. objects m v = Some (Some h)"
  shows "memory_inv m"
  using assms unfolding memory_inv_def by auto

lemma contents_None [simp]: "(contents m v = None) = (objects m v = None)"
  by (simp add: contents_def)

lemma contents_simps:
  "objects m v = None \<Longrightarrow> contents m v = None" "objects m v = Some None \<Longrightarrow> contents m v = Some None"
  "objects m v = Some (Some h) \<Longrightarrow> contents m v = Some (blocks m h)"
  by (simp_all add: contents_def)

text \<open>A block that no object but those in \<open>A\<close> holds can change without the others noticing.\<close>

lemma contents_frame:
  assumes "objects m' v = objects m v" and "\<And>h. objects m v = Some (Some h) \<Longrightarrow> blocks m' h = blocks m h"
  shows "contents m' v = contents m v"
proof (cases "objects m v")
  case (Some p)
  then show ?thesis using assms by (cases p) (simp_all add: contents_def)
qed (simp add: contents_def assms)

definition implements :: "'h Memory \<Rightarrow> 'h store \<Rightarrow> bool" where
  "implements m s \<longleftrightarrow> memory_inv m \<and> contents m = s"

lemma update_refines:
  assumes "memory_inv m"
  shows "rel_sum (=) (\<lambda>m' s. implements m' s) (update_hist f v m) (spec_update f v (contents m))"
proof (cases "\<exists>h x. objects m v = Some (Some h) \<and> blocks m h = Some x")
  case True
  then obtain h x where h: "objects m v = Some (Some h)" "blocks m h = Some x" by blast
  let ?m = "m\<lparr>blocks := (blocks m)(h \<mapsto> f x)\<rparr>"
  have "contents ?m w = contents m w" if "w \<noteq> v" for w
    by (rule contents_frame) (use memory_invD(2) [OF assms h(1), of w] that in auto)
  then have "contents ?m = (contents m)(v \<mapsto> Some (f x))" using h(1) by (auto simp: contents_simps fun_eq_iff)
  moreover have "memory_inv ?m"
    using assms h unfolding memory_inv_def by (simp) 
  ultimately show ?thesis using h by (simp add: spec_update_def update_hist_def the_handle_def contents_simps implements_def)
next
  case False
  then show ?thesis using memory_invD(1) [OF assms, of v]
    by (auto simp: spec_update_def update_hist_def the_handle_def contents_simps split: option.splits)
qed

lemma construct_refines:
  assumes "memory_inv m"
  shows "rel_sum (=) implements (LatencyHistogram_new api lo hi sf v m) (spec_exec api (Construct v lo hi sf) (contents m))"
proof -
  have fresh: "blocks m (next_block m) = None" using memory_invD(3) [OF assms, of "next_block m"] by (cases "blocks m (next_block m)") auto
  let ?m = "\<lambda>x. m\<lparr>blocks := (blocks m)(next_block m \<mapsto> x), next_block := next_block m + 1, objects := (objects m)(v \<mapsto> Some (next_block m))\<rparr>"
  have "contents (?m x) w = contents m w" if "w \<noteq> v" for w x
    by (rule contents_frame) (use memory_invD(1) [OF assms, of w "next_block m"] fresh that in auto)
  then have "contents (?m x) = (contents m)(v \<mapsto> Some x)" for x by (auto simp: contents_simps fun_eq_iff)
  moreover have "memory_inv (?m x)" if "objects m v = None" for x
  proof (rule memory_invI)
    have new: "objects m u \<noteq> Some (Some (next_block m))" for u using memory_invD(1) [OF assms] fresh by fastforce
    show "u = w" if "objects (?m x) u = Some (Some h)" "objects (?m x) w = Some (Some h)" for u w h
      using that new memory_invD(2) [OF assms, of u h w] by (auto split: if_splits)
    show "\<exists>u. objects (?m x) u = Some (Some h)" if "blocks (?m x) h = Some y" for h y
      using that \<open>objects m v = None\<close> memory_invD(4) [OF assms, of h y] by (auto split: if_splits) (metis option.distinct(1))
  qed (auto split: if_splits dest: memory_invD(1,3) [OF assms])
  ultimately show ?thesis by (auto simp: LatencyHistogram_new_def implements_def split: option.splits)
qed

lemma move_refines:
  assumes "memory_inv m" and "objects m v = None \<or> objects m v = Some None" and "objects m w = Some q" and "v \<noteq> w"
  shows "implements (m\<lparr>objects := (objects m)(v \<mapsto> q, w \<mapsto> None)\<rparr>) ((contents m)(v \<mapsto> the (contents m w), w \<mapsto> None))"
proof -
  let ?m = "m\<lparr>objects := (objects m)(v \<mapsto> q, w \<mapsto> None)\<rparr>"
  have "contents ?m u = contents m u" if "u \<noteq> v" "u \<noteq> w" for u by (rule contents_frame) (use that in auto)
  moreover have "contents ?m v = Some (the (contents m w))" "contents ?m w = Some None"
    using assms(3,4) by (cases q; simp add: contents_simps)+
  ultimately have "contents ?m = (contents m)(v \<mapsto> the (contents m w), w \<mapsto> None)" by (auto simp: fun_eq_iff)
  moreover have "memory_inv ?m"
  proof (rule memory_invI)
    have free: "objects m v \<noteq> Some (Some h)" for h using assms(2) by auto
    show "t = u" if "objects ?m t = Some (Some h)" "objects ?m u = Some (Some h)" for t u h
      using that assms(3) free memory_invD(2) [OF assms(1)] by (auto split: if_splits)
    show "\<exists>u. objects ?m u = Some (Some h)" if "blocks ?m h = Some y" for h y
      using that assms(3,4) free memory_invD(4) [OF assms(1), of h y] by (auto split: if_splits) (metis option.inject)
  qed (use assms(3) in \<open>auto split: if_splits dest: memory_invD(1,3) [OF assms(1)]\<close>)
  ultimately show ?thesis by (simp add: implements_def)
qed

text \<open>What is left after an object has given up its block.\<close>

abbreviation emptied :: "bool \<Rightarrow> 'a option option" where
  "emptied b \<equiv> (if b then Some None else None)"

lemma close_keeps:
  assumes inv: "memory_inv m" and v: "objects m v = Some p"
  obtains m1 where "close_if_set p m = Inr m1" and "objects m1 = objects m"
    and "implements (m1\<lparr>objects := (objects m)(v := emptied b)\<rparr>) ((contents m)(v := emptied b))"
proof -
  define m1 where "m1 = (case p of None \<Rightarrow> m | Some h \<Rightarrow> m\<lparr>blocks := (blocks m)(h := None)\<rparr>)"
  let ?m = "m1\<lparr>objects := (objects m)(v := emptied b)\<rparr>"
  have other: "u = v" if "p = Some h" "objects m u = Some (Some h)" for u h using memory_invD(2) [OF inv that(2)] v that(1) by simp
  have m1: "close_if_set p m = Inr m1" "objects m1 = objects m" "next_block m1 = next_block m"
    using memory_invD(1) [OF inv, of v] v by (auto simp: close_if_set_def hdr_close_def m1_def split: option.split)
  have same: "blocks m1 k = blocks m k" if "u \<noteq> v" "objects m u = Some (Some k)" for u k
    using that other [of k u] by (auto simp: m1_def split: option.split)
  have less: "blocks m k = Some x \<and> p \<noteq> Some k" if "blocks m1 k = Some x" for k x
    using that by (auto simp: m1_def split: option.splits if_splits)
  have "contents ?m u = contents m u" if "u \<noteq> v" for u
    by (rule contents_frame) (use that same in auto)
  then have "contents ?m = (contents m)(v := emptied b)" by (auto simp: contents_simps fun_eq_iff)
  moreover have "memory_inv ?m"
  proof (rule memory_invI)
    show "\<exists>u. objects ?m u = Some (Some k)" if k: "blocks ?m k = Some x" for k x
    proof -
      from k less [of k x] memory_invD(4) [OF inv, of k x] obtain u where "objects m u = Some (Some k)" "p \<noteq> Some k" by auto
      then have "objects ?m u = Some (Some k)" using v by auto
      then show ?thesis ..
    qed
    show "\<exists>x. blocks ?m h = Some x" if "objects ?m u = Some (Some h)" for u h
      using that same [of u h] memory_invD(1) [OF inv, of u h] by (auto split: if_splits)
    show "t = u" if "objects ?m t = Some (Some h)" "objects ?m u = Some (Some h)" for t u h
      using that memory_invD(2) [OF inv, of t h u] by (auto split: if_splits)
    show "h < next_block ?m" if "blocks ?m h = Some x" for h x
      using that less [of h x] memory_invD(3) [OF inv] by (simp add: m1(3))
  qed
  ultimately show thesis using that m1 by (simp add: implements_def)
qed

section \<open>Properties\<close>

lemma exec_refines:
  assumes inv: "memory_inv m"
  shows "rel_sum (=) implements (exec api c m) (spec_exec api c (contents m))"
proof (cases c)
  case (Construct v lo hi sf)
  then show ?thesis using construct_refines [OF inv] by simp
next
  case (Move_construct v w)
  then show ?thesis using move_refines [OF inv, of v w] by (cases "objects m w"; cases "v = w") (auto simp: move_construct_def)
next
  case (Destroy v)
  show ?thesis
  proof (cases "objects m v")
    case (Some p)
    from close_keeps [OF inv Some, of False] obtain m1 where "close_if_set p m = Inr m1" "objects m1 = objects m"
      "implements (m1\<lparr>objects := (objects m)(v := None)\<rparr>) ((contents m)(v := None))" by auto
    with Destroy Some show ?thesis by (simp add: destroy_def)
  qed (simp add: Destroy destroy_def)
next
  case (Move_assign v w)
  show ?thesis
  proof (cases "objects m v = None \<or> objects m w = None \<or> v = w")
    case True
    then show ?thesis using inv Move_assign by (auto simp: move_assign_def implements_def split: option.splits)
  next
    case False
    then obtain p q where pq: "objects m v = Some p" "objects m w = Some q" "v \<noteq> w" by auto
    from close_keeps [OF inv pq(1), of True] obtain m1 where m1: "close_if_set p m = Inr m1" "objects m1 = objects m"
      and impl: "implements (m1\<lparr>objects := (objects m)(v \<mapsto> None)\<rparr>) ((contents m)(v \<mapsto> None))" by auto
    let ?m2 = "m1\<lparr>objects := (objects m)(v \<mapsto> None)\<rparr>"
    have "implements (?m2\<lparr>objects := (objects ?m2)(v \<mapsto> q, w \<mapsto> None)\<rparr>) ((contents ?m2)(v \<mapsto> the (contents ?m2 w), w \<mapsto> None))"
      by (rule move_refines) (use impl pq in \<open>auto simp: implements_def\<close>)
    moreover have "contents ?m2 = (contents m)(v \<mapsto> None)" using impl by (simp add: implements_def)
    ultimately show ?thesis using Move_assign pq m1 by (simp add: move_assign_def fun_upd_twist)
  qed
qed (simp_all add: record_value_def record_corrected_def reset_def update_refines [OF inv])

lemma exec_all_refines:
  "memory_inv m \<Longrightarrow> rel_sum (=) implements (exec_all api cs m) (spec_exec_all api cs (contents m))"
proof (induction cs arbitrary: m)
  case (Cons c cs)
  from exec_refines [OF Cons.prems, of api c] Cons.IH show ?case
    by (cases "exec api c m"; cases "spec_exec api c (contents m)") (auto simp: implements_def)
qed (simp add: implements_def)

lemma Memory_empty: "memory_inv Memory_empty" "contents Memory_empty = Map.empty"
  by (auto simp: Memory_empty_def memory_inv_def contents_def)

text \<open>C25. Programs that construct, move, assign, destroy and feed histograms behave as if every object held its histogram by
  value: the handles, the memory and the calls of \<^verbatim>\<open>hdr_close\<close> are invisible, and the only errors are those of the
  specification, so no handle is closed twice or used after it was closed.\<close>

theorem histograms_are_values:
  "map_sum id contents (exec_all api cs Memory_empty) = spec_exec_all api cs Map.empty"
  using exec_all_refines [OF Memory_empty(1), of api cs]
  by (cases "exec_all api cs Memory_empty"; cases "spec_exec_all api cs Map.empty") (auto simp: Memory_empty(2) implements_def)

text \<open>Ownership: at every moment each allocated histogram belongs to exactly one object and each handle is allocated; when all
  objects are destroyed, nothing is left allocated.\<close>

theorem no_histogram_leaks:
  assumes "exec_all api cs Memory_empty = Inr m"
  shows "bij_betw (\<lambda>v. the (the (objects m v))) {v. objects m v \<noteq> None \<and> objects m v \<noteq> Some None} (dom (blocks m))
    \<and> (objects m = Map.empty \<longrightarrow> blocks m = Map.empty)"
proof -
  have inv: "memory_inv m" using exec_all_refines [OF Memory_empty(1), of api cs] assms
    by (cases "spec_exec_all api cs (contents (Memory_empty :: 'a Memory))") (auto simp: implements_def)
  have "inj_on (\<lambda>v. the (the (objects m v))) {v. objects m v \<noteq> None \<and> objects m v \<noteq> Some None}"
    by (rule inj_onI) (use memory_invD(2) [OF inv] in fastforce)
  moreover have "(\<lambda>v. the (the (objects m v))) ` {v. objects m v \<noteq> None \<and> objects m v \<noteq> Some None} = dom (blocks m)"
    using memory_invD(1,4) [OF inv] by (fastforce simp: image_iff dom_def)
  moreover have "blocks m h = None" if "objects m = Map.empty" for h
    using memory_invD(4) [OF inv, of h] that by (cases "blocks m h") auto
  ultimately show ?thesis by (auto simp: bij_betw_def)
qed

text \<open>A histogram that keeps every value, to instantiate the library in the examples.\<close>

definition list_api :: "64 word list hdr_api" where
  "list_api = \<lparr>hdr_init = (\<lambda>lo hi sf. if 0 < lo then Some [] else None), hdr_record_value = (\<lambda>h x. h @ [x]),
     hdr_record_corrected_value = (\<lambda>h x i. h @ [x]), hdr_value_at_percentile = (\<lambda>h p. 0), hdr_min = (\<lambda>h. 0), hdr_max = (\<lambda>h. 0),
     hdr_mean = (\<lambda>h. dzero), hdr_stddev = (\<lambda>h. dzero), hdr_total_count = (\<lambda>h. of_nat (length h)),
     hdr_percentiles_print = (\<lambda>h n r. []), hdr_reset = (\<lambda>h. [])\<rparr>"

lemmas exec_simps = LatencyHistogram_new_def move_construct_def move_assign_def destroy_def record_value_def update_hist_def the_handle_def
  close_if_set_def hdr_close_def Memory_empty_def list_api_def

definition demo :: "command list" where
  "demo = [Construct 0 1 1000 3, Record_value 0 7, Construct 1 1 1000 3, Move_assign 1 0, Record_value 1 8]"

theorem no_histogram_leaks_witness:
  "\<exists>m. exec_all list_api demo Memory_empty = Inr m \<and> blocks m = [0 \<mapsto> [7, 8]]
    \<and> bij_betw (\<lambda>v. the (the (objects m v))) {v. objects m v \<noteq> None \<and> objects m v \<noteq> Some None} (dom (blocks m))
    \<and> (objects m = Map.empty \<longrightarrow> blocks m = Map.empty)"
proof -
  define m where "m = projr (exec_all list_api demo Memory_empty)"
  have "exec_all list_api demo Memory_empty = Inr m" "blocks m = [0 \<mapsto> [7, 8]]"
    by (simp_all add: m_def demo_def exec_simps fun_eq_iff)
  with no_histogram_leaks [OF this(1)] show ?thesis by blast
qed

text \<open>After a move the source object is empty: recording into it, or asking it for its count, dereferences the null pointer.
  Destroying it or assigning to it is harmless.\<close>

theorem moved_from_is_null:
  assumes "exec api (Move_construct v w) m = Inr m'"
  shows "record_value api x w m' = Inl Null_handle \<and> total_count api w m' = Inl Null_handle
    \<and> print_summary api label w m' = Inl Null_handle \<and> destroy w m' = Inr (m'\<lparr>objects := (objects m')(w := None)\<rparr>)"
  using assms by (auto simp: move_construct_def record_value_def total_count_def print_summary_def update_hist_def query_def
      the_handle_def destroy_def close_if_set_def split: if_splits option.splits)

theorem moved_from_is_null_witness:
  "\<exists>m m'. exec_all list_api demo Memory_empty = Inr m \<and> exec list_api (Move_construct 2 1) m = Inr m'
    \<and> record_value list_api 9 1 m' = Inl Null_handle \<and> total_count list_api 1 m' = Inl Null_handle
    \<and> print_summary list_api ''latency'' 1 m' = Inl Null_handle \<and> destroy 1 m' = Inr (m'\<lparr>objects := (objects m')(1 := None)\<rparr>)"
proof -
  define m where "m = projr (exec_all list_api demo Memory_empty)"
  define m' where "m' = projr (exec list_api (Move_construct 2 1) m)"
  have m: "exec_all list_api demo Memory_empty = Inr m" and m': "exec list_api (Move_construct 2 1) m = Inr m'"
    by (simp_all add: m_def m'_def demo_def exec_simps)
  from moved_from_is_null [OF m', of 9 "''latency''"] m m' show ?thesis by blast
qed

end
