(* ===== verification/SimulationOutput.thy ===== *)
theory SimulationOutput
  imports SimulationCorrect Output
begin

text \<open>
  What \<^verbatim>\<open>src/simulation/Simulation.cpp\<close> prints: the lines of \<^verbatim>\<open>run\<close> and the box of \<^verbatim>\<open>print_results\<close>. The
  literals of the source are UTF-8, so a character of the box is three bytes and one column.
\<close>

section \<open>The lines of run\<close>

definition separator :: "out list" where
  "separator = [Text (replicate 60 (CHR ''-'')), Text newline]"

definition start_lines :: "SimulationConfig \<Rightarrow> out list" where
  "start_lines config =
     [Text ''Starting simulation: '', Text (cfg_symbol config), Text '' @ $'', Fixed, Setprecision 2, Real (initial_price config),
      Text '' for '', Number (uint (num_ticks config)), Text ('' ticks'' @ newline)] @ separator"

definition percent_done :: "uint64 \<Rightarrow> uint64 \<Rightarrow> int" where
  "percent_done tick ticks = truncate_int64 (ddiv (dmul (dlit 100 1) (of_uint tick)) (of_uint ticks))"

definition progress_line :: "int \<Rightarrow> SimState \<Rightarrow> out list" where
  "progress_line pct st =
     [Text ''  '', Setw 3, Number pct, Text ''% complete | '', Text ''Price: $'', Fixed, Setprecision 2, Real (true_price st),
      Text '' | Trades: '', Number (uint (total_trades (stats (fst (sm_sim st))))),
      Text '' | Orders: '', Number (uint (total_orders (stats (fst (sm_sim st))))), Text newline]"

text \<open>The end of the loop body, on the state the agents leave.\<close>

definition tick_output :: "SimulationConfig \<Rightarrow> uint64 \<Rightarrow> SimState \<Rightarrow> out list" where
  "tick_output config tick st =
     (if 0 < tick \<and> tick mod (num_ticks config div 10) = 0
      then progress_line (percent_done tick (num_ticks config)) st else [])"

primrec loop_output :: "SimulationConfig \<Rightarrow> (nat \<Rightarrow> TickInput) \<Rightarrow> nat \<Rightarrow> SimState \<Rightarrow> out list" where
  "loop_output config inputs 0 st = []"
| "loop_output config inputs (Suc n) st = loop_output config inputs n st @
     (case sim_loop config inputs (Suc n) st of Inl err \<Rightarrow> [] | Inr st1 \<Rightarrow> tick_output config (of_nat n) st1)"

definition end_lines :: "out list" where
  "end_lines = Text (''  100% complete'' @ newline) # separator"

definition run_output :: "SimulationConfig \<Rightarrow> (nat \<Rightarrow> TickInput) \<Rightarrow> out list" where
  "run_output config inputs =
     start_lines config @ loop_output config inputs (unat (num_ticks config)) (sim_start (Simulation_new config)) @ end_lines"

section \<open>print\_results\<close>

definition box :: "char \<Rightarrow> string" where
  "box b = [CHR 0xE2, CHR 0x95, b]"

abbreviation vbar :: string where
  "vbar \<equiv> box CHR 0x91"

definition border :: "char \<Rightarrow> char \<Rightarrow> out list" where
  "border l r = [Text (box l @ concat (replicate 46 (box CHR 0x90)) @ box r @ newline)]"

abbreviation middle :: "out list" where
  "middle \<equiv> border CHR 0xA0 CHR 0xA3"

definition title :: "string \<Rightarrow> out list" where
  "title s = [Text (vbar @ s @ vbar @ newline)]"

definition field :: "string \<Rightarrow> nat \<Rightarrow> out \<Rightarrow> string \<Rightarrow> out list" where
  "field label w x tail = [Text (vbar @ label), Setw w, x, Text (tail @ vbar @ newline)]"

definition trader_row :: "TraderResult \<Rightarrow> out list" where
  "trader_row tr =
     [Text (vbar @ '' ''), Setw 16, Left, Text (tr_name tr), Text '' Pos:'', Setw 6, Right, Number (sint (tr_final_position tr)),
      Text '' P&L: $'', Setw 10, Real (tr_pnl tr), Text ('' '' @ vbar @ newline)]"

text \<open>The statements of \<^verbatim>\<open>print_results\<close> up to the throughput, one list per line of output.\<close>

definition result_rows :: "SimulationResults \<Rightarrow> out list list" where
  "result_rows r =
     [[Text newline],
      border CHR 0x94 CHR 0x97,
      title ''          SIMULATION RESULTS                 '',
      middle,
      [Fixed, Setprecision 2] @ field '' Total Ticks:     '' 10 (Number (uint (sr_total_ticks r))) ''                 '',
      field '' Total Trades:    '' 10 (Number (uint (sr_total_trades r))) ''                 '',
      field '' Total Volume:    '' 10 (Number (uint (sr_total_volume r))) '' shares          '',
      field '' Total Notional:  $'' 12 (Real (sr_total_notional r)) ''               '',
      field '' Final Price:     $'' 9 (Real (sr_final_price r)) ''                '',
      field '' Price Return:    '' 9 (Real (sr_price_return_pct r)) ''%               '',
      middle,
      title ''          LATENCY (nanoseconds)              '',
      middle,
      [Fixed, Setprecision 0] @ field '' Average:         '' 10 (Real (sr_avg_latency_ns r)) '' ns              '',
      field '' Minimum:         '' 10 (Real (sr_min_latency_ns r)) '' ns              '',
      field '' Maximum:         '' 10 (Real (sr_max_latency_ns r)) '' ns              '',
      middle,
      title ''          TRADER P&L                         '',
      middle] @
     [[Fixed, Setprecision 2]] @
     map trader_row (sr_trader_results r) @
     [border CHR 0x9A CHR 0x9D]"

definition throughput_lines :: "SimulationResults \<Rightarrow> out list" where
  "throughput_lines r =
     (if dgt (sr_wall_clock_sec r) dzero
      then let ops = sr_total_orders r + sr_total_cancels r; ops_per_sec = ddiv (of_uint ops) (sr_wall_clock_sec r)
           in [Text (newline @ ''Wall clock:  ''), Fixed, Setprecision 3, Real (sr_wall_clock_sec r), Text ('' s'' @ newline),
               Text ''Operations:  '', Number (uint ops), Text '' ('', Number (uint (sr_total_orders r)), Text '' orders + '',
               Number (uint (sr_total_cancels r)), Text ('' cancels)'' @ newline),
               Text ''Throughput:  '', Fixed, Setprecision 0, Real ops_per_sec, Text '' ops/sec ('', Setprecision 2,
               Real (ddiv ops_per_sec (dlit 1000000 1)), Text (''M ops/sec), measured over the whole run'' @ newline)]
      else [])"

definition print_results :: "SimulationResults \<Rightarrow> out list" where
  "print_results r = concat (result_rows r) @ throughput_lines r"

section \<open>The simulation program\<close>

definition run_simulation_config :: SimulationConfig where
  "run_simulation_config = SimulationConfig_default\<lparr>cfg_symbol := ''AAPL'', initial_price := dlit 150 1, num_ticks := 10000,
     price_volatility := dlit 1 1000\<rparr>"

text \<open>\<^verbatim>\<open>main\<close> of \<^verbatim>\<open>src/run_simulation.cpp\<close>: the characters on standard output.\<close>

definition run_simulation_main :: "double \<Rightarrow> (nat \<Rightarrow> TickInput) \<Rightarrow> sim_error + string" where
  "run_simulation_main wall_sec inputs =
     (case simulation_run run_simulation_config wall_sec inputs of
        Inl err \<Rightarrow> Inl err
      | Inr results \<Rightarrow> Inr (fst (render Format_default (run_output run_simulation_config inputs @ print_results results))))"

section \<open>Progress\<close>

lemma concat_multiples:
  assumes "0 < k" and "\<And>t. \<not> k dvd t \<Longrightarrow> f t = []"
  shows "concat (map f [0..<m * k]) = concat (map (\<lambda>j. f (j * k)) [0..<m])"
proof (induction m)
  case (Suc m)
  have "[0..<Suc m * k] = [0..<m * k] @ m * k # [Suc (m * k)..<m * k + k]"
    using assms(1) upt_add_eq_append [of 0 "m * k" k] by (simp add: upt_conv_Cons add.commute)
  moreover have "f t = []" if "t \<in> set [Suc (m * k)..<m * k + k]" for t
  proof (rule assms(2), rule notI)
    assume "k dvd t"
    then have "k dvd t - m * k" by (simp add: dvd_diff_nat)
    moreover have "0 < t - m * k" "t - m * k < k" using that by auto
    ultimately show False using dvd_imp_le by fastforce
  qed
  then have "concat (map f [Suc (m * k)..<m * k + k]) = []" by simp
  ultimately show ?case using Suc by simp
qed simp

lemma loop_output_ticks:
  "loop_output config inputs n st =
     concat (map (\<lambda>t. case sim_loop config inputs (Suc t) st of Inl err \<Rightarrow> [] | Inr st1 \<Rightarrow> tick_output config (of_nat t) st1) [0..<n])"
  by (induction n) simp_all

lemma percent_done_floor:
  assumes "unat tick < unat ticks" and "unat ticks < 2 ^ 46"
  shows "percent_done tick ticks = int (100 * unat tick div unat ticks)"
proof -
  let ?t = "unat tick" and ?n = "unat ticks"
  have b: "?t < 2 ^ 53" "?n < 2 ^ 53" "100 * ?t < 2 ^ 53" "(100 :: nat) < 2 ^ 53" "0 < ?n" using assms by simp_all
  have "ddiv (dmul (dlit 100 1) (of_uint tick)) (of_uint ticks) = dlit (100 * ?t) ?n"
    unfolding of_uint_dlit whole_arith(1) [OF b(4,1)] by (rule whole_arith(2) [OF b(3,2,5)])
  moreover have "units (dlit (100 * ?t) ?n) div one_units = 100 * ?t div ?n"
    unfolding dlit_def by (rule quotient_floor [OF b(5) assms(2)]) (use assms(1) in simp)
  ultimately show ?thesis by (simp only: percent_done_def truncate_int64_def Let_def dlit_sign if_False)
qed

lemma tick_output_at:
  assumes "num_ticks config = of_nat (10 * k)" and "10 * k < 2 ^ 46" and "t < 10 * k"
  shows "tick_output config (of_nat t) s = (if 0 < t \<and> k dvd t then progress_line (int (100 * t div (10 * k))) s else [])"
proof -
  have word: "unat (of_nat m :: uint64) = m" if "m < 2 ^ 46" for m using that by (simp add: unat_of_nat)
  have n: "unat (num_ticks config) = 10 * k" unfolding assms(1) by (rule word [OF assms(2)])
  have t: "unat (of_nat t :: uint64) = t" using assms(2,3) by (intro word) linarith
  have "percent_done (of_nat t) (num_ticks config) = int (100 * t div (10 * k))"
    using percent_done_floor [of "of_nat t" "num_ticks config"] assms(2,3) unfolding n t by blast
  moreover have "(of_nat t :: uint64) mod (num_ticks config div 10) = 0 \<longleftrightarrow> k dvd t"
    by (simp add: unat_div n t unat_mod unat_eq_zero [symmetric] mod_eq_0_iff_dvd)
  moreover have "0 < (of_nat t :: uint64) \<longleftrightarrow> 0 < t" by (simp add: word_less_nat_alt t)
  ultimately show ?thesis by (simp add: tick_output_def)
qed

lemma sim_loop_prefix:
  "sim_loop config inputs n st = Inr st' \<Longrightarrow> m \<le> n \<Longrightarrow> \<exists>s. sim_loop config inputs m st = Inr s"
  by (induction n arbitrary: st') (auto simp: le_Suc_eq split: sum.splits)

lemma progress_in_tenths:
  assumes "num_ticks config = of_nat (10 * k)" and "0 < k" and "10 * k < 2 ^ 46"
    and "sim_loop config inputs (10 * k) st = Inr st'"
  shows "\<exists>sts. (\<forall>j \<in> {1..<10}. sim_loop config inputs (Suc (j * k)) st = Inr (sts j))
    \<and> loop_output config inputs (10 * k) st = concat (map (\<lambda>j. progress_line (int (10 * j)) (sts j)) [1..<10])"
proof -
  define after where "after t = projr (sim_loop config inputs (Suc t) st)" for t
  have after: "sim_loop config inputs (Suc t) st = Inr (after t)" if "t < 10 * k" for t
    using sim_loop_prefix [OF assms(4), of "Suc t"] that by (auto simp: after_def simp del: sim_loop.simps)
  define line where "line t = (if 0 < t \<and> k dvd t then progress_line (int (100 * t div (10 * k))) (after t) else [])" for t
  have "loop_output config inputs (10 * k) st = concat (map line [0..<10 * k])"
    unfolding loop_output_ticks by (intro arg_cong [where f = concat] map_cong refl)
      (simp add: after tick_output_at [OF assms(1,3)] line_def del: sim_loop.simps)
  also have "\<dots> = concat (map (\<lambda>j. line (j * k)) [0..<10])" by (rule concat_multiples [OF assms(2)]) (simp add: line_def)
  also have "\<dots> = concat (map (\<lambda>j. line (j * k)) [1..<10])" by (simp add: upt_conv_Cons line_def)
  also have "\<dots> = concat (map (\<lambda>j. progress_line (int (10 * j)) (after (j * k))) [1..<10])"
    using assms(2) by (intro arg_cong [where f = concat] map_cong refl) (simp add: line_def)
  finally show ?thesis using after assms(2) by (intro exI [of _ "\<lambda>j. after (j * k)"]) simp
qed



section \<open>The box\<close>

text \<open>How many columns a terminal shows for a string in UTF-8: continuation bytes take none, nor do line ends.\<close>

definition columns :: "string \<Rightarrow> nat" where
  "columns s = length (filter (\<lambda>c. \<not> (128 \<le> (of_char c :: nat) \<and> of_char c < (192 :: nat)) \<and> c \<noteq> CHR 0x0A) s)"

fun render_rows :: "Format \<Rightarrow> out list list \<Rightarrow> string list" where
  "render_rows f [] = []"
| "render_rows f (r # rs) = (let (s, f1) = render f r in s # render_rows f1 rs)"

lemma render_rows_concat: "fst (render f (concat rs)) = concat (render_rows f rs)"
  by (induction rs arbitrary: f) (simp_all add: render_append Let_def case_prod_unfold)

lemma columns_simps [simp]: "columns [] = 0" "columns (s @ t) = columns s + columns t"
  "columns (c # s) = (if 128 \<le> (of_char c :: nat) \<and> of_char c < (192 :: nat) \<or> c = CHR 0x0A then 0 else 1) + columns s"
  "columns (concat (replicate n s)) = n * columns s"
  by (induction n) (auto simp: columns_def)

definition plain :: "string \<Rightarrow> bool" where
  "plain s \<longleftrightarrow> (\<forall>c \<in> set s. (of_char c :: nat) < 128 \<and> c \<noteq> CHR 0x0A)"

lemma plain_simps [simp]: "plain []" "plain (s @ t) \<longleftrightarrow> plain s \<and> plain t" "plain (replicate n (CHR '' ''))"
  "plain (c # s) \<longleftrightarrow> (of_char c :: nat) < 128 \<and> c \<noteq> CHR 0x0A \<and> plain s"
  by (auto simp: plain_def)

lemma columns_plain: "plain s \<Longrightarrow> columns s = length s"
  by (induction s) simp_all

lemma digit_plain: "d < 10 \<Longrightarrow> (of_char (digit_char d) :: nat) < 128 \<and> digit_char d \<noteq> CHR 0x0A"
proof
  assume d: "d < 10"
  show "(of_char (digit_char d) :: nat) < 128" using digit_char_inj [OF d] d by simp
  show "digit_char d \<noteq> CHR 0x0A"
  proof
    assume "digit_char d = CHR 0x0A"
    from arg_cong [OF this, of "of_char :: char \<Rightarrow> nat"] show False using digit_char_inj [OF d] by simp
  qed
qed

lemma plain_numbers [simp]: "plain (show_nat n)" "plain (last_digits p n)" "plain (show_int i)" "plain (show_fixed p d)"
proof -
  show nat: "plain (show_nat n)" for n by (induction n rule: show_nat.induct) (subst show_nat.simps, simp add: digit_plain)
  show last: "plain (last_digits p n)" for n by (induction p arbitrary: n) (simp_all add: digit_plain)
  show "plain (show_int i)" by (simp add: show_int_def nat)
  show "plain (show_fixed p d)" by (simp add: show_fixed_def show_special_def decimal_def nat last)
qed

lemma columns_pad: "plain s \<Longrightarrow> length s \<le> fmt_width f \<Longrightarrow> columns (pad f s) = fmt_width f"
  by (subst columns_plain) (auto simp: pad_def Let_def)

text \<open>What an operand prints as in a format, before padding.\<close>

definition shown :: "Format \<Rightarrow> out \<Rightarrow> string" where
  "shown f x = fst (put (f\<lparr>fmt_width := 0\<rparr>) x)"

lemma shown_simps [simp]: "shown f (Number i) = show_int i" "shown f (Text s) = s"
  "shown f (Real d) = (if fmt_fixed f then show_fixed (fmt_precision f) d else show_general (fmt_precision f) d)"
  by (simp_all add: shown_def pad_def)

lemma pad_zero [simp]: "fmt_width f = 0 \<Longrightarrow> pad f s = s"
  by (simp add: pad_def)

text \<open>The format in the box: fixed with \<open>p\<close> decimals, no width pending.\<close>

definition fixed_format :: "nat \<Rightarrow> Format" where
  "fixed_format p = \<lparr>fmt_width = 0, fmt_fixed = True, fmt_precision = p, fmt_left = False\<rparr>"

lemma fixed_format_simps [simp]: "fmt_fixed (fixed_format p)" "fmt_precision (fixed_format p) = p" "fmt_width (fixed_format p) = 0"
  by (simp_all add: fixed_format_def)

lemma columns_box [simp]: "columns (box c) = (if 128 \<le> (of_char c :: nat) \<and> of_char c < (192 :: nat) \<or> c = CHR 0x0A then 1 else 2)"
  by (auto simp: box_def)

lemma render_field:
  assumes "x \<in> {Number i, Real d}" and "length (shown (fixed_format p) x) \<le> w"
  shows "columns (fst (render (fixed_format p) (field label w x tail))) = columns label + w + columns tail + 2"
    and "snd (render (fixed_format p) (field label w x tail)) = fixed_format p"
proof -
  have "columns (pad (fixed_format p\<lparr>fmt_width := w\<rparr>) (shown (fixed_format p) x)) = w"
    using assms by (intro trans [OF columns_pad]) (auto simp: fixed_format_def)
  then show "columns (fst (render (fixed_format p) (field label w x tail))) = columns label + w + columns tail + 2"
    "snd (render (fixed_format p) (field label w x tail)) = fixed_format p"
    using assms(1) by (auto simp: field_def case_prod_unfold Let_def fixed_format_def)
qed

text \<open>The widths of the rows, one row at a time.\<close>

lemma row_columns:
  "map columns (render_rows (fixed_format p) ([Text s] # rs)) = columns s # map columns (render_rows (fixed_format p) rs)"
  "map columns (render_rows Format_default ([Text s] # rs)) = columns s # map columns (render_rows Format_default rs)"
  "render_rows (fixed_format p) ((Fixed # Setprecision q # xs) # rs) = render_rows (fixed_format q) (xs # rs)"
  "render_rows Format_default ((Fixed # Setprecision q # xs) # rs) = render_rows (fixed_format q) (xs # rs)"
  "map columns (render_rows (fixed_format p) ([] # rs)) = 0 # map columns (render_rows (fixed_format p) rs)"
  by (simp_all add: fixed_format_def Format_default_def)

lemma field_columns:
  "length (show_int i) \<le> w \<Longrightarrow> map columns (render_rows (fixed_format p) (field label w (Number i) tail # rs)) =
     (columns label + w + columns tail + 2) # map columns (render_rows (fixed_format p) rs)"
  "length (show_fixed p d) \<le> w \<Longrightarrow> map columns (render_rows (fixed_format p) (field label w (Real d) tail # rs)) =
     (columns label + w + columns tail + 2) # map columns (render_rows (fixed_format p) rs)"
  using render_field [of "Number i" i _ p w label tail] render_field [of "Real d" _ d p w label tail]
  by (simp_all add: case_prod_unfold Let_def)

definition trader_fits :: "TraderResult \<Rightarrow> bool" where
  "trader_fits tr \<longleftrightarrow> plain (tr_name tr) \<and> length (tr_name tr) \<le> 16 \<and> length (show_int (sint (tr_final_position tr))) \<le> 6
     \<and> length (show_fixed 2 (tr_pnl tr)) \<le> 10"

lemma render_trader:
  assumes "trader_fits tr"
  shows "columns (fst (render (fixed_format 2) (trader_row tr))) = 48" and "snd (render (fixed_format 2) (trader_row tr)) = fixed_format 2"
  using assms by (simp_all add: trader_row_def trader_fits_def case_prod_unfold Let_def fixed_format_def columns_pad)

lemma render_traders:
  assumes "\<forall>tr \<in> set trs. trader_fits tr"
  shows "map columns (render_rows (fixed_format 2) (map trader_row trs @ rest)) =
    replicate (length trs) 48 @ map columns (render_rows (fixed_format 2) rest)"
  using assms by (induction trs) (simp_all add: render_trader Let_def case_prod_unfold)

definition results_fit :: "SimulationResults \<Rightarrow> bool" where
  "results_fit r \<longleftrightarrow>
     (\<forall>x \<in> {sr_total_ticks r, sr_total_trades r, sr_total_volume r}. length (show_int (uint x)) \<le> 10)
   \<and> length (show_fixed 2 (sr_total_notional r)) \<le> 12 \<and> length (show_fixed 2 (sr_final_price r)) \<le> 9
   \<and> length (show_fixed 2 (sr_price_return_pct r)) \<le> 9
   \<and> (\<forall>x \<in> {sr_avg_latency_ns r, sr_min_latency_ns r, sr_max_latency_ns r}. length (show_fixed 0 x) \<le> 10)
   \<and> (\<forall>tr \<in> set (sr_trader_results r). trader_fits tr)"

text \<open>The shape of the results box, when every figure fits its field: each line has the same width whatever the figures are, but
  not all are as wide as the border: the titles and most figures are one column short, the price two and the return three.\<close>

theorem results_box_widths:
  assumes "results_fit r"
  shows "map columns (render_rows Format_default (result_rows r)) =
    [0, 48, 47, 48, 47, 47, 47, 48, 46, 45, 48, 47, 48, 47, 47, 47, 48, 47, 48, 0]
    @ replicate (length (sr_trader_results r)) 48 @ [48]"
  using assms unfolding results_fit_def result_rows_def
  by (simp add: row_columns field_columns border_def title_def render_traders del: render_rows.simps(2) list.map(2))

text \<open>The results of a run without a trade, at 150 dollars.\<close>

definition quiet_results :: SimulationResults where
  "quiet_results = \<lparr>sr_total_ticks = 10000, sr_total_orders = 20000, sr_total_cancels = 19998, sr_total_trades = 0, sr_total_volume = 0,
     sr_total_notional = dzero, sr_wall_clock_sec = dzero, sr_avg_latency_ns = dzero, sr_min_latency_ns = dzero, sr_max_latency_ns = dzero,
     sr_final_price = dlit 15000 100, sr_price_return_pct = dzero,
     sr_trader_results = [\<lparr>tr_name = ''MarketMaker'', tr_final_position = 0, tr_pnl = dzero, tr_orders_sent = 20000, tr_fills_received = 0\<rparr>]\<rparr>"

theorem results_box_widths_witness:
  "results_fit quiet_results \<and> map columns (render_rows Format_default (result_rows quiet_results)) =
    [0, 48, 47, 48, 47, 47, 47, 48, 46, 45, 48, 47, 48, 47, 47, 47, 48, 47, 48, 0, 48, 48]"
proof -
  have zero: "show_fixed p dzero = decimal p 0" for p
    by (simp add: show_fixed_def show_special_def is_inf_def inf_mag_def dzero_def round_half_even_def units_def)
  have "results_fit quiet_results"
    by (simp add: results_fit_def quiet_results_def trader_fits_def zero show_cents length_decimal show_int_def length_show_nat show_nat.simps)
  from results_box_widths [OF this] this show ?thesis by (simp add: quiet_results_def)
qed

end
