(* ===== verification/Programs.thy ===== *)
theory Programs
  imports ReplayCorrect LatencyHistogram SimulationOutput
begin

text \<open>
  Two programs: the server of \<^verbatim>\<open>src/main.cpp\<close> up to the point where it hands over to the server class, and
  \<^verbatim>\<open>src/run_replay.cpp\<close>, with what the replay harness takes from its histogram
  (\<^verbatim>\<open>src/replay/ReplayHarness.cpp\<close>, lines 170 to 177). A program ends with an exit code or because an
  exception leaves \<^verbatim>\<open>main\<close>; both come with what it has printed. The file system is the function \<open>files\<close> from paths to
  contents. Output is a list of operands of \<^verbatim>\<open><<\<close>; \<open>render\<close> of \<open>Output\<close> gives its characters.
\<close>

section \<open>The latency figures of a replay\<close>

definition ReplayHarness_new :: "'h hdr_api \<Rightarrow> 'h option" where
  "ReplayHarness_new api = hdr_init api 1 60000000000 3"

definition replay_histogram :: "'h hdr_api \<Rightarrow> 'h \<Rightarrow> ReplayState \<Rightarrow> 'h" where
  "replay_histogram api h st = foldl (hdr_record_value api) h (latency_log st)"

record ReplayLatencies =
  latency_min_ns :: "64 word"
  latency_p50_ns :: "64 word"
  latency_p99_ns :: "64 word"
  latency_p999_ns :: "64 word"
  latency_max_ns :: "64 word"
  latency_mean_ns :: double

definition replay_latencies :: "'h hdr_api \<Rightarrow> 'h \<Rightarrow> ReplayLatencies" where
  "replay_latencies api h =
     (if 0 < sint (hdr_total_count api h)
      then \<lparr>latency_min_ns = hdr_min api h, latency_p50_ns = hdr_value_at_percentile api h (dlit 50 1),
            latency_p99_ns = hdr_value_at_percentile api h (dlit 99 1), latency_p999_ns = hdr_value_at_percentile api h (dlit 999 10),
            latency_max_ns = hdr_max api h, latency_mean_ns = hdr_mean api h\<rparr>
      else \<lparr>latency_min_ns = 0, latency_p50_ns = 0, latency_p99_ns = 0, latency_p999_ns = 0, latency_max_ns = 0, latency_mean_ns = dzero\<rparr>)"

section \<open>run\_replay\<close>

datatype outcome = Exit "out list" | Terminated "out list" string

definition rule_line :: string where
  "rule_line = replicate 60 (CHR ''='') @ newline"

text \<open>Division of integers in C++ rounds towards zero.\<close>

definition int_div :: "int \<Rightarrow> int \<Rightarrow> int" where
  "int_div a b = sgn a * sgn b * (\<bar>a\<bar> div \<bar>b\<bar>)"

definition replay_report :: "ReplayResult \<Rightarrow> out list" where
  "replay_report res =
     [Text (newline @ ''--- Replay Results ---'' @ newline),
      Text ''  Events processed: '', Number (uint (res_events_processed res)), Text newline,
      Text ''  New orders:       '', Number (uint (res_new_orders res)), Text newline,
      Text ''  Cancels:          '', Number (uint (res_cancels res)), Text newline,
      Text ''  Risk rejections:  '', Number (uint (res_risk_rejections res)), Text newline,
      Text ''  Trades generated: '', Number (uint (res_trades_generated res)), Text newline,
      Text ''  Volume traded:    '', Number (uint (res_volume_traded res)), Text ('' shares'' @ newline),
      Text ''  Notional traded:  $'', Real (res_notional_traded res), Text newline,
      Text ''  Duration:         '', Number (int_div (sint (res_total_duration_ns res)) 1000), Text ('' '' @ [CHR 0xC2, CHR 0xB5] @ ''s'' @ newline),
      Text ''  Throughput:       '', Number (truncate_int64 (res_throughput_ops_per_sec res)), Text ('' ops/sec'' @ newline)]"

definition banner :: "string \<Rightarrow> out list" where
  "banner tape_path = [Text rule_line, Text '' Replaying tape: '', Text tape_path, Text newline, Text rule_line]"

definition latency_report :: "'h hdr_api \<Rightarrow> 'h \<Rightarrow> out list" where
  "latency_report api h =
     Text (newline @ ''--- Latency Distribution (nanoseconds) ---'' @ newline) # summary_items api ''  Per-op latency'' h"

definition risk_report :: "RiskStats \<Rightarrow> out list" where
  "risk_report st =
     [Text (newline @ ''--- Risk Stats ---'' @ newline),
      Text ''  Total checks:     '', Number (uint (total_checks st)), Text newline,
      Text ''  Passes:           '', Number (uint (total_passes st)), Text newline,
      Text ''  Rejections:       '', Number (uint (total_rejections st)), Text newline]"

definition run_replay_main :: "'h hdr_api \<Rightarrow> (string \<Rightarrow> string option) \<Rightarrow> (nat \<Rightarrow> clock) \<Rightarrow> (nat \<Rightarrow> 64 word \<times> 64 word)
    \<Rightarrow> 64 word \<times> 64 word \<Rightarrow> string list \<Rightarrow> outcome option" where
  "run_replay_main api files now timer wall argv =
     (let tape_path = (if 1 < length argv then argv ! 1 else ''data/sample_tape.csv'')
      in case ReplayHarness_new api of
           None \<Rightarrow> Some (Terminated [] ''LatencyHistogram: hdr_init failed'')
         | Some h0 \<Rightarrow>
             (case files tape_path of
                None \<Rightarrow> Some (Terminated (banner tape_path) (''TapeReader: cannot open '' @ tape_path))
              | Some tape \<Rightarrow>
                  (case replay True now timer wall tape MatchingEngine_new (RiskChecker_new RiskLimits_default) of
                     None \<Rightarrow> None
                   | Some (res, st) \<Rightarrow>
                       Some (Exit (banner tape_path @ replay_report res @ latency_report api (replay_histogram api h0 st) @
                         risk_report (risk_stats (rp_risk st)))))))"

section \<open>The background simulation of the server\<close>

definition exchange_sim_config :: SimulationConfig where
  "exchange_sim_config = SimulationConfig_default\<lparr>cfg_symbol := ''AAPL'', initial_price := dlit 150 1, num_ticks := 50000,
     price_volatility := dlit 1 1000\<rparr>"

section \<open>The server program\<close>

definition stoi :: "string \<Rightarrow> 32 word option" where
  "stoi s = (case strtoint s of None \<Rightarrow> None
     | Some (neg, v) \<Rightarrow> if neg then (if v \<le> 2 ^ 31 then Some (- of_nat v) else None)
                        else (if v < 2 ^ 31 then Some (of_nat v) else None))"

text \<open>\<open>None\<close> is the exception of \<^verbatim>\<open>std::stoi\<close>, which ends the program.\<close>

definition exchange_port :: "string list \<Rightarrow> 16 word option" where
  "exchange_port argv = (if 1 < length argv then map_option ucast (stoi (argv ! 1)) else Some 9876)"

definition exchange_parts :: "RiskChecker MatchingEngine \<times> RiskChecker" where
  "exchange_parts = (set_trade_callback main_trade_callback MatchingEngine_new, RiskChecker_new RiskLimits_default)"

text \<open>\<^verbatim>\<open>main\<close>: what it brings up. The background simulation has an engine of its own.\<close>

record exchange_process =
  ep_port :: "16 word"
  ep_served :: "RiskChecker MatchingEngine \<times> RiskChecker"
  ep_background :: SimState

definition exchange_main :: "string list \<Rightarrow> exchange_process option" where
  "exchange_main argv =
     (case exchange_port argv of
        None \<Rightarrow> None
      | Some port \<Rightarrow> Some \<lparr>ep_port = port, ep_served = exchange_parts, ep_background = sim_start (Simulation_new exchange_sim_config)\<rparr>)"

section \<open>Properties\<close>

text \<open>What one event adds to the counters of the harness, of the risk checker and of the engine.\<close>

definition counters_agree :: "uint64 \<Rightarrow> ReplayState \<Rightarrow> bool" where
  "counters_agree orders0 st \<longleftrightarrow> total_checks (risk_stats (rp_risk st)) = new_orders st
     \<and> total_rejections (risk_stats (rp_risk st)) = risk_rejections st
     \<and> total_passes (risk_stats (rp_risk st)) = total_orders (stats (rp_engine st)) - orders0"

lemma check_counts:
  assumes "check symb sd ty p q r = (reason, r')"
  shows "total_checks (risk_stats r') = total_checks (risk_stats r) + 1"
    "total_passes (risk_stats r') = total_passes (risk_stats r) + (if reason = NoReason then 1 else 0)"
    "total_rejections (risk_stats r') = total_rejections (risk_stats r) + (if reason = NoReason then 0 else 1)"
  using assms by (auto simp: check_spec reject_def Let_def record_pass_def record_reject_def split: if_splits)

lemma replay_new_agrees:
  assumes "replay_new True now timer ev st = Some st'" and "counters_agree n0 st"
  shows "counters_agree n0 st'"
proof -
  obtain reason r1 where v: "check (ev_symbol ev) (ev_side ev) (ev_type ev) (ev_price ev) (ev_quantity ev) (rp_risk st) = (reason, r1)" by fastforce
  show ?thesis
  proof (cases "reason = NoReason")
    case True
    with assms v obtain i e' s' where
      sub: "submit_order now (ev_symbol ev) (ev_side ev) (ev_type ev) (ev_price ev) (ev_quantity ev) (rp_engine st, rp_tally st) = Some (i, e', s')"
      and st': "rp_engine st' = e'" "rp_risk st' = r1" "new_orders st' = new_orders st + 1" "risk_rejections st' = risk_rejections st"
      by (auto simp: replay_new_def gate_check_def Let_def split: if_splits option.splits)
    have "total_orders (stats e') = total_orders (stats (rp_engine st)) + 1" by (rule submit_counters [OF sub])
    then show ?thesis using assms(2) check_counts [OF v] True by (simp add: counters_agree_def st')
  next
    case False
    then show ?thesis using assms check_counts [OF v] v
      by (auto simp: counters_agree_def replay_new_def gate_check_def Let_def split: if_splits)
  qed
qed

lemma replay_cancel_agrees: "counters_agree n0 st \<Longrightarrow> counters_agree n0 (replay_cancel timer ev st)"
  by (auto simp: counters_agree_def replay_cancel_def engine_cancel_order_def Let_def case_prod_unfold split: option.splits if_splits)

lemma replay_events_agree_counters:
  assumes "replay_events True now timer k evs st = Some st'" and "counters_agree n0 st"
  shows "counters_agree n0 st'"
  using assms
proof (induction evs arbitrary: k st)
  case (Cons ev evs)
  let ?s = "st\<lparr>events_processed := events_processed st + 1\<rparr>"
  have s: "counters_agree n0 ?s" using Cons.prems(2) by (simp add: counters_agree_def)
  obtain st1 where st1: "replay_event True (now k) (timer k) ev st = Some st1" "replay_events True now timer (Suc k) evs st1 = Some st'"
    using Cons.prems(1) by (auto split: option.splits)
  have "counters_agree n0 st1"
    using st1(1) replay_new_agrees [OF _ s] replay_cancel_agrees [OF s, of "timer k" ev] s by (auto simp: replay_event_def Let_def split: if_splits)
  then show ?case by (rule Cons.IH [OF st1(2)])
qed simp

text \<open>C36. The three sets of counters a replay prints agree: every new order of the tape is one risk check, a risk rejection of the
  harness is a rejection of the checker, and what passes is what the engine was given.\<close>

theorem replay_counters_agree:
  assumes "replay True now timer wall tape e (RiskChecker_new lim) = Some (res, st)"
  shows "total_checks (risk_stats (rp_risk st)) = res_new_orders res \<and> total_rejections (risk_stats (rp_risk st)) = res_risk_rejections res
    \<and> total_passes (risk_stats (rp_risk st)) = total_orders (stats (rp_engine st)) - total_orders (stats e)"
proof -
  have r: "replay_events True now timer 0 (tape_events (tape_open tape)) (replay_start e (RiskChecker_new lim)) = Some st"
    "res = replay_result wall st" using replay_Some [OF assms] by simp_all
  have "counters_agree (total_orders (stats e)) (replay_start e (RiskChecker_new lim))"
    by (simp add: counters_agree_def replay_start_def RiskChecker_new_def RiskStats_init_def set_trade_callback_def)
  from replay_events_agree_counters [OF r(1) this] show ?thesis
    by (simp add: counters_agree_def r(2) replay_result_def case_prod_unfold Let_def)
qed

lemma replay_returns:
  assumes "\<forall>ev \<in> set (tape_events (tape_open tape)). legal_event ev" and "1 + length (tape_events (tape_open tape)) < 2 ^ 64"
  obtains st where "replay gate now timer wall tape MatchingEngine_new r = Some (replay_result wall st, st)"
proof -
  have inv: "engine_inv 1 (rp_engine (replay_start MatchingEngine_new r))" "agree (replay_start MatchingEngine_new r) (replay_start MatchingEngine_new r)"
    using engine_inv_new
    by (simp_all add: replay_start_def set_trade_callback_def engine_inv_def engine_ok_def ids_below_def book_of_eq agree_def same_engine_def same_books_def)
  from replay_events_agree [OF inv(2) inv(1) inv(1) assms(2,1), of gate now timer 0 now timer] that show thesis unfolding replay_def by auto
qed

theorem replay_counters_agree_witness:
  "\<exists>res st. replay True (\<lambda>_ _. 0) (\<lambda>_. (0, 5)) (0, 9) tape1 MatchingEngine_new (RiskChecker_new RiskLimits_default) = Some (res, st)
    \<and> total_checks (risk_stats (rp_risk st)) = res_new_orders res \<and> total_rejections (risk_stats (rp_risk st)) = res_risk_rejections res
    \<and> total_passes (risk_stats (rp_risk st)) = total_orders (stats (rp_engine st)) - total_orders (stats (MatchingEngine_new :: ReplayTally MatchingEngine))"
proof -
  have "1 + length (tape_events (tape_open tape1)) < 2 ^ 64" by (simp add: events_tape1)
  from replay_returns [OF legal_tape1 this, of True "\<lambda>_ _. 0" "\<lambda>_. (0, 5)" "(0, 9)" "RiskChecker_new RiskLimits_default"]
  obtain st where "replay True (\<lambda>_ _. 0) (\<lambda>_. (0, 5)) (0, 9) tape1 MatchingEngine_new (RiskChecker_new RiskLimits_default) =
      Some (replay_result (0, 9) st, st)" .
  with replay_counters_agree [OF this] show ?thesis by blast
qed

text \<open>The replay program on every branch: it ends with an uncaught exception if the histogram cannot be created or the tape
  cannot be opened, and otherwise prints its report and exits.\<close>

theorem run_replay_outcome:
  assumes "\<forall>tape ev. files path = Some tape \<longrightarrow> ev \<in> set (tape_events (tape_open tape)) \<longrightarrow> legal_event ev"
    and "\<forall>tape. files path = Some tape \<longrightarrow> 1 + length (tape_events (tape_open tape)) < 2 ^ 64"
  shows "(\<exists>printed reason. run_replay_main api files now timer wall [prog, path] = Some (Terminated printed reason)) \<and>
        (hdr_init api 1 60000000000 3 = None \<or> files path = None)
    \<or> (\<exists>h0 tape res st items. hdr_init api 1 60000000000 3 = Some h0 \<and> files path = Some tape
        \<and> replay True now timer wall tape MatchingEngine_new (RiskChecker_new RiskLimits_default) = Some (res, st)
        \<and> run_replay_main api files now timer wall [prog, path] = Some (Exit items)
        \<and> items = banner path @ replay_report res @ latency_report api (replay_histogram api h0 st) @ risk_report (risk_stats (rp_risk st)))"
proof (cases "hdr_init api 1 60000000000 3 = None \<or> files path = None")
  case True
  then show ?thesis by (auto simp: run_replay_main_def ReplayHarness_new_def Let_def split: option.splits)
next
  case False
  then obtain h0 tape where h0: "hdr_init api 1 60000000000 3 = Some h0" and tape: "files path = Some tape" by auto
  from assms tape have "\<forall>ev \<in> set (tape_events (tape_open tape)). legal_event ev" "1 + length (tape_events (tape_open tape)) < 2 ^ 64" by blast+
  from replay_returns [OF this, of True now timer wall "RiskChecker_new RiskLimits_default"]
  obtain st where "replay True now timer wall tape MatchingEngine_new (RiskChecker_new RiskLimits_default) = Some (replay_result wall st, st)" .
  then show ?thesis using h0 tape by (simp add: run_replay_main_def ReplayHarness_new_def Let_def)
qed

theorem run_replay_outcome_witness:
  "\<exists>items. run_replay_main list_api [''t.csv'' \<mapsto> tape1] (\<lambda>_ _. 0) (\<lambda>_. (0, 5)) (0, 9) [''run_replay'', ''t.csv''] = Some (Exit items)"
proof -
  have "\<forall>tape ev. [''t.csv'' \<mapsto> tape1] ''t.csv'' = Some tape \<longrightarrow> ev \<in> set (tape_events (tape_open tape)) \<longrightarrow> legal_event ev"
    "\<forall>tape. [''t.csv'' \<mapsto> tape1] ''t.csv'' = Some tape \<longrightarrow> 1 + length (tape_events (tape_open tape)) < 2 ^ 64"
    using legal_tape1 by (simp_all add: events_tape1)
  from run_replay_outcome [where files = "[''t.csv'' \<mapsto> tape1]" and path = "''t.csv''", OF this, of list_api "\<lambda>_ _. 0" "\<lambda>_. (0, 5)" "(0, 9)" "''run_replay''"] show ?thesis
    by (auto simp: list_api_def)
qed

text \<open>The port is the argument modulo 65536: an argument outside the range of a port is accepted and listens somewhere else;
  an argument that is no number, or out of the range of \<^verbatim>\<open>int\<close>, ends the program.\<close>

theorem exchange_port_wraps:
  "exchange_port [prog] = Some 9876 \<and>
   (case exchange_port [prog, s] of
      None \<Rightarrow> strtoint s = None \<or> (\<exists>neg v. strtoint s = Some (neg, v) \<and> 2 ^ 31 \<le> v)
    | Some p \<Rightarrow> (\<exists>neg v. strtoint s = Some (neg, v) \<and> uint p = (if neg then - int v else int v) mod 65536))"
proof -
  have down: "(ucast (of_int n :: 32 word) :: 16 word) = of_int n" for n :: int
    by (rule bit_word_eqI) (auto simp: bit_simps)
  have "uint (of_int n :: 16 word) = n mod 65536" for n :: int by (simp add: uint_word_of_int take_bit_eq_mod)
  from this [of "- int v" for v] this [of "int v" for v] have wrap: "uint (ucast (- (of_nat v :: 32 word)) :: 16 word) = - int v mod 65536" "uint (ucast (of_nat v :: 32 word) :: 16 word) = int v mod 65536" for v
    using down [of "- int v"] down [of "int v"] by simp_all
  show ?thesis
  proof (cases "strtoint s")
    case (Some nv)
    obtain neg v where nv: "nv = (neg, v)" by fastforce
    show ?thesis
    proof (cases "stoi s")
      case None
      then have "2 ^ 31 \<le> v" using Some nv by (simp add: stoi_def split: if_splits)
      then show ?thesis using None Some nv by (simp add: exchange_port_def)
    next
      case (Some w)
      then have "w = (if neg then - of_nat v else of_nat v)" using \<open>strtoint s = Some nv\<close> nv by (simp add: stoi_def split: if_splits)
      then have "uint (ucast w :: 16 word) = (if neg then - int v else int v) mod 65536" using wrap [of v] by simp
      then show ?thesis using Some \<open>strtoint s = Some nv\<close> nv by (simp add: exchange_port_def)
    qed
  qed (simp add: exchange_port_def stoi_def)
qed

text \<open>The engine keeps the callback of a replay that has returned, and with it references to local variables that no longer exist.\<close>

theorem callback_outlives_replay:
  assumes "replay gate now timer wall tape e r = Some (res, st)"
  shows "trade_callback (rp_engine st) = Some replay_callback"
proof -
  have "tally_ok e (replay_start e r)" by (simp add: tally_ok_def replay_start_def set_trade_callback_def)
  from replay_events_counts [OF replay_Some [OF assms, THEN conjunct1] this] show ?thesis by (simp add: tally_ok_def)
qed

end
