(* ===== verification/Benchmark.thy ===== *)
theory Benchmark
  imports Determinism LatencyHistogram RandomNumbers
begin

text \<open>
  The workload driver of \<^verbatim>\<open>benchmarks/bench_throughput.cpp\<close>: a stream of passive orders, cancels and crossing
  orders on one symbol, run once for throughput and once with a time stamp around every operation. The
  workload is drawn from Mersenne Twisters of fixed seeds through the distributions of \<open>RandomNumbers\<close>; the clocks are
  arguments. The two phases repeat the same switch statement, modelled once as \<open>bench_op\<close>.
\<close>

section \<open>The workload\<close>

datatype Op = PassiveBuy | PassiveSell | CancelOldest | Aggress

definition kSymbol :: string where "kSymbol = ''AAPL''"

definition kMid :: double where "kMid = dlit 100 1"

definition kTick :: double where "kTick = dlit 1 100"

definition kBand :: "32 word" where "kBand = 50"

definition kDepth :: nat where "kDepth = 50000"

definition op_of_draw :: "int \<Rightarrow> Op" where
  "op_of_draw r = (if r < 35 then PassiveBuy else if r < 70 then PassiveSell else if r < 90 then CancelOldest else Aggress)"

definition build_workload :: "'n distributions \<Rightarrow> nat \<Rightarrow> 32 word \<Rightarrow> Op list" where
  "build_workload D n_ops seed =
     map op_of_draw (fst (run_state (traverse_list (\<lambda>_. uniform_int D 0 99) [0..<n_ops]) (mt_seed seed)))"

definition build_offsets :: "'n distributions \<Rightarrow> nat \<Rightarrow> 32 word \<Rightarrow> 32 word list" where
  "build_offsets D n_ops seed =
     map of_int (fst (run_state (traverse_list (\<lambda>_. uniform_int D 1 (sint kBand)) [0..<n_ops]) (mt_seed seed)))"

lemma length_build [simp]: "length (build_workload D n seed) = n" "length (build_offsets D n seed) = n"
  by (simp_all add: build_workload_def build_offsets_def length_traverse)

section \<open>One operation\<close>

type_synonym driver = "unit MatchingEngine \<times> OrderId list"

definition level_price :: "Side \<Rightarrow> 32 word \<Rightarrow> Price" where
  "level_price side off = (if side = Buy then dsub kMid (dmul (of_sint off) kTick) else dadd kMid (dmul (of_sint off) kTick))"

text \<open>\<^verbatim>\<open>engine.cancel_order(kSymbol, resting.front()); resting.pop_front();\<close>\<close>

definition retire :: "driver \<Rightarrow> driver" where
  "retire = (\<lambda>(e, resting_ids). (snd (engine_cancel_order kSymbol (hd resting_ids) e), tl resting_ids))"

definition passive_order :: "clock \<Rightarrow> Side \<Rightarrow> 32 word \<Rightarrow> driver \<Rightarrow> driver option" where
  "passive_order now side off = (\<lambda>(e, resting_ids).
     (if kDepth \<le> length resting_ids then Some (retire (e, resting_ids))
      else case submit_order now kSymbol side Limit (level_price side off) 100 (e, ()) of
        None \<Rightarrow> None
      | Some (i, e', _) \<Rightarrow> Some (e', if i \<noteq> 0 then resting_ids @ [i] else resting_ids)))"

definition aggress :: "clock \<Rightarrow> 32 word \<Rightarrow> driver \<Rightarrow> driver option" where
  "aggress now off = (\<lambda>(e, resting_ids).
     (let side = (if even (sint off) then Buy else Sell);
          price = level_price (if side = Buy then Sell else Buy) kBand
      in case submit_order now kSymbol side IOC price 300 (e, ()) of
           None \<Rightarrow> None
         | Some (i, e', _) \<Rightarrow> Some (e', resting_ids)))"

fun bench_op :: "clock \<Rightarrow> Op \<Rightarrow> 32 word \<Rightarrow> driver \<Rightarrow> driver option" where
  "bench_op now PassiveBuy off st = passive_order now Buy off st"
| "bench_op now PassiveSell off st = passive_order now Sell off st"
| "bench_op now CancelOldest off st = Some (if snd st \<noteq> [] then retire st else st)"
| "bench_op now Aggress off st = aggress now off st"

section \<open>The two phases\<close>

fun throughput_loop :: "(nat \<Rightarrow> clock) \<Rightarrow> nat \<Rightarrow> (Op \<times> 32 word) list \<Rightarrow> driver \<Rightarrow> driver option" where
  "throughput_loop now k [] st = Some st"
| "throughput_loop now k ((op, off) # ops) st =
     (case bench_op (now k) op off st of None \<Rightarrow> None | Some st1 \<Rightarrow> throughput_loop now (Suc k) ops st1)"

fun latency_loop :: "'h hdr_api \<Rightarrow> (nat \<Rightarrow> clock) \<Rightarrow> (nat \<Rightarrow> 64 word \<times> 64 word) \<Rightarrow> nat \<Rightarrow> (Op \<times> 32 word) list \<Rightarrow> driver \<times> 'h
    \<Rightarrow> (driver \<times> 'h) option" where
  "latency_loop api now timer k [] st = Some st"
| "latency_loop api now timer k ((op, off) # ops) st =
     (case bench_op (now k) op off (fst st) of
        None \<Rightarrow> None
      | Some st1 \<Rightarrow> latency_loop api now timer (Suc k) ops (st1, hdr_record_value api (snd st) (snd (timer k) - fst (timer k))))"

record RunResult =
  ops_executed :: uint64
  elapsed_sec :: double
  run_stats :: EngineStats

definition run_throughput :: "(nat \<Rightarrow> clock) \<Rightarrow> double \<Rightarrow> Op list \<Rightarrow> 32 word list \<Rightarrow> RunResult option" where
  "run_throughput now elapsed ops offsets =
     (case throughput_loop now 0 (zip ops offsets) (MatchingEngine_new, []) of
        None \<Rightarrow> None
      | Some (e, _) \<Rightarrow> Some \<lparr>ops_executed = of_nat (length ops), elapsed_sec = elapsed, run_stats = stats e\<rparr>)"

definition run_latency :: "'h hdr_api \<Rightarrow> (nat \<Rightarrow> clock) \<Rightarrow> (nat \<Rightarrow> 64 word \<times> 64 word) \<Rightarrow> double \<Rightarrow> Op list \<Rightarrow> 32 word list \<Rightarrow> 'h
    \<Rightarrow> (RunResult \<times> 'h) option" where
  "run_latency api now timer elapsed ops offsets hist =
     (case latency_loop api now timer 0 (zip ops offsets) ((MatchingEngine_new, []), hist) of
        None \<Rightarrow> None
      | Some ((e, _), hist') \<Rightarrow> Some (\<lparr>ops_executed = of_nat (length ops), elapsed_sec = elapsed, run_stats = stats e\<rparr>, hist'))"

section \<open>What an order leaves on the book\<close>

lemma level_price_number: "\<not> is_nan (level_price side off)"
proof -
  have "of_sint off = of_sint (scast off :: 64 word)" by (simp add: of_sint_def sint_up_scast is_up)
  then have off: "finite_double (of_sint off)" "units (of_sint off) < 2 ^ (1074 + 66)" using of_sint_finite [of "scast off"] by simp_all
  have tick: "finite_double kTick" "units kTick < 2 ^ (1074 + 22)" using dlit_number(1,2) [of 100 1] by (simp_all add: kTick_def)
  have "finite_double (dmul (of_sint off) kTick)" by (rule dmul_finite [OF off(1) tick(1) off(2) tick(2)]) simp
  moreover have "\<not> is_nan kMid" using dlit_number(1) [of 1 100] by (simp add: kMid_def finite_double_def)
  ultimately show ?thesis by (simp add: level_price_def dsub_number dadd_number)
qed

lemma order_count_ids:
  assumes "book_ok b"
  shows "order_count b = card (a_ids (abs_book b))"
proof -
  have "a_ids (abs_book b) = (\<lambda>p. o_id (order_at b p)) ` live b"
    by (simp add: a_ids_def abs_book_def queue_def live_def image_Un image_image)
  moreover have "inj_on (\<lambda>p. o_id (order_at b p)) (live b)"
    by (rule inj_onI) (rule live_id_inj [OF assms])
  ultimately show ?thesis using order_count_live(1) [OF assms] by (simp add: card_image)
qed

lemma submit_ids:
  assumes inv: "engine_inv k e" and price: "ty = Market \<or> \<not> is_nan price" and k: "k + 1 < 2 ^ 64"
    and sub: "submit_order now symb sd ty price q (e, s) = Some (i, e', s')"
  shows "a_ids (abs_book (book_of e' symb)) \<subseteq> a_ids (abs_book (book_of e symb)) \<union> (if may_rest ty \<and> i \<noteq> 0 then {i} else {})"
proof (cases "accepted ty price q")
  case False
  from submit_rejected [OF this, of now symb sd e s] sub have "book_of e' symb = book_of e symb"
    using get_order_book_same [of e' symb e] by auto
  then show ?thesis by simp
next
  case True
  let ?b = "book_of e symb" and ?buy = "sd = Buy"
  let ?ord = "incoming_order now e symb sd ty price q"
  have ok: "submittable e symb ty price" using inv price next_id_suc(2) [OF inv k] by (simp add: submittable_def engine_inv_def)
  from submit_accepted [OF True this surjective_pairing refl, of now sd s] sub
  have i: "i = next_order_id ?b" and b': "abs_book (book_of e' symb) = snd (a_submit ?ord (abs_book ?b))" by auto
  have "book_ok ?b" using inv engine_ok_book [of e symb] by (simp add: engine_inv_def book_inv_def)
  then have "i \<noteq> 0" by (auto simp: i book_ok_def)
  obtain fs q' rs where fill: "fill_queue (crosses ?buy (effective_price sd ty price)) q (queue (\<not> ?buy) ?b) = (fs, q', rs)"
    by (metis prod_cases3)
  have flds: "o_side ?ord = sd" "o_price ?ord = effective_price sd ty price" "o_remaining_qty ?ord = q" "o_type ?ord = ty" "o_id (remainder ?ord q') = i"
    by (simp_all add: incoming_order_def i remainder_def)
  note sides = a_submit_sides(2,3) [of ?ord "abs_book ?b" fs q' rs, unfolded flds a_side_abs, OF fill]
  have "o_id ` set rs \<subseteq> o_id ` set (queue (\<not> ?buy) ?b)" using fill_queue_rest [OF fill] by (force simp: same_key_def)
  then show ?thesis
    unfolding b' a_ids_sides [of "snd (a_submit ?ord (abs_book ?b))" ?buy] a_ids_sides [of "abs_book ?b" ?buy]
    using sides \<open>i \<noteq> 0\<close> flds(5) by (auto simp: enqueue_def)
qed

section \<open>The driver's invariant\<close>

text \<open>Every order on the book is in the queue of resting ids; the queue also holds orders that have been filled meanwhile.\<close>

definition driver_inv :: "nat \<Rightarrow> driver \<Rightarrow> bool" where
  "driver_inv k = (\<lambda>(e, resting_ids). engine_inv k e \<and> trade_callback e = None
     \<and> a_ids (abs_book (book_of e kSymbol)) \<subseteq> set resting_ids \<and> length resting_ids \<le> kDepth)"

lemma retire_inv: "driver_inv k st \<Longrightarrow> snd st \<noteq> [] \<Longrightarrow> driver_inv k (retire st)"
proof -
  assume inv: "driver_inv k st" and ne: "snd st \<noteq> []"
  obtain e i resting_ids where st: "st = (e, i # resting_ids)" using ne by (cases st, cases "snd st") auto
  have ok: "engine_ok e" using inv by (simp add: st driver_inv_def engine_inv_def)
  have "a_ids (a_cancel i (abs_book (book_of e kSymbol))) \<subseteq> a_ids (abs_book (book_of e kSymbol)) - {i}"
    by (auto simp: a_ids_def a_cancel_def map_sides_def)
  then show ?thesis
    using inv cancel_engine_inv [of k e kSymbol i]
    by (auto simp: st retire_def driver_inv_def engine_cancel_effect(2,4) [OF ok])
qed

lemma submit_driver:
  assumes inv: "driver_inv k (e, resting_ids)" and price: "\<not> is_nan price" and k: "k + 1 < 2 ^ 64"
  obtains i e' where "submit_order now kSymbol sd ty price q (e, ()) = Some (i, e', ())" and "engine_inv (k + 1) e'" and "trade_callback e' = None"
    and "a_ids (abs_book (book_of e' kSymbol)) \<subseteq> set resting_ids \<union> (if may_rest ty \<and> i \<noteq> 0 then {i} else {})"
proof -
  have e: "engine_inv k e" "trade_callback e = None" "a_ids (abs_book (book_of e kSymbol)) \<subseteq> set resting_ids" using inv by (simp_all add: driver_inv_def)
  have price': "ty = Market \<or> \<not> is_nan price" using price ..
  obtain i e' s' where sub: "submit_order now kSymbol sd ty price q (e, ()) = Some (i, e', s')" "engine_inv (k + 1) e'"
    by (rule submit_engine_inv [OF e(1) price' k])
  have "a_ids (abs_book (book_of e' kSymbol)) \<subseteq> set resting_ids \<union> (if may_rest ty \<and> i \<noteq> 0 then {i} else {})"
    using submit_ids [OF e(1) price' k sub(1)] e(3) by (auto split: if_splits)
  then show thesis using that [of i e'] sub submit_frame(2) [OF sub(1)] e(2) by simp
qed

lemma bench_op_inv:
  assumes inv: "driver_inv k st" and k: "k + 1 < 2 ^ 64"
  shows "\<exists>st'. bench_op now op off st = Some st' \<and> driver_inv (k + 1) st'"
proof -
  obtain e resting_ids where st: "st = (e, resting_ids)" by fastforce
  have mono: "driver_inv (k + 1) st'" if "driver_inv k st'" for st'
    using that engine_inv_mono [of k _ "k + 1"] by (auto simp: driver_inv_def)
  have p: "\<exists>st'. passive_order now side off st = Some st' \<and> driver_inv (k + 1) st'" for side
  proof (cases "kDepth \<le> length resting_ids")
    case True
    then have "resting_ids \<noteq> []" by (auto simp: kDepth_def)
    then show ?thesis using True inv retire_inv [OF inv] mono by (simp add: st passive_order_def)
  next
    case False
    obtain i e' where "submit_order now kSymbol side Limit (level_price side off) 100 (e, ()) = Some (i, e', ())" "engine_inv (k + 1) e'"
      "trade_callback e' = None" "a_ids (abs_book (book_of e' kSymbol)) \<subseteq> set resting_ids \<union> (if may_rest Limit \<and> i \<noteq> 0 then {i} else {})"
      by (rule submit_driver [OF inv [unfolded st] level_price_number k])
    then show ?thesis using False inv by (auto simp: st passive_order_def driver_inv_def may_rest_def)
  qed
  have "\<exists>st'. aggress now off st = Some st' \<and> driver_inv (k + 1) st'"
  proof -
    define side where "side = (if even (sint off) then Buy else Sell)"
    obtain i e' where "submit_order now kSymbol side IOC (level_price (if side = Buy then Sell else Buy) kBand) 300 (e, ()) = Some (i, e', ())"
      "engine_inv (k + 1) e'" "trade_callback e' = None"
      "a_ids (abs_book (book_of e' kSymbol)) \<subseteq> set resting_ids \<union> (if may_rest IOC \<and> i \<noteq> 0 then {i} else {})"
      by (rule submit_driver [OF inv [unfolded st] level_price_number k])
    then show ?thesis using inv by (auto simp: st aggress_def driver_inv_def may_rest_def Let_def simp flip: side_def)
  qed
  then show ?thesis using p mono [OF inv] mono [OF retire_inv [OF inv]] by (cases op) auto
qed

text \<open>The driver is one more client of the engine in the sense of \<open>message_handler\<close>.\<close>

interpretation bench: message_handler driver_inv "\<lambda>_. True" "\<lambda>(now, op, off) st. map_option (Pair ()) (bench_op now op off st)" "2 ^ 64"
proof (unfold_locales, clarify, goal_cases)
  case (1 k e resting_ids now op off)
  from bench_op_inv [OF 1(1,3), of now op off] show ?case by auto
qed

lemma throughput_loop_run_all:
  "throughput_loop now k ops st = map_option snd (run_all (\<lambda>(now, op, off) st. map_option (Pair ()) (bench_op now op off st))
     (map (\<lambda>i. (now (k + i), ops ! i)) [0..<length ops]) st)"
proof (induction ops arbitrary: k st)
  case (Cons op ops)
  have "map (\<lambda>i. (now (k + i), (op # ops) ! i)) [0..<length (op # ops)] =
    (now k, op) # map (\<lambda>i. (now (Suc k + i), ops ! i)) [0..<length ops]"
    by (simp add: upt_conv_Cons map_Suc_upt [symmetric] del: upt_Suc)
  then show ?case using Cons [of "Suc k"] by (cases op) (simp del: upt_Suc split: option.split)
qed simp

lemma driver_inv_new: "driver_inv 1 (MatchingEngine_new, [])"
  using engine_inv_new
  by (simp add: driver_inv_def book_of_eq) (simp add: MatchingEngine_new_def OrderBook_new_def a_ids_def abs_book_def queue_def ptrs_def levels_def)

lemma throughput_loop_inv:
  assumes "1 + length ops < 2 ^ 64"
  shows "\<exists>st. throughput_loop now 0 ops (MatchingEngine_new, []) = Some st \<and> driver_inv (1 + length ops) st"
proof -
  let ?ms = "map (\<lambda>i. (now (0 + i), ops ! i)) [0..<length ops]"
  have "1 + length ?ms < 2 ^ 64" using assms by simp
  from bench.run_all_handles [OF driver_inv_new _ this] obtain rs st where
    "run_all (\<lambda>(now, op, off) st. map_option (Pair ()) (bench_op now op off st)) ?ms (MatchingEngine_new, []) = Some (rs, st)"
    "driver_inv (1 + length ?ms) st" by auto
  then show ?thesis using throughput_loop_run_all [of now 0 ops "(MatchingEngine_new, [])"] by auto
qed

section \<open>Properties\<close>

text \<open>C29. The benchmark runs to its end and keeps the book within its target depth: at no point does the driver track, or the book hold,
  more than 50000 orders, and the engine's invariant holds.\<close>

theorem bench_depth_capped:
  assumes "1 + length ops < 2 ^ 64"
  shows "\<exists>e resting_ids. throughput_loop now 0 (zip ops offsets) (MatchingEngine_new, []) = Some (e, resting_ids) \<and> engine_ok e
    \<and> order_count (book_of e kSymbol) \<le> length resting_ids \<and> length resting_ids \<le> 50000"
proof -
  have "1 + length (zip ops offsets) < 2 ^ 64" using assms by simp
  from throughput_loop_inv [OF this, of now] obtain e resting_ids where
    run: "throughput_loop now 0 (zip ops offsets) (MatchingEngine_new, []) = Some (e, resting_ids)" and inv: "driver_inv (1 + length (zip ops offsets)) (e, resting_ids)"
    by auto
  have ok: "engine_ok e" and ids: "a_ids (abs_book (book_of e kSymbol)) \<subseteq> set resting_ids" "length resting_ids \<le> kDepth"
    using inv by (simp_all add: driver_inv_def engine_inv_def)
  have "order_count (book_of e kSymbol) = card (a_ids (abs_book (book_of e kSymbol)))"
    using engine_ok_book [OF ok, of kSymbol] by (intro order_count_ids) (simp add: book_inv_def)
  also have "\<dots> \<le> card (set resting_ids)" using ids(1) by (intro card_mono) simp_all
  also have "\<dots> \<le> length resting_ids" by (rule card_length)
  finally show ?thesis using run ok ids(2) by (simp add: kDepth_def)
qed

theorem bench_depth_capped_witness:
  "\<exists>e resting_ids. throughput_loop (\<lambda>_ _. 0) 0 (zip (build_workload by_reduction 60000 12345) (build_offsets by_reduction 60000 6789)) (MatchingEngine_new, []) = Some (e, resting_ids)
    \<and> engine_ok e \<and> order_count (book_of e kSymbol) \<le> length resting_ids \<and> length resting_ids \<le> 50000"
  by (rule bench_depth_capped) simp

text \<open>Both phases, side by side.\<close>

definition drivers_agree :: "nat \<Rightarrow> driver \<Rightarrow> driver \<Rightarrow> bool" where
  "drivers_agree k st1 st2 \<longleftrightarrow> driver_inv k st1 \<and> driver_inv k st2 \<and> same_engine (fst st1) (fst st2) \<and> snd st1 = snd st2"

lemma submit_agree:
  assumes agree: "drivers_agree k (e1, ids) (e2, ids)" and price: "\<not> is_nan price" and k: "k + 1 < 2 ^ 64"
  obtains i e1' e2' where "submit_order now1 kSymbol sd ty price q (e1, ()) = Some (i, e1', ())"
    and "submit_order now2 kSymbol sd ty price q (e2, ()) = Some (i, e2', ())" and "same_engine e1' e2'"
proof -
  have inv: "engine_inv k e1" "engine_inv k e2" and same: "same_engine e1 e2" and cb: "trade_callback e1 = None" "trade_callback e2 = None"
    using agree by (simp_all add: drivers_agree_def driver_inv_def)
  have "ty = Market \<or> \<not> is_nan price" "pred_option ignores_time None" using price by simp_all
  from submit_untimed [OF inv k this(1) same cb this(2), of now1 kSymbol sd q "()" now2] that show thesis by (metis (full_types) old.unit.exhaust)
qed

lemma bench_op_agree:
  assumes agree: "drivers_agree k st1 st2" and k: "k + 1 < 2 ^ 64"
  obtains st1' st2' where "bench_op now1 op off st1 = Some st1'" and "bench_op now2 op off st2 = Some st2'" and "drivers_agree (k + 1) st1' st2'"
proof -
  obtain e1 e2 ids where st: "st1 = (e1, ids)" "st2 = (e2, ids)" using agree by (cases st1; cases st2) (simp add: drivers_agree_def)
  have inv: "driver_inv k st1" "driver_inv k st2" using agree by (simp_all add: drivers_agree_def)
  obtain st1' where 1: "bench_op now1 op off st1 = Some st1'" "driver_inv (k + 1) st1'" using bench_op_inv [OF inv(1) k] by blast
  obtain st2' where 2: "bench_op now2 op off st2 = Some st2'" "driver_inv (k + 1) st2'" using bench_op_inv [OF inv(2) k] by blast
  have same: "same_engine e1 e2" and ok: "engine_ok e1" "engine_ok e2" using agree by (simp_all add: st drivers_agree_def driver_inv_def engine_inv_def)
  note cancel = cancel_untimed(2) [OF ok same, of kSymbol]
  have pass: "same_engine (fst st1') (fst st2') \<and> snd st1' = snd st2'"
    if "passive_order now1 side off st1 = Some st1'" "passive_order now2 side off st2 = Some st2'" for side
  proof -
    obtain i e1' e2' where "submit_order now1 kSymbol side Limit (level_price side off) 100 (e1, ()) = Some (i, e1', ())"
      "submit_order now2 kSymbol side Limit (level_price side off) 100 (e2, ()) = Some (i, e2', ())" "same_engine e1' e2'"
      by (rule submit_agree [OF agree [unfolded st] level_price_number k])
    with that cancel show ?thesis by (auto simp: st passive_order_def retire_def split: if_splits)
  qed
  have cross: "same_engine (fst st1') (fst st2') \<and> snd st1' = snd st2'"
    if "aggress now1 off st1 = Some st1'" "aggress now2 off st2 = Some st2'"
  proof -
    define side where "side = (if even (sint off) then Buy else Sell)"
    obtain i e1' e2' where "submit_order now1 kSymbol side IOC (level_price (if side = Buy then Sell else Buy) kBand) 300 (e1, ()) = Some (i, e1', ())"
      "submit_order now2 kSymbol side IOC (level_price (if side = Buy then Sell else Buy) kBand) 300 (e2, ()) = Some (i, e2', ())" "same_engine e1' e2'"
      by (rule submit_agree [OF agree [unfolded st] level_price_number k])
    with that show ?thesis by (auto simp: st aggress_def Let_def simp flip: side_def)
  qed
  have "same_engine (fst st1') (fst st2') \<and> snd st1' = snd st2'"
    using 1(1) 2(1) same cancel pass cross by (cases op) (auto simp: st retire_def split: if_splits)
  then show thesis using that 1 2 by (simp add: drivers_agree_def)
qed

lemma loops_agree:
  assumes "drivers_agree n st1 st2" and "n + length ops < 2 ^ 64"
  shows "\<exists>st1' st2'. throughput_loop now1 k ops st1 = Some st1'
    \<and> latency_loop api now2 timer k ops (st2, h) =
        Some (st2', foldl (hdr_record_value api) h (map (\<lambda>i. snd (timer i) - fst (timer i)) [k..<k + length ops]))
    \<and> drivers_agree (n + length ops) st1' st2'"
  using assms
proof (induction ops arbitrary: n k st1 st2 h)
  case (Cons op ops)
  obtain o1 off where op: "op = (o1, off)" by fastforce
  obtain st1' st2' where st': "bench_op (now1 k) o1 off st1 = Some st1'" "bench_op (now2 k) o1 off st2 = Some st2'" "drivers_agree (n + 1) st1' st2'"
    by (rule bench_op_agree [OF Cons.prems(1)]) (use Cons.prems(2) in auto)
  have "[k..<k + length (op # ops)] = k # [Suc k..<Suc k + length ops]" by (simp add: upt_conv_Cons del: upt_Suc)
  then show ?case using Cons.IH [OF st'(3), of "Suc k"] Cons.prems(2) st'(1,2) by (simp add: op del: upt_Suc)
qed simp

text \<open>Both phases of the benchmark execute the same operations: whatever the clocks read, they end with the same counters,
  latencies apart, and the second phase records one sample per operation.\<close>

theorem bench_phases_agree:
  assumes "1 + length ops < 2 ^ 64" and "length offsets = length ops"
  shows "\<exists>r1 r2 hist'. run_throughput now1 sec1 ops offsets = Some r1 \<and> run_latency api now2 timer sec2 ops offsets hist = Some (r2, hist')
    \<and> ops_executed r1 = ops_executed r2 \<and> untimed_stats (run_stats r1) = untimed_stats (run_stats r2)
    \<and> hist' = foldl (hdr_record_value api) hist (map (\<lambda>i. snd (timer i) - fst (timer i)) [0..<length ops])"
proof -
  have "drivers_agree 1 (MatchingEngine_new, []) (MatchingEngine_new, [])"
    using driver_inv_new by (simp add: drivers_agree_def same_engine_def same_books_def)
  moreover have "1 + length (zip ops offsets) < 2 ^ 64" using assms by simp
  ultimately obtain st1 st2 where "throughput_loop now1 0 (zip ops offsets) (MatchingEngine_new, []) = Some st1"
    "latency_loop api now2 timer 0 (zip ops offsets) ((MatchingEngine_new, []), hist) =
        Some (st2, foldl (hdr_record_value api) hist (map (\<lambda>i. snd (timer i) - fst (timer i)) [0..<0 + length (zip ops offsets)]))"
    "drivers_agree (1 + length (zip ops offsets)) st1 st2"
    using loops_agree [of 1 "(MatchingEngine_new, [])" "(MatchingEngine_new, [])" "zip ops offsets" now1 0 api now2 timer hist] by blast
  then show ?thesis using assms(2)
    by (cases st1; cases st2) (simp add: run_throughput_def run_latency_def drivers_agree_def same_engine_def)
qed

theorem bench_phases_agree_witness:
  "\<exists>r1 r2 hist'. run_throughput (\<lambda>_ _. 0) dzero [PassiveBuy, Aggress] [7, 3] = Some r1
    \<and> run_latency list_api (\<lambda>_ k. of_nat k) (\<lambda>i. (0, of_nat i + 5)) dzero [PassiveBuy, Aggress] [7, 3] [] = Some (r2, hist')
    \<and> ops_executed r1 = ops_executed r2 \<and> untimed_stats (run_stats r1) = untimed_stats (run_stats r2) \<and> hist' = [5, 6]"
proof -
  have "1 + length [PassiveBuy, Aggress] < 2 ^ 64" "length [7, 3 :: 32 word] = length [PassiveBuy, Aggress]" by simp_all
  from bench_phases_agree [OF this, of "\<lambda>_ _. 0" dzero list_api "\<lambda>_ k. of_nat k" "\<lambda>i. (0, of_nat i + 5)" dzero "[]"]
  show ?thesis by (simp add: list_api_def)
qed

end
