(* ===== verification/BenchmarkMain.thy ===== *)
theory BenchmarkMain
  imports Benchmark Programs
begin

text \<open>
  \<^verbatim>\<open>main\<close> of \<^verbatim>\<open>benchmarks/bench_throughput.cpp\<close>: the arguments, the two phases and the report. The clocks, the elapsed
  times, the samples of the timer and whether the CSV file can be opened are arguments; \<^verbatim>\<open>printf\<close> conversions are the
  functions of \<open>Output\<close>. Allocation is taken to succeed.
\<close>

section \<open>The program\<close>

text \<open>\<^verbatim>\<open>std::strtoull\<close> without a look at its error: no digits give 0, a number that does not fit gives the largest one, and
  a minus sign negates modulo $2^{64}$.\<close>

definition strtoull :: "string \<Rightarrow> uint64" where
  "strtoull s = (case strtoint s of None \<Rightarrow> 0
     | Some (neg, v) \<Rightarrow> if 2 ^ 64 \<le> v then - 1 else if neg then - of_nat v else of_nat v)"

definition llu :: "uint64 \<Rightarrow> string" where "llu x = show_nat (unat x)"

definition lld :: "64 word \<Rightarrow> string" where "lld x = show_int (sint x)"

definition rate :: "RunResult \<Rightarrow> double" where
  "rate r = ddiv (of_uint (ops_executed r)) (elapsed_sec r)"

definition millions :: "double \<Rightarrow> double" where
  "millions x = ddiv x (dlit 1000000 1)"

definition workload_line :: "uint64 \<Rightarrow> string" where
  "workload_line n_ops = ''workload            : '' @ llu n_ops @
     '' operations (35% passive buy, 35% passive sell, 20% cancel, 10% IOC cross)'' @ newline"

definition throughput_report :: "RunResult \<Rightarrow> string" where
  "throughput_report tp = concat
     [newline, ''[phase 1] sustained throughput (no per-op instrumentation)'', newline,
      ''  wall clock        : '', show_fixed 3 (elapsed_sec tp), '' s'', newline,
      ''  operations        : '', llu (ops_executed tp), newline,
      ''  throughput        : '', show_fixed 0 (rate tp), '' ops/sec ('', show_fixed 2 (millions (rate tp)), ''M ops/sec)'', newline,
      ''  orders submitted  : '', llu (total_orders (run_stats tp)), newline,
      ''  cancels           : '', llu (total_cancels (run_stats tp)), newline,
      ''  trades            : '', llu (total_trades (run_stats tp)), newline,
      ''  shares traded     : '', llu (total_volume (run_stats tp)), newline]"

definition latency_lines :: "'h hdr_api \<Rightarrow> 'h \<Rightarrow> RunResult \<Rightarrow> string" where
  "latency_lines api h lat = concat
     [newline, ''[phase 2] latency distribution (two clock reads per op)'', newline,
      ''  samples           : '', lld (hdr_total_count api h), newline,
      ''  min               : '', lld (hdr_min api h), '' ns'', newline,
      ''  p50               : '', lld (hdr_value_at_percentile api h (dlit 50 1)), '' ns'', newline,
      ''  p90               : '', lld (hdr_value_at_percentile api h (dlit 90 1)), '' ns'', newline,
      ''  p99               : '', lld (hdr_value_at_percentile api h (dlit 99 1)), '' ns'', newline,
      ''  p99.9             : '', lld (hdr_value_at_percentile api h (dlit 999 10)), '' ns'', newline,
      ''  max               : '', lld (hdr_max api h), '' ns'', newline,
      ''  mean              : '', show_fixed 1 (hdr_mean api h), '' ns'', newline,
      ''  instrumented rate : '', show_fixed 2 (millions (rate lat)), ''M ops/sec (lower than phase 1 by the cost of timestamping)'', newline]"

text \<open>What a run of the program reads from the machine.\<close>

record bench_world =
  clock1 :: "nat \<Rightarrow> clock"
  elapsed1 :: double
  clock2 :: "nat \<Rightarrow> clock"
  timer2 :: "nat \<Rightarrow> 64 word \<times> 64 word"
  elapsed2 :: double
  csv_opens :: "string \<Rightarrow> bool"

definition bench_ops :: "string list \<Rightarrow> uint64" where
  "bench_ops argv = (if 1 < length argv then strtoull (argv ! 1) else 5000000)"

definition bench_csv :: "'h hdr_api \<Rightarrow> bench_world \<Rightarrow> string \<Rightarrow> out list \<Rightarrow> outcome" where
  "bench_csv api w csv printed =
     (if csv = [] then Exit printed
      else if csv_opens w csv then Exit (printed @ [Text (newline @ ''full distribution written to '' @ csv @ newline)])
      else Terminated printed (''LatencyHistogram: cannot open '' @ csv))"

definition bench_main :: "'n distributions \<Rightarrow> 'h hdr_api \<Rightarrow> bench_world \<Rightarrow> string list \<Rightarrow> outcome option" where
  "bench_main D api w argv =
     (let n_ops = bench_ops argv;
          csv = (if 2 < length argv then argv ! 2 else []);
          ops = build_workload D (unat n_ops) 12345;
          offsets = build_offsets D (unat n_ops) 6789
      in case run_throughput (clock1 w) (elapsed1 w) ops offsets of
           None \<Rightarrow> None
         | Some tp \<Rightarrow>
             (let printed = [Text (workload_line n_ops), Text (throughput_report tp)]
              in case hdr_init api 1 60000000000 3 of
                   None \<Rightarrow> Some (Terminated printed ''LatencyHistogram: hdr_init failed'')
                 | Some h0 \<Rightarrow>
                     (case run_latency api (clock2 w) (timer2 w) (elapsed2 w) ops offsets h0 of
                        None \<Rightarrow> None
                      | Some (lat, h) \<Rightarrow> Some (bench_csv api w csv (printed @ [Text (latency_lines api h lat)])))))"

section \<open>What it reports\<close>

text \<open>What the program relies on of the histogram: a fresh one is empty, and recording a value of the range it was made for
  counts one sample.\<close>

definition trackable :: "64 word \<Rightarrow> bool" where
  "trackable v \<longleftrightarrow> 0 \<le> sint v \<and> sint v \<le> 60000000000"

definition counts_samples :: "'h hdr_api \<Rightarrow> bool" where
  "counts_samples api \<longleftrightarrow> (\<forall>h. hdr_init api 1 60000000000 3 = Some h \<longrightarrow> hdr_total_count api h = 0)
     \<and> (\<forall>h v. trackable v \<longrightarrow> hdr_total_count api (hdr_record_value api h v) = hdr_total_count api h + 1)"

lemma samples_counted:
  assumes "counts_samples api" and "\<forall>v \<in> set vs. trackable v"
  shows "hdr_total_count api (foldl (hdr_record_value api) h vs) = hdr_total_count api h + of_nat (length vs)"
  using assms(2) by (induction vs arbitrary: h) (use assms(1) in \<open>auto simp: counts_samples_def\<close>)

text \<open>A benchmark whose samples all fit the histogram reports what it says it measures, and its runs are reproducible: both
  phases execute the number of operations asked for, the second takes a sample of each, both leave the engine with the
  same counters, and these are the same in every run, whatever the clocks.\<close>

theorem bench_reproducible:
  assumes n: "unat (bench_ops argv) + 1 < 2 ^ 64" and api: "counts_samples api" and init: "hdr_init api 1 60000000000 3 = Some h0"
  shows "\<exists>st. \<forall>w. (\<forall>i. trackable (snd (timer2 w i) - fst (timer2 w i))) \<longrightarrow>
    (\<exists>tp lat h. bench_main D api w argv = Some (bench_csv api w (if 2 < length argv then argv ! 2 else [])
        [Text (workload_line (bench_ops argv)), Text (throughput_report tp), Text (latency_lines api h lat)])
      \<and> ops_executed tp = bench_ops argv \<and> ops_executed lat = bench_ops argv \<and> hdr_total_count api h = bench_ops argv
      \<and> untimed_stats (run_stats tp) = st \<and> untimed_stats (run_stats lat) = st)"
proof -
  let ?ops = "build_workload D (unat (bench_ops argv)) 12345" and ?offsets = "build_offsets D (unat (bench_ops argv)) 6789"
  have len: "1 + length ?ops < 2 ^ 64" "length ?offsets = length ?ops" using n by simp_all
  obtain r0 where r0: "run_throughput (\<lambda>_ _. 0) dzero ?ops ?offsets = Some r0"
    using bench_phases_agree [OF len, of "\<lambda>_ _. 0" dzero api "\<lambda>_ _. 0" "\<lambda>_. (0, 0)" dzero h0] by blast
  show ?thesis
  proof (intro exI [of _ "untimed_stats (run_stats r0)"] allI impI)
    fix w :: bench_world
    assume w: "\<forall>i. trackable (snd (timer2 w i) - fst (timer2 w i))"
    obtain tp lat h where tp: "run_throughput (clock1 w) (elapsed1 w) ?ops ?offsets = Some tp"
      and lat: "run_latency api (clock2 w) (timer2 w) (elapsed2 w) ?ops ?offsets h0 = Some (lat, h)"
      and same: "ops_executed tp = ops_executed lat" "untimed_stats (run_stats tp) = untimed_stats (run_stats lat)"
      and h: "h = foldl (hdr_record_value api) h0 (map (\<lambda>i. snd (timer2 w i) - fst (timer2 w i)) [0..<length ?ops])"
      using bench_phases_agree [OF len, of "clock1 w" "elapsed1 w" api "clock2 w" "timer2 w" "elapsed2 w" h0] by blast
    have "untimed_stats (run_stats r0) = untimed_stats (run_stats lat)"
      using bench_phases_agree [OF len, of "\<lambda>_ _. 0" dzero api "clock2 w" "timer2 w" "elapsed2 w" h0] r0 lat by auto
    moreover have "ops_executed tp = bench_ops argv" using tp by (auto simp: run_throughput_def split: option.splits)
    moreover have "hdr_total_count api h = bench_ops argv"
      using samples_counted [OF api, of "map (\<lambda>i. snd (timer2 w i) - fst (timer2 w i)) [0..<length ?ops]" h0] w api init
      by (simp add: h counts_samples_def)
    ultimately show "\<exists>tp lat h. bench_main D api w argv = Some (bench_csv api w (if 2 < length argv then argv ! 2 else [])
        [Text (workload_line (bench_ops argv)), Text (throughput_report tp), Text (latency_lines api h lat)])
      \<and> ops_executed tp = bench_ops argv \<and> ops_executed lat = bench_ops argv \<and> hdr_total_count api h = bench_ops argv
      \<and> untimed_stats (run_stats tp) = untimed_stats (run_stats r0) \<and> untimed_stats (run_stats lat) = untimed_stats (run_stats r0)"
      using tp lat same init by (auto simp: bench_main_def Let_def)
  qed
qed

theorem bench_reproducible_witness:
  "let w = \<lparr>clock1 = (\<lambda>_ _. 0), elapsed1 = dlit 1 1, clock2 = (\<lambda>_ _. 0), timer2 = (\<lambda>i. (0, 7)), elapsed2 = dlit 2 1, csv_opens = (\<lambda>_. True)\<rparr>
   in \<exists>tp lat h. bench_main by_reduction list_api w [''bench_throughput''] = Some (Exit
        [Text (workload_line 5000000), Text (throughput_report tp), Text (latency_lines list_api h lat)])
    \<and> ops_executed tp = 5000000 \<and> hdr_total_count list_api h = 5000000"
proof -
  define w where "w = \<lparr>clock1 = (\<lambda>_ _. 0), elapsed1 = dlit 1 1, clock2 = (\<lambda>_ _. 0), timer2 = (\<lambda>i. (0, 7)), elapsed2 = dlit 2 1,
    csv_opens = (\<lambda>_. True)\<rparr>"
  have ops: "bench_ops [''bench_throughput''] = 5000000" by (simp add: bench_ops_def)
  have "counts_samples list_api" "hdr_init list_api 1 60000000000 3 = Some []" by (simp_all add: counts_samples_def list_api_def)
  from bench_reproducible [OF _ this, of "[''bench_throughput'']" by_reduction, unfolded ops]
  obtain st where "\<forall>w. (\<forall>i. trackable (snd (timer2 w i) - fst (timer2 w i))) \<longrightarrow>
    (\<exists>tp lat h. bench_main by_reduction list_api w [''bench_throughput''] = Some (bench_csv list_api w []
        [Text (workload_line 5000000), Text (throughput_report tp), Text (latency_lines list_api h lat)])
      \<and> ops_executed tp = 5000000 \<and> ops_executed lat = 5000000 \<and> hdr_total_count list_api h = 5000000
      \<and> untimed_stats (run_stats tp) = st \<and> untimed_stats (run_stats lat) = st)" by auto
  moreover have "\<forall>i. trackable (snd (timer2 w i) - fst (timer2 w i))" by (simp add: w_def trackable_def)
  ultimately show ?thesis unfolding w_def [symmetric] Let_def by (simp add: bench_csv_def) blast
qed

end
