(* ===== verification/Quotes.thy ===== *)
theory Quotes
  imports EngineRuns Output
begin

text \<open>
  The quotes of a book as numbers: \<^verbatim>\<open>spread\<close> and \<^verbatim>\<open>mid_price\<close> of \<^verbatim>\<open>src/core/OrderBook.cpp\<close> are computed in floating point
  from the best bid and the best ask. Rounding is monotone, so it cannot move the mid price past either of them.
\<close>

section \<open>Positive doubles\<close>

lemma positive_double:
  assumes "0 < rank x" and "\<not> is_nan x"
  shows "\<not> sign_bit x" and "0 < units x" and "rank x = int (unat (mag x))"
  using assms units_zero [of x] nonzero_positive [OF assms(1)] by (auto simp: rank_def nonzero_def split: if_splits)

lemma finite_units:
  assumes "\<not> is_nan x" and "units x < 2 ^ 1900"
  shows "finite_double x"
proof -
  have "(2 :: nat) ^ 1900 \<le> 2 ^ 52 * 2 ^ (2047 - 1)" by (simp only: flip: power_add) (rule power_increasing, simp_all)
  then have "mag x \<noteq> inf_mag" using assms(2) by (auto simp: units_def inf_mag_def)
  then show ?thesis using assms(1) by (simp add: finite_double_def is_inf_def)
qed

text \<open>A sum of units that does not overflow, and its half.\<close>

lemma of_ratio_unat:
  assumes "n < 2 ^ 1990" and "0 < d"
  shows "unat (mag (of_ratio False n d)) = round_ratio n d" and "finite_double (of_ratio False n d)" and "\<not> sign_bit (of_ratio False n d)"
proof -
  have "n div d < 2 ^ 1990" using div_le_dividend [of n d] assms(1) by linarith
  from of_ratio_finite [OF assms(2) this, of False]
  show "unat (mag (of_ratio False n d)) = round_ratio n d" "finite_double (of_ratio False n d)" "\<not> sign_bit (of_ratio False n d)" by simp_all
qed

lemma units_form:
  obtains m k where "units x = m * 2 ^ k" and "m < 2 ^ 53" and "k = 0 \<or> 0 < m"
proof (cases "unat (mag x) div 2 ^ 52 = 0")
  case True
  have "unat (mag x) mod 2 ^ 52 < 2 ^ 52" by simp
  then show thesis using True by (intro that [of "unat (mag x) mod 2 ^ 52" 0]) (simp_all add: units_def)
next
  case False
  have "unat (mag x) mod 2 ^ 52 < 2 ^ 52" by simp
  then have "unat (mag x) mod 2 ^ 52 + 2 ^ 52 < 2 ^ 53" by simp
  then show thesis using False by (intro that [of "unat (mag x) mod 2 ^ 52 + 2 ^ 52" "unat (mag x) div 2 ^ 52 - 1"]) (simp_all add: units_def)
qed

lemma units_double:
  assumes "units x < 2 ^ 1800"
  shows "units (of_ratio False (2 * units x) 1) = 2 * units x"
proof -
  obtain m k where m: "units x = m * 2 ^ k" "m < 2 ^ 53" "k = 0 \<or> 0 < m" by (rule units_form)
  have "k < 1800"
  proof (cases "k = 0")
    case False
    then have "2 ^ k \<le> units x" using m by simp
    then have "(2 :: nat) ^ k < 2 ^ 1800" using assms by (rule order_le_less_trans)
    then show ?thesis by (rule power_less_imp_less_exp [rotated]) simp
  qed simp
  then show ?thesis using of_ratio_exact [OF m(2), of "k + 1" 1 False] by (simp add: m(1) mult_ac)
qed

lemma rounded_le:
  assumes "n \<le> n'" and "n' < 2 ^ 1990"
  shows "units (of_ratio False n 1) \<le> units (of_ratio False n' 1)"
proof -
  have n: "n < 2 ^ 1990" using assms by linarith
  show ?thesis unfolding units_le_iff word_le_nat_alt of_ratio_unat(1) [OF n zero_less_one] of_ratio_unat(1) [OF assms(2) zero_less_one]
    by (rule round_ratio_mono [OF zero_less_one assms(1)])
qed

lemma rounded_half:
  assumes "2 * units x \<le> n" and "n \<le> 2 * units y" and "n < 2 ^ 1990" and "rank x = int (unat (mag x))" and "rank y = int (unat (mag y))"
  shows "rank x \<le> rank (of_ratio False n 2)" and "rank (of_ratio False n 2) \<le> rank y"
proof -
  have half: "round_ratio (2 * units z) 2 = unat (mag z)" for z
    using round_ratio_scale [of 2 "units z" 1] round_units [of z] by (simp add: mult.commute)
  have "rank (of_ratio False n 2) = int (unat (mag (of_ratio False n 2)))" using of_ratio_unat(3) [OF assms(3), of 2] by (simp add: rank_def)
  then have r: "rank (of_ratio False n 2) = int (round_ratio n 2)" by (simp only: of_ratio_unat(1) [OF assms(3), of 2] zero_less_numeral)
  have "round_ratio (2 * units x) 2 \<le> round_ratio n 2" "round_ratio n 2 \<le> round_ratio (2 * units y) 2"
    using assms(1,2) by (simp_all add: round_ratio_mono)
  then show "rank x \<le> rank (of_ratio False n 2)" "rank (of_ratio False n 2) \<le> rank y"
    unfolding half assms(4,5) r by (simp_all only: of_nat_le_iff)
qed

lemma half_sum:
  assumes x: "0 < rank x" "\<not> is_nan x" and y: "0 < rank y" "\<not> is_nan y" "units y < 2 ^ 1800" and le: "units x \<le> units y"
  shows "dle x (ddiv (dadd x y) (dlit 2 1))" and "dle (ddiv (dadd x y) (dlit 2 1)) y"
proof -
  have small: "units x < 2 ^ 1800" using le y(3) by linarith
  note px = positive_double [OF x] and py = positive_double [OF y(1,2)]
  have "(2 :: nat) ^ 1800 + 2 ^ 1800 < 2 ^ 1990" by simp
  then have bound: "units x + units y < 2 ^ 1990" "2 * units y < 2 ^ 1990" using small y(3) by linarith+
  define c where "c = of_ratio False (units x + units y) 1"
  have "(2 :: nat) ^ 1800 \<le> 2 ^ 1900" by (rule power_increasing) simp_all
  then have "finite_double x" "finite_double y" using finite_units [OF x(2)] finite_units [OF y(2)] small y(3) by (auto intro: order_less_le_trans)
  then have c: "dadd x y = c" using px py unfolding c_def by (intro dadd_nonneg) simp_all
  have lo: "2 * units x \<le> units c" and hi: "units c \<le> 2 * units y"
    using rounded_le [of "2 * units x" "units x + units y"] rounded_le [of "units x + units y" "2 * units y"] le bound
    unfolding c_def units_double [OF small] units_double [OF y(3)] by simp_all
  have cb: "units c < 2 ^ 1990" using hi bound(2) by linarith
  have two: "units (dlit 2 1) = 2 * one_units" "finite_double (dlit 2 1)" using whole_double [of 2] by simp_all
  have "ddiv c (dlit 2 1) = of_ratio False (units c * one_units) (2 * one_units)"
    using of_ratio_unat(2,3) [OF bound(1), of 1] two by (simp add: ddiv_def finite_double_def c_def)
  also have "\<dots> = of_ratio False (units c) 2" by (rule of_ratio_scale) simp
  finally have d: "ddiv (dadd x y) (dlit 2 1) = of_ratio False (units c) 2" unfolding c .
  from rounded_half [OF lo hi cb px(3) py(3)] show "dle x (ddiv (dadd x y) (dlit 2 1))" "dle (ddiv (dadd x y) (dlit 2 1)) y"
    unfolding d using x(2) y(2) by (simp_all add: double_cmp)
qed

text \<open>The difference of two doubles is never rounded to zero.\<close>

lemma difference_positive:
  assumes x: "0 < rank x" "finite_double x" and y: "finite_double y" and less: "rank x < rank y"
  shows "dgt (dsub y x) dzero"
proof -
  have nan: "\<not> is_nan x" "\<not> is_nan y" using assms by (simp_all add: finite_double_def)
  have ry: "0 < rank y" using x(1) less by simp
  note px = positive_double [OF x(1) nan(1)] and py = positive_double [OF ry nan(2)]
  have "units x < units y" using less by (simp only: px(3) py(3) of_nat_less_iff units_less_iff word_less_nat_alt)
  then have "dsub y x = of_ratio False (units y - units x) 1" using px py x(2) y by (intro dsub_nonneg)
  moreover have "0 < rank (of_ratio False (units y - units x) 1)" by (rule of_ratio_pos) (use \<open>units x < units y\<close> in simp_all)
  ultimately show ?thesis by (simp add: double_cmp)
qed

section \<open>The quotes of an engine's books\<close>

lemma best_sides: "best True b = best_bid b" "best False b = best_ask b"
  by (simp_all add: best_def)

text \<open>C15. The quotes of every book make sense as numbers: when both sides have orders at positive prices, the best bid is below the
  best ask, the spread is positive, never rounded to zero, and the mid price lies between the two, whatever the
  rounding. The bound on the ask, $2^{726}$, keeps the sum from overflowing.\<close>

theorem quotes_ordered:
  assumes "engine_ok e" and "queue True (book_of e symb) \<noteq> []" and "queue False (book_of e symb) \<noteq> []"
    and "dgt (best_bid (book_of e symb)) dzero" and "units (best_ask (book_of e symb)) < 2 ^ 1800"
  shows "dlt (best_bid (book_of e symb)) (best_ask (book_of e symb)) \<and> dgt (spread (book_of e symb)) dzero
    \<and> dle (best_bid (book_of e symb)) (mid_price (book_of e symb)) \<and> dle (mid_price (book_of e symb)) (best_ask (book_of e symb))"
proof -
  define b where "b = book_of e symb"
  have inv: "book_ok b" "a_inv (abs_book b)" using engine_ok_book [OF assms(1)] by (simp_all add: book_inv_def b_def)
  obtain x xs y ys where q: "queue True b = x # xs" "queue False b = y # ys" using assms(2,3) by (auto simp: b_def neq_Nil_conv)
  have "rank (o_price x) < rank (o_price y)" using inv(2) q by (simp add: a_inv_def uncrossed_def abs_book_def)
  with best_rank(2) [OF inv(1) q(1)] best_rank(2) [OF inv(1) q(2)]
  have nan: "\<not> is_nan (best_bid b)" "\<not> is_nan (best_ask b)" and less: "rank (best_bid b) < rank (best_ask b)" by (simp_all add: best_sides)
  have pos: "0 < rank (best_bid b)" using assms(4) nan by (simp add: double_cmp flip: b_def)
  then have pos': "0 < rank (best_ask b)" using less by simp
  have small: "units (best_ask b) < 2 ^ 1800" using assms(5) by (simp add: b_def)
  have "units (best_bid b) < units (best_ask b)"
    using less by (simp only: positive_double(3) [OF pos nan(1)] positive_double(3) [OF pos' nan(2)] of_nat_less_iff units_less_iff word_less_nat_alt)
  then have le: "units (best_bid b) \<le> units (best_ask b)" by simp
  have "(2 :: nat) ^ 1800 \<le> 2 ^ 1900" by (rule power_increasing) simp_all
  then have fin: "finite_double (best_bid b)" "finite_double (best_ask b)"
    using finite_units [OF nan(1)] finite_units [OF nan(2)] le small by (auto intro: order_less_le_trans order_le_less_trans)
  have "\<not> deq (best_bid b) dzero" "\<not> deq (best_ask b) dzero" using pos pos' nan by (simp_all add: double_cmp)
  then have "spread b = dsub (best_ask b) (best_bid b)" "mid_price b = ddiv (dadd (best_bid b) (best_ask b)) (dlit 2 1)"
    by (simp_all add: spread_def mid_price_def Let_def)
  then show ?thesis using less nan difference_positive [OF pos fin less] half_sum [OF pos nan(1) pos' nan(2) small le]
    by (simp add: double_cmp flip: b_def)
qed

definition p99 :: Price where
  "p99 = Double False 0x4058C00000000000"

theorem quotes_ordered_witness:
  "\<exists>e :: Trade list MatchingEngine. engine_ok e \<and> deq (best_bid (book_of e ''AAPL'')) p99 \<and> deq (best_ask (book_of e ''AAPL'')) p100
    \<and> dgt (spread (book_of e ''AAPL'')) dzero
    \<and> dle (best_bid (book_of e ''AAPL'')) (mid_price (book_of e ''AAPL'')) \<and> dle (mid_price (book_of e ''AAPL'')) (best_ask (book_of e ''AAPL''))"
proof -
  have p99: "\<not> is_nan p99" "rank p99 = 0x4058C00000000000" "accepted Limit p99 5"
    by (simp_all add: p99_def is_nan_def inf_mag_def rank_def accepted_def dle_def dzero_def)
  have sub: "submittable engine1 ''AAPL'' Limit p99" by (simp add: submittable_def p99)
  have "a_submit (incoming_order (\<lambda>_. 0) engine1 ''AAPL'' Buy Limit p99 5) (abs_book (book_of engine1 ''AAPL'')) =
    ([], \<lparr>a_bids = [Order_new 0 2 Buy Limit p99 5], a_asks = [Order_new 0 1 Sell Limit p100 10], a_next = 3\<rparr>)"
    by (simp add: submit_engine1(2) a_submit_def incoming_order_def crosses_def double_cmp p99 enqueue_def insert_after_def
        remainder_def may_rest_def Order_new_def)
  from submit_accepted [OF p99(3) sub this refl, of "[]"] obtain e :: "Trade list MatchingEngine" where e: "engine_ok e"
    "abs_book (book_of e ''AAPL'') = \<lparr>a_bids = [Order_new 0 2 Buy Limit p99 5], a_asks = [Order_new 0 1 Sell Limit p100 10], a_next = 3\<rparr>" by blast
  from e(2) have q: "queue True (book_of e ''AAPL'') = [Order_new 0 2 Buy Limit p99 5]" "queue False (book_of e ''AAPL'') = [Order_new 0 1 Sell Limit p100 10]"
    by (simp_all add: abs_book_def)
  have "book_ok (book_of e ''AAPL'')" using engine_ok_book [OF e(1)] by (simp add: book_inv_def)
  from best_rank(2) [OF this q(1)] best_rank(2) [OF this q(2)]
  have best: "\<not> is_nan (best_bid (book_of e ''AAPL''))" "rank (best_bid (book_of e ''AAPL'')) = rank p99"
    "\<not> is_nan (best_ask (book_of e ''AAPL''))" "rank (best_ask (book_of e ''AAPL'')) = rank p100" by (simp_all add: best_sides)
  have "mag (best_ask (book_of e ''AAPL'')) = mag p100"
    using best(3,4) positive_double(3) [of "best_ask (book_of e ''AAPL'')"] by (simp add: p100_def word_uint_eq_iff rank_def)
  then have "units (best_ask (book_of e ''AAPL'')) = 100 * 2 ^ 1074" by (simp add: units_def p100_def)
  then have "units (best_ask (book_of e ''AAPL'')) < 2 ^ 1800" by simp
  with quotes_ordered [OF e(1), of "''AAPL''"] q best p99 e(1) show ?thesis by (auto simp: double_cmp)
qed

end
