(* ===== verification/Microbench.thy ===== *)
theory Microbench
  imports MessageLoop Quotes
begin

text \<open>
  The microbenchmarks of \<^verbatim>\<open>benchmarks/bench_matching_engine.cpp\<close>. The benchmark library decides how often the body of
  \<^verbatim>\<open>for (auto _ : state)\<close> runs; the number of iterations is an argument here, and timing is left out. Each benchmark claims to
  measure one kind of operation; the theorems say that this is what happens in every iteration. \<open>None\<close> stands for a call
  that does not return.
\<close>

section \<open>The benchmarks\<close>

type_synonym bench = "unit MatchingEngine"

definition submit_aapl :: "clock \<Rightarrow> Side \<Rightarrow> OrderType \<Rightarrow> Price \<Rightarrow> Quantity \<Rightarrow> bench \<Rightarrow> (OrderId \<times> bench) option" where
  "submit_aapl now sd ty price q e =
     (case submit_order now ''AAPL'' sd ty price q (e, ()) of None \<Rightarrow> None | Some (i, e', _) \<Rightarrow> Some (i, e'))"

text \<open>\<^verbatim>\<open>for\<close> loops: the body gets the number of the iteration.\<close>

primrec iterate :: "(nat \<Rightarrow> 'a \<Rightarrow> 'a option) \<Rightarrow> nat \<Rightarrow> 'a \<Rightarrow> 'a option" where
  "iterate body 0 x = Some x"
| "iterate body (Suc n) x = (case iterate body n x of None \<Rightarrow> None | Some y \<Rightarrow> body n y)"

definition bid_price :: "double \<Rightarrow> Price" where
  "bid_price k = dsub (dlit 100 1) (dmul k (dlit 1 100))"

definition ask_price :: "double \<Rightarrow> Price" where
  "ask_price k = dadd (dlit 100 1) (dmul k (dlit 1 100))"

definition insert_iteration :: "(nat \<Rightarrow> clock) \<Rightarrow> nat \<Rightarrow> bench \<Rightarrow> bench option" where
  "insert_iteration now n e =
     (let i = of_nat n :: uint64
      in map_option snd
           (if i mod 2 = 0 then submit_aapl (now n) Buy Limit (bid_price (of_uint (i mod 100))) 100 e
            else submit_aapl (now n) Sell Limit (ask_price (of_uint (i mod 100))) 100 e))"

definition BM_LimitOrderInsert :: "(nat \<Rightarrow> clock) \<Rightarrow> nat \<Rightarrow> bench option" where
  "BM_LimitOrderInsert now iterations = iterate (insert_iteration now) iterations MatchingEngine_new"

definition match_iteration :: "(nat \<Rightarrow> clock) \<Rightarrow> nat \<Rightarrow> bench \<Rightarrow> bench option" where
  "match_iteration now n e =
     (case submit_aapl (now (2 * n)) Sell Limit (dlit 100 1) 100 e of
        None \<Rightarrow> None
      | Some (_, e1) \<Rightarrow> map_option snd (submit_aapl (now (2 * n + 1)) Buy Limit (dlit 100 1) 100 e1))"

definition BM_LimitOrderMatch :: "(nat \<Rightarrow> clock) \<Rightarrow> nat \<Rightarrow> bench option" where
  "BM_LimitOrderMatch now iterations = iterate (match_iteration now) iterations MatchingEngine_new"

definition sell_level :: "(nat \<Rightarrow> clock) \<Rightarrow> nat \<Rightarrow> bench \<Rightarrow> bench option" where
  "sell_level now n e = map_option snd (submit_aapl (now n) Sell Limit (ask_price (of_sint (of_nat n :: 32 word))) 100 e)"

definition market_iteration :: "(nat \<Rightarrow> clock) \<Rightarrow> nat \<Rightarrow> bench \<Rightarrow> bench option" where
  "market_iteration now n e =
     (case submit_aapl (now (2 * n)) Buy Market dzero 100 e of
        None \<Rightarrow> None
      | Some (_, e1) \<Rightarrow> map_option snd (submit_aapl (now (2 * n + 1)) Sell Limit (dlit 100 1) 100 e1))"

definition BM_MarketOrderFill :: "(nat \<Rightarrow> clock) \<Rightarrow> (nat \<Rightarrow> clock) \<Rightarrow> nat \<Rightarrow> bench option" where
  "BM_MarketOrderFill prep now iterations =
     (case iterate (sell_level prep) 1000 MatchingEngine_new of None \<Rightarrow> None | Some e \<Rightarrow> iterate (market_iteration now) iterations e)"

definition buy_level :: "(nat \<Rightarrow> clock) \<Rightarrow> nat \<Rightarrow> bench \<times> OrderId list \<Rightarrow> (bench \<times> OrderId list) option" where
  "buy_level now n = (\<lambda>(e, ids).
     (case submit_aapl (now n) Buy Limit (bid_price (of_sint (of_nat (n mod 100) :: 32 word))) 100 e of
        None \<Rightarrow> None | Some (i, e1) \<Rightarrow> Some (e1, ids @ [i])))"

text \<open>The engine, the ids, the index, and what the cancels have returned so far.\<close>

type_synonym cancel_state = "bench \<times> OrderId list \<times> nat \<times> bool list"

definition cancel_iteration :: "nat \<Rightarrow> (nat \<Rightarrow> nat \<Rightarrow> clock) \<Rightarrow> nat \<Rightarrow> cancel_state \<Rightarrow> cancel_state option" where
  "cancel_iteration batch prep n = (\<lambda>(e, ids, idx, results).
     (if idx < length ids
      then (let (ok, e1) = engine_cancel_order ''AAPL'' (ids ! idx) e in Some (e1, ids, idx + 1, results @ [ok]))
      else (case iterate (buy_level (prep (Suc n))) batch (e, []) of
              None \<Rightarrow> None | Some (e1, ids1) \<Rightarrow> Some (e1, ids1, 0, results))))"

definition BM_CancelOrder :: "(nat \<Rightarrow> nat \<Rightarrow> clock) \<Rightarrow> nat \<Rightarrow> cancel_state option" where
  "BM_CancelOrder prep iterations =
     (case iterate (buy_level (prep 0)) 100000 (MatchingEngine_new, []) of
        None \<Rightarrow> None | Some (e, ids) \<Rightarrow> iterate (cancel_iteration 100000 prep) iterations (e, ids, 0, []))"

text \<open>One iteration; each starts from an engine of its own.\<close>

definition BM_MultiLevelSweep :: "(nat \<Rightarrow> clock) \<Rightarrow> clock \<Rightarrow> nat \<Rightarrow> bench option" where
  "BM_MultiLevelSweep prep now num_levels =
     (case iterate (sell_level prep) num_levels MatchingEngine_new of
        None \<Rightarrow> None
      | Some e \<Rightarrow> map_option snd (submit_aapl now Buy Limit (ask_price (of_sint (of_nat num_levels :: 32 word))) (of_nat num_levels * 100) e))"

section \<open>Prices\<close>

lemma tick_units:
  "10000 * units (dlit 1 100) \<le> 101 * one_units" "2 ^ 1066 \<le> units (dlit 1 100)"
proof -
  define u where "u = units (dlit 1 100)"
  have "2 * \<bar>int (u * 100) - int one_units\<bar> \<le> int (100 * 2 ^ 1021)"
    using quotient_error [of 100 1 0 False] by (simp add: u_def dlit_def)
  then have "2 * \<bar>int (u * 100) - int one_units\<bar> \<le> int (2 * (50 * 2 ^ 1021))" by simp
  moreover have "x \<le> n + d \<and> n \<le> x + d" if "2 * \<bar>int x - int n\<bar> \<le> int (2 * d)" for x n d using that by (simp add: abs_le_iff)
  ultimately have "u * 100 \<le> one_units + 50 * 2 ^ 1021" "one_units \<le> u * 100 + 50 * 2 ^ 1021" by blast+
  moreover have "100 * (one_units + 50 * 2 ^ 1021) \<le> (101 * one_units :: nat)" "(2 ^ 1066 :: nat) * 100 + 50 * 2 ^ 1021 \<le> one_units" by simp_all
  moreover have "10000 * v \<le> 101 * n \<and> m \<le> v" if "v * 100 \<le> n + d" "n \<le> v * 100 + d" "100 * (n + d) \<le> 101 * n" "m * 100 + d \<le> n" for v n d m :: nat
    using that by simp
  ultimately show "10000 * units (dlit 1 100) \<le> 101 * one_units" "2 ^ 1066 \<le> units (dlit 1 100)" unfolding u_def [symmetric] by blast+
qed

text \<open>Ranks of rounded sums, and \<open>k\<close> ticks.\<close>

lemma rank_of_ratio: "n < 2 ^ 1990 \<Longrightarrow> rank (of_ratio False n 1) = int (round_ratio n 1)"
proof -
  assume n: "n < 2 ^ 1990"
  have "rank (of_ratio False n 1) = int (unat (mag (of_ratio False n 1)))" using of_ratio_unat(3) [OF n, of 1] by (simp add: rank_def)
  then show ?thesis by (simp only: of_ratio_unat(1) [OF n zero_less_one])
qed

definition ticks :: "nat \<Rightarrow> double" where
  "ticks k = dmul (dlit k 1) (dlit 1 100)"

lemma ticks_units:
  assumes "k \<le> 1000"
  shows "ticks k = of_ratio False (k * units (dlit 1 100)) 1" and "k * units (dlit 1 100) < 2 ^ 1080" and "k * units (dlit 1 100) \<le> 11 * one_units"
proof -
  have "k * units (dlit 1 100) \<le> 1000 * units (dlit 1 100)" using assms by (rule mult_right_mono) simp
  then show le: "k * units (dlit 1 100) \<le> 11 * one_units" using tick_units(1) by linarith
  have "11 * one_units < (2 ^ 1080 :: nat)" by simp
  then show "k * units (dlit 1 100) < 2 ^ 1080" using le by linarith
  have k: "k < 2 ^ 53" using assms by simp
  have fin: "finite_double (dlit 1 100)" "finite_double (dlit k 1)" using cents_small(2) [of 1] whole_double(2) [OF k] by simp_all
  have "ticks k = of_ratio False (k * one_units * units (dlit 1 100)) one_units"
    using fin unfolding ticks_def dmul_def finite_double_def whole_double(1) [OF k] Let_def by simp
  also have "k * one_units * units (dlit 1 100) = k * units (dlit 1 100) * one_units" by (simp only: mult_ac)
  also have "of_ratio False \<dots> one_units = of_ratio False (k * units (dlit 1 100)) 1"
    using of_ratio_scale [of one_units False "k * units (dlit 1 100)" 1] by (simp only: mult_1) simp
  finally show "ticks k = of_ratio False (k * units (dlit 1 100)) 1" .
qed

lemma power_1990: "(2 :: nat) ^ 1080 < 2 ^ 1990" "(2 :: nat) ^ 1081 < 2 ^ 1990"
  by (rule power_strict_increasing; simp)+

lemma ticks_bounds:
  assumes "k \<le> 1000"
  shows "finite_double (ticks k)" and "\<not> sign_bit (ticks k)" and "units (ticks k) \<le> 11 * one_units"
    and "k \<le> 99 \<Longrightarrow> units (ticks k) \<le> one_units" and "0 < k \<Longrightarrow> 2 ^ 1066 \<le> units (ticks k)"
    and "j \<le> k \<Longrightarrow> units (ticks j) \<le> units (ticks k)"
proof -
  let ?u = "units (dlit 1 100)"
  have n: "k * ?u < 2 ^ 1990" using ticks_units(2) [OF assms] power_1990(1) by linarith
  note t = ticks_units(1) [OF assms]
  show "finite_double (ticks k)" "\<not> sign_bit (ticks k)" unfolding t using of_ratio_unat(2,3) [OF n] by simp_all
  have whole: "units (of_ratio False (m * one_units) 1) = m * one_units" if "m < 2 ^ 53" for m
    using whole_double(1) [OF that] by (simp only: dlit_def)
  have one: "m * one_units < 2 ^ 1990" if "m \<le> 11" for m :: nat
  proof -
    have "m * one_units \<le> 11 * one_units" using that by (rule mult_right_mono) simp
    also have "\<dots> < (2 :: nat) ^ 1080" by simp
    finally show ?thesis using power_1990(1) by linarith
  qed
  show "units (ticks k) \<le> 11 * one_units"
    using rounded_le [OF ticks_units(3) [OF assms] one] whole [of 11] unfolding t by simp
  show "units (ticks k) \<le> one_units" if "k \<le> 99"
  proof -
    have "k * ?u \<le> 99 * ?u" using that by (rule mult_right_mono) simp
    then have "k * ?u \<le> 1 * one_units" using tick_units(1) by linarith
    from rounded_le [OF this one] have "units (ticks k) \<le> units (of_ratio False (1 * one_units) 1)" unfolding t by simp
    also have "\<dots> = 1 * one_units" by (rule whole) simp
    finally show ?thesis by (simp only: mult_1)
  qed
  show "2 ^ 1066 \<le> units (ticks k)" if "0 < k"
  proof -
    have "1 * 2 ^ 1066 \<le> k * ?u" using that tick_units(2) by (intro mult_mono) simp_all
    from rounded_le [OF this n] show ?thesis using of_ratio_exact [of 1 1066 1 False] unfolding t by simp
  qed
  show "units (ticks j) \<le> units (ticks k)" if "j \<le> k"
  proof -
    have "j * ?u \<le> k * ?u" using that by (rule mult_right_mono) simp
    from rounded_le [OF this n] show ?thesis using ticks_units(1) [of j] that assms unfolding t by simp
  qed
qed

abbreviation hundred :: double where
  "hundred \<equiv> dlit 100 1"

lemma hundred: "units hundred = 100 * one_units" "finite_double hundred" "hundred = of_ratio False (100 * one_units) 1"
  using whole_double [of 100] by (simp_all add: dlit_def)

lemma sum_small: "u \<le> 11 * one_units \<Longrightarrow> 100 * one_units + u < 2 ^ 1990" "100 * one_units < (2 ^ 1990 :: nat)"
proof -
  have "100 * one_units + 11 * one_units < (2 :: nat) ^ 1081" by simp
  then show "u \<le> 11 * one_units \<Longrightarrow> 100 * one_units + u < 2 ^ 1990" "100 * one_units < (2 ^ 1990 :: nat)"
    using power_1990(2) by linarith+
qed

lemma above_ratio:
  assumes "k \<le> 1000"
  shows "ask_price (dlit k 1) = of_ratio False (100 * one_units + units (ticks k)) 1"
proof -
  have "0 < units hundred + units (ticks k)" unfolding hundred(1) by simp
  then have "dadd hundred (ticks k) = of_ratio False (units hundred + units (ticks k)) 1"
    using ticks_bounds(1,2) [OF assms] hundred(2) by (intro dadd_nonneg) simp_all
  then show ?thesis by (simp only: ask_price_def ticks_def hundred(1))
qed

lemma below_units: "k \<le> 99 \<Longrightarrow> units (ticks k) < 100 * one_units"
proof -
  assume "k \<le> 99"
  then have "units (ticks k) \<le> one_units" by (intro ticks_bounds(4)) simp_all
  moreover have "one_units < (100 * one_units :: nat)" by simp
  ultimately show ?thesis by linarith
qed

lemma below_ratio:
  assumes "k \<le> 99"
  shows "bid_price (dlit k 1) = of_ratio False (100 * one_units - units (ticks k)) 1"
proof -
  have k: "k \<le> 1000" using assms by simp
  have "units (ticks k) < units hundred" using below_units [OF assms] by (simp only: hundred(1))
  then have "dsub hundred (ticks k) = of_ratio False (units hundred - units (ticks k)) 1"
    using ticks_bounds(1,2) [OF k] hundred(2) by (intro dsub_nonneg) simp_all
  then show ?thesis by (simp only: bid_price_def ticks_def hundred(1))
qed

lemma above_price:
  assumes "k \<le> 1000"
  shows "\<not> is_nan (ask_price (dlit k 1))" and "rank hundred \<le> rank (ask_price (dlit k 1))" and "0 < k \<Longrightarrow> rank hundred < rank (ask_price (dlit k 1))"
    and "j \<le> k \<Longrightarrow> rank (ask_price (dlit j 1)) \<le> rank (ask_price (dlit k 1))"
proof -
  have small: "100 * one_units + units (ticks i) < 2 ^ 1990" if "i \<le> 1000" for i by (rule sum_small(1) [OF ticks_bounds(3) [OF that]])
  have r: "rank (ask_price (dlit i 1)) = int (round_ratio (100 * one_units + units (ticks i)) 1)" if "i \<le> 1000" for i
    by (simp only: above_ratio [OF that] rank_of_ratio [OF small [OF that]])
  have h: "rank hundred = int (round_ratio (100 * one_units) 1)" by (simp only: hundred(3) rank_of_ratio [OF sum_small(2)])
  show "\<not> is_nan (ask_price (dlit k 1))" unfolding above_ratio [OF assms] by simp
  show "rank hundred \<le> rank (ask_price (dlit k 1))" unfolding r [OF assms] h of_nat_le_iff by (rule round_ratio_mono) simp_all
  show "rank (ask_price (dlit j 1)) \<le> rank (ask_price (dlit k 1))" if "j \<le> k"
    unfolding r [OF assms] r [OF order_trans [OF that assms]] of_nat_le_iff
    using ticks_bounds(6) [OF assms that] by (intro round_ratio_mono) simp_all
  show "rank hundred < rank (ask_price (dlit k 1))" if "0 < k"
  proof -
    have "(100 * 2 ^ 8 + 1) * 2 ^ 1066 \<le> 100 * one_units + units (ticks k)" using ticks_bounds(5) [OF assms that] by simp
    from rounded_le [OF this small [OF assms]] have "(100 * 2 ^ 8 + 1) * 2 ^ 1066 \<le> units (ask_price (dlit k 1))"
      using of_ratio_exact [of "100 * 2 ^ 8 + 1" 1066 1 False] unfolding above_ratio [OF assms] by simp
    moreover have "100 * one_units < ((100 * 2 ^ 8 + 1) * 2 ^ 1066 :: nat)" by simp
    ultimately have "units hundred < units (ask_price (dlit k 1))" unfolding hundred(1) by linarith
    then have "unat (mag hundred) < unat (mag (ask_price (dlit k 1)))" by (simp only: units_less_iff word_less_nat_alt)
    then show ?thesis unfolding hundred(3) above_ratio [OF assms] rank_of_ratio [OF sum_small(2)] rank_of_ratio [OF small [OF assms]]
      of_ratio_unat(1) [OF sum_small(2) zero_less_one] of_ratio_unat(1) [OF small [OF assms] zero_less_one] by (simp only: of_nat_less_iff)
  qed
qed

lemma below_price:
  assumes "k \<le> 99"
  shows "\<not> is_nan (bid_price (dlit k 1))" and "0 < rank (bid_price (dlit k 1))" and "rank (bid_price (dlit k 1)) \<le> rank hundred"
proof -
  note lt = below_units [OF assms]
  have small: "100 * one_units - units (ticks k) < 2 ^ 1990" using sum_small(2) by (rule le_less_trans [OF diff_le_self])
  show "\<not> is_nan (bid_price (dlit k 1))" unfolding below_ratio [OF assms] by simp
  show "0 < rank (bid_price (dlit k 1))" unfolding below_ratio [OF assms] using lt by (intro of_ratio_pos) simp_all
  show "rank (bid_price (dlit k 1)) \<le> rank hundred"
    unfolding below_ratio [OF assms] hundred(3) rank_of_ratio [OF sum_small(2)] rank_of_ratio [OF small] of_nat_le_iff
    by (rule round_ratio_mono) simp_all
qed

section \<open>Submissions\<close>

lemma of_sint_small:
  assumes "n < 2 ^ 31"
  shows "of_sint (of_nat n :: 32 word) = dlit n 1"
proof -
  have "sint (of_nat n :: 32 word) = int n" using assms by (simp add: signed_of_nat signed_take_bit_int_eq_self)
  then show ?thesis by (simp only: of_sint_def dlit_def) simp
qed

abbreviation aapl :: "bench \<Rightarrow> bool \<Rightarrow> Order list" where
  "aapl e buy \<equiv> queue buy (book_of e ''AAPL'')"

text \<open>What one submission does to the two queues and the counters.\<close>

lemma submit_aapl_effect:
  assumes inv: "engine_inv k e" and k: "k + 1 < 2 ^ 64" and acc: "accepted ty price q" and nan: "ty = Market \<or> \<not> is_nan price"
    and fill: "fill_queue (crosses (sd = Buy) (effective_price sd ty price)) q (aapl e (sd \<noteq> Buy)) = (fs, q', rs)"
  obtains e' ord where "submit_aapl now sd ty price q e = Some (next_order_id (book_of e ''AAPL''), e')" and "engine_inv (k + 1) e'"
    and "aapl e' (sd \<noteq> Buy) = rs"
    and "aapl e' (sd = Buy) = (if 0 < q' \<and> may_rest ty then enqueue (sd = Buy) ord (aapl e (sd = Buy)) else aapl e (sd = Buy))"
    and "o_id ord = next_order_id (book_of e ''AAPL'')" and "o_remaining_qty ord = q'" and "o_price ord = effective_price sd ty price"
    and "total_trades (stats e') = total_trades (stats e) + of_nat (length fs)"
proof -
  let ?b = "book_of e ''AAPL''" and ?ord = "incoming_order now e ''AAPL'' sd ty price q"
  obtain i e' s' where sub: "submit_order now ''AAPL'' sd ty price q (e, ()) = Some (i, e', s')" "engine_inv (k + 1) e'"
    by (rule submit_engine_inv [OF inv nan k])
  have ok: "submittable e ''AAPL'' ty price" using inv nan next_id_suc(2) [OF inv k] by (simp add: submittable_def engine_inv_def)
  have flds: "o_side ?ord = sd" "o_price ?ord = effective_price sd ty price" "o_remaining_qty ?ord = q" "o_type ?ord = ty"
    by (simp_all add: incoming_order_def)
  note sides = a_submit_sides [of ?ord "abs_book ?b" fs q' rs, unfolded flds a_side_abs, OF fill]
  from submit_accepted [OF acc ok surjective_pairing refl, of now sd "()"] sub(1)
  have e': "i = next_order_id ?b" "abs_book (book_of e' ''AAPL'') = snd (a_submit ?ord (abs_book ?b))"
    "stats e' = record_latency (now (2 + length (trades_of (\<lambda>i. now (2 + i)) 0 (sd = Buy) (next_order_id ?b) fs)) - now 0)
       (fst (fold (record_trade (trade_callback e)) (trades_of (\<lambda>i. now (2 + i)) 0 (sd = Buy) (next_order_id ?b) fs)
         ((stats e)\<lparr>total_orders := total_orders (stats e) + 1\<rparr>, ())))"
    by (auto simp: sides(1))
  have "total_trades (stats e') = total_trades (stats e) + of_nat (length fs)"
    unfolding e'(3) by (simp add: record_trade_totals(4) trades_of_map)
  moreover have "aapl e' s = a_side s (snd (a_submit ?ord (abs_book ?b)))" for s using a_side_abs [of s "book_of e' ''AAPL''"] e'(2) by simp
  ultimately show thesis
    using that [of e' "remainder ?ord q'"] sub e'(1) sides by (simp add: submit_aapl_def remainder_def incoming_order_def)
qed

lemma fill_none: "qs = [] \<or> \<not> match (hd qs) \<Longrightarrow> fill_queue match q qs = ([], q, qs)"
  by (cases qs) auto

lemma fill_all:
  assumes "\<forall>r \<in> set qs. match r \<and> o_remaining_qty r = 100" and "length qs < 2 ^ 20"
  shows "fill_queue match (of_nat (length qs) * 100) qs = (map (\<lambda>r. (r, 100)) qs, 0, [])"
  using assms
proof (induction qs)
  case (Cons r qs)
  let ?n = "length (r # qs)" and ?w = "of_nat (length (r # qs)) * 100 :: Quantity"
  have "unat ?w = ?n * 100" using Cons.prems(2) unfolding unat_word_ariths unat_of_nat by simp
  then have "\<not> unat ?w = 0" "\<not> unat ?w < unat (100 :: Quantity)" by simp_all
  then have "?w \<noteq> 0" "\<not> ?w < 100" by (auto simp only: word_less_nat_alt unat_0)
  moreover have "?w - 100 = of_nat (length qs) * 100" by (simp add: algebra_simps)
  ultimately show ?case using Cons by (simp del: of_nat_Suc)
qed simp

lemma fill_zero [simp]: "fill_queue match 0 qs = ([], 0, qs)"
  by (cases qs) auto

lemma limit_accepted: "0 < rank price \<Longrightarrow> q \<noteq> 0 \<Longrightarrow> accepted ty price q"
  by (auto simp: accepted_def dle_def)

text \<open>A limit order that crosses nothing rests behind the orders of its side.\<close>

lemma submit_rests:
  assumes inv: "engine_inv k e" "k + 1 < 2 ^ 64" and price: "\<not> is_nan price" "0 < rank price"
    and free: "\<forall>r \<in> set (aapl e (sd \<noteq> Buy)). \<not> crosses (sd = Buy) price r"
  obtains e' ord where "submit_aapl now sd Limit price 100 e = Some (next_order_id (book_of e ''AAPL''), e')" and "engine_inv (k + 1) e'"
    and "aapl e' (sd \<noteq> Buy) = aapl e (sd \<noteq> Buy)" and "aapl e' (sd = Buy) = enqueue (sd = Buy) ord (aapl e (sd = Buy))"
    and "o_id ord = next_order_id (book_of e ''AAPL'')" and "o_remaining_qty ord = 100" and "o_price ord = price"
    and "total_trades (stats e') = total_trades (stats e)"
proof -
  have "fill_queue (crosses (sd = Buy) (effective_price sd Limit price)) 100 (aapl e (sd \<noteq> Buy)) = ([], 100, aapl e (sd \<noteq> Buy))"
    using free by (intro fill_none) (cases "aapl e (sd \<noteq> Buy)"; simp)
  from submit_aapl_effect [OF inv limit_accepted [OF price(2)] _ this, of now] price(1) that show thesis
    by (auto simp: may_rest_def)
qed

lemma length_insert_after [simp]: "length (insert_after P x xs) = Suc (length xs)"
  by (induction xs) (simp_all add: insert_after_def)

lemma enqueue_simps [simp]: "length (enqueue s x xs) = Suc (length xs)" "set (enqueue s x xs) = insert x (set xs)"
  by (simp_all add: enqueue_def)

lemma iterate_inv:
  assumes "I 0 x" and "\<And>m y. m < n \<Longrightarrow> I m y \<Longrightarrow> \<exists>z. body m y = Some z \<and> I (Suc m) z"
  shows "\<exists>z. iterate body n x = Some z \<and> I n z"
  using assms
proof (induction n)
  case (Suc n)
  then obtain y where "iterate body n x = Some y" "I n y" by fastforce
  with Suc.prems(2) [of n y] show ?case by simp
qed simp

lemma new_engine: "aapl MatchingEngine_new s = []" "total_trades (stats MatchingEngine_new) = 0"
  by (simp_all add: book_of_eq MatchingEngine_new_def OrderBook_new_def queue_def ptrs_def levels_def EngineStats_init_def)

section \<open>What the benchmarks measure\<close>

definition insert_inv :: "nat \<Rightarrow> bench \<Rightarrow> bool" where
  "insert_inv n e \<longleftrightarrow> engine_inv (n + 1) e \<and> total_trades (stats e) = 0 \<and> length (aapl e True) + length (aapl e False) = n
     \<and> (\<forall>r \<in> set (aapl e True). \<not> is_nan (o_price r) \<and> rank (o_price r) \<le> rank hundred)
     \<and> (\<forall>r \<in> set (aapl e False). \<not> is_nan (o_price r) \<and> rank hundred < rank (o_price r))"

lemma hundred_positive: "0 < rank hundred" "\<not> is_nan hundred"
  using dlit_number(1,3) [of 1 100] by (simp_all add: finite_double_def)

lemma insert_iteration_inv:
  assumes "insert_inv n e" and "n + 2 < 2 ^ 64"
  shows "\<exists>e'. insert_iteration now n e = Some e' \<and> insert_inv (Suc n) e'"
proof -
  let ?i = "of_nat n :: uint64"
  have i: "unat ?i = n" using assms(2) by (simp add: unat_of_nat)
  have mod: "of_uint (?i mod 100) = dlit (n mod 100) 1" "?i mod 2 = 0 \<longleftrightarrow> even n"
    by (simp_all add: of_uint_dlit unat_mod i even_iff_mod_2_eq_zero flip: unat_eq_zero)
  have inv: "engine_inv (n + 1) e" "n + 1 + 1 < 2 ^ 64" using assms by (simp_all add: insert_inv_def)
  have k: "n mod 100 \<le> 99" "n mod 100 \<le> 1000" by (simp_all add: less_Suc_eq_le [symmetric])
  show ?thesis
  proof (cases "even n")
    case True
    note p = below_price [OF k(1)]
    have "\<forall>r \<in> set (aapl e (Buy \<noteq> Buy)). \<not> crosses (Buy = Buy) (bid_price (dlit (n mod 100) 1)) r"
      using assms(1) p by (fastforce simp: insert_inv_def crosses_def double_cmp)
    from submit_rests [OF inv p(1,2) this, of "now n"] assms(1) p True show ?thesis
      by (simp add: insert_iteration_def mod Let_def) (fastforce simp: insert_inv_def)
  next
    case False
    then have pos: "0 < n mod 100" by (metis dvd_eq_mod_eq_0 dvd_trans even_numeral gr0I)
    note p = above_price [OF k(2)]
    have r: "0 < rank (ask_price (dlit (n mod 100) 1))" using p(2) hundred_positive(1) by linarith
    have "\<forall>r \<in> set (aapl e (Sell \<noteq> Buy)). \<not> crosses (Sell = Buy) (ask_price (dlit (n mod 100) 1)) r"
      using assms(1) p(1,3) pos by (fastforce simp: insert_inv_def crosses_def double_cmp)
    from submit_rests [OF inv p(1) r this, of "now n"] assms(1) p(1,3) pos False show ?thesis
      by (simp add: insert_iteration_def mod Let_def) (fastforce simp: insert_inv_def)
  qed
qed

lemma insert_never_trades:
  assumes "n + 2 < 2 ^ 64"
  shows "\<exists>e. BM_LimitOrderInsert now n = Some e \<and> insert_inv n e"
  unfolding BM_LimitOrderInsert_def
proof (rule iterate_inv)
  show "insert_inv 0 MatchingEngine_new" using engine_inv_new by (simp add: insert_inv_def new_engine)
  show "\<exists>z. insert_iteration now m y = Some z \<and> insert_inv (Suc m) z" if "m < n" "insert_inv m y" for m y
    using insert_iteration_inv [OF that(2)] that(1) assms by simp
qed

text \<open>Every pair of orders of the matching benchmark trades once and leaves the book empty.\<close>

definition match_inv :: "nat \<Rightarrow> bench \<Rightarrow> bool" where
  "match_inv n e \<longleftrightarrow> engine_inv (2 * n + 1) e \<and> total_trades (stats e) = of_nat n \<and> aapl e True = [] \<and> aapl e False = []"

lemma match_iteration_inv:
  assumes "match_inv n e" and "2 * n + 4 < 2 ^ 64"
  shows "\<exists>e'. match_iteration now n e = Some e' \<and> match_inv (Suc n) e'"
proof -
  have inv: "engine_inv (2 * n + 1) e" "2 * n + 1 + 1 < 2 ^ 64" using assms by (simp_all add: match_inv_def)
  have "\<forall>r \<in> set (aapl e (Sell \<noteq> Buy)). \<not> crosses (Sell = Buy) hundred r" using assms(1) by (simp add: match_inv_def)
  then obtain e1 ord where sub: "submit_aapl (now (2 * n)) Sell Limit hundred 100 e = Some (next_order_id (book_of e ''AAPL''), e1)"
    and e1: "engine_inv (2 * n + 1 + 1) e1" "aapl e1 (Sell \<noteq> Buy) = aapl e (Sell \<noteq> Buy)" "aapl e1 (Sell = Buy) = enqueue (Sell = Buy) ord (aapl e (Sell = Buy))"
      "o_remaining_qty ord = 100" "o_price ord = hundred" "total_trades (stats e1) = total_trades (stats e)"
    by (rule submit_rests [OF inv hundred_positive(2,1), where sd = Sell])
  have q: "aapl e1 True = []" "aapl e1 False = [ord]" "total_trades (stats e1) = of_nat n"
    using e1 assms(1) by (simp_all add: match_inv_def enqueue_def insert_after_def)
  have fill: "fill_queue (crosses (Buy = Buy) (effective_price Buy Limit hundred)) 100 (aapl e1 (Buy \<noteq> Buy)) = ([(ord, 100)], 0, [])"
    using e1(4,5) q(2) hundred_positive(2) by (simp add: crosses_def double_cmp)
  have k: "2 * n + 1 + 1 + 1 < 2 ^ 64" using assms(2) by simp
  obtain e2 where "submit_aapl (now (2 * n + 1)) Buy Limit hundred 100 e1 = Some (next_order_id (book_of e1 ''AAPL''), e2)"
    "engine_inv (2 * n + 1 + 1 + 1) e2" "aapl e2 (Buy \<noteq> Buy) = []" "aapl e2 (Buy = Buy) = aapl e1 (Buy = Buy)"
    "total_trades (stats e2) = total_trades (stats e1) + of_nat (length [(ord, 100 :: Quantity)])"
    by (rule submit_aapl_effect [OF e1(1) k limit_accepted [OF hundred_positive(1)] _ fill, where now = "now (2 * n + 1)"])
      (use hundred_positive(2) in auto)
  then show ?thesis using sub q by (simp add: match_iteration_def match_inv_def add.commute)
qed

lemma match_always_trades:
  assumes "2 * n + 4 < 2 ^ 64"
  shows "\<exists>e. BM_LimitOrderMatch now n = Some e \<and> match_inv n e"
  unfolding BM_LimitOrderMatch_def
proof (rule iterate_inv)
  show "match_inv 0 MatchingEngine_new" using engine_inv_new by (simp add: match_inv_def new_engine)
  show "\<exists>z. match_iteration now m y = Some z \<and> match_inv (Suc m) z" if "m < n" "match_inv m y" for m y
    using match_iteration_inv [OF that(2)] that(1) assms by simp
qed

text \<open>The prepared asks of the market and sweep benchmarks.\<close>

definition asks_inv :: "nat \<Rightarrow> bench \<Rightarrow> bool" where
  "asks_inv n e \<longleftrightarrow> engine_inv (n + 1) e \<and> total_trades (stats e) = 0 \<and> aapl e True = [] \<and> length (aapl e False) = n
     \<and> (\<forall>r \<in> set (aapl e False). o_remaining_qty r = 100 \<and> \<not> is_nan (o_price r) \<and> rank (o_price r) \<le> rank (ask_price (dlit n 1)))"

lemma sell_level_inv:
  assumes "asks_inv n e" and "n < 1000"
  shows "\<exists>e'. sell_level now n e = Some e' \<and> asks_inv (Suc n) e'"
proof -
  have inv: "engine_inv (n + 1) e" "n + 1 + 1 < 2 ^ 64" using assms by (simp_all add: asks_inv_def)
  have n: "n \<le> 1000" "Suc n \<le> 1000" "n < 2 ^ 31" using assms(2) by simp_all
  note p = above_price [OF n(1)]
  have r: "0 < rank (ask_price (dlit n 1))" using p(2) hundred_positive(1) by linarith
  have next_level: "rank (ask_price (dlit n 1)) \<le> rank (ask_price (dlit (Suc n) 1))" using above_price(4) [OF n(2), of n] by simp
  have "\<forall>r \<in> set (aapl e (Sell \<noteq> Buy)). \<not> crosses (Sell = Buy) (ask_price (dlit n 1)) r" using assms(1) by (simp add: asks_inv_def)
  then obtain e1 ord where sub: "submit_aapl (now n) Sell Limit (ask_price (dlit n 1)) 100 e = Some (next_order_id (book_of e ''AAPL''), e1)"
    and e1: "engine_inv (n + 1 + 1) e1" "aapl e1 (Sell \<noteq> Buy) = aapl e (Sell \<noteq> Buy)" "aapl e1 (Sell = Buy) = enqueue (Sell = Buy) ord (aapl e (Sell = Buy))"
      "o_remaining_qty ord = 100" "o_price ord = ask_price (dlit n 1)" "total_trades (stats e1) = total_trades (stats e)"
    by (rule submit_rests [OF inv p(1) r, where sd = Sell])
  have "rank (o_price x) \<le> rank (ask_price (dlit (Suc n) 1))" "o_remaining_qty x = 100" "\<not> is_nan (o_price x)" if "x \<in> set (aapl e1 False)" for x
    using that e1(3-5) assms(1) p(1) next_level by (auto simp: asks_inv_def intro: order_trans)
  then show ?thesis using assms(1) e1 sub by (simp add: sell_level_def of_sint_small [OF n(3)] asks_inv_def)
qed

lemma sell_levels:
  assumes "n \<le> 1000"
  obtains e where "iterate (sell_level now) n MatchingEngine_new = Some e" and "asks_inv n e"
proof -
  have "\<exists>z. iterate (sell_level now) n MatchingEngine_new = Some z \<and> asks_inv n z"
  proof (rule iterate_inv)
    show "asks_inv 0 MatchingEngine_new" using engine_inv_new by (simp add: asks_inv_def new_engine)
    show "\<exists>z. sell_level now m y = Some z \<and> asks_inv (Suc m) z" if "m < n" "asks_inv m y" for m y
      using sell_level_inv [OF that(2)] that(1) assms by simp
  qed
  then show thesis using that by blast
qed

text \<open>One sweep trades once with every level and leaves the book empty.\<close>

lemma sweep_takes_every_level:
  assumes "0 < n" and "n \<le> 1000"
  shows "\<exists>e. BM_MultiLevelSweep prep now n = Some e \<and> total_trades (stats e) = of_nat n \<and> aapl e True = [] \<and> aapl e False = []"
proof -
  obtain e where e: "iterate (sell_level prep) n MatchingEngine_new = Some e" "asks_inv n e" by (rule sell_levels [OF assms(2)])
  have inv: "engine_inv (n + 1) e" "n + 1 + 1 < 2 ^ 64" using e(2) assms(2) by (simp_all add: asks_inv_def)
  note p = above_price [OF assms(2)]
  have "\<forall>r \<in> set (aapl e (Buy \<noteq> Buy)). crosses (Buy = Buy) (effective_price Buy Limit (ask_price (dlit n 1))) r \<and> o_remaining_qty r = 100"
    using e(2) p(1) by (auto simp: asks_inv_def crosses_def double_cmp)
  from fill_all [OF this] e(2) assms(2)
  have fill: "fill_queue (crosses (Buy = Buy) (effective_price Buy Limit (ask_price (dlit n 1)))) (of_nat n * 100) (aapl e (Buy \<noteq> Buy)) =
    (map (\<lambda>r. (r, 100)) (aapl e (Buy \<noteq> Buy)), 0, [])" by (simp add: asks_inv_def)
  have "unat (of_nat n * 100 :: Quantity) = n * 100" using assms(2) unfolding unat_word_ariths unat_of_nat by simp
  then have q: "(of_nat n * 100 :: Quantity) \<noteq> 0" using assms(1) by (metis mult_eq_0_iff neq0_conv unat_0 zero_neq_numeral)
  have r: "0 < rank (ask_price (dlit n 1))" using p(2) hundred_positive(1) by linarith
  have n: "n < 2 ^ 31" using assms(2) by simp
  from submit_aapl_effect [OF inv limit_accepted [OF r q] _ fill, of now] p(1) e show ?thesis
    by (simp add: BM_MultiLevelSweep_def of_sint_small [OF n]) (fastforce simp: asks_inv_def)
qed

text \<open>Every market order of the benchmark trades once, with the first ask, and the order after it restores the depth of the book.\<close>

definition market_inv :: "nat \<Rightarrow> bench \<Rightarrow> bool" where
  "market_inv n e \<longleftrightarrow> engine_inv (2 * n + 1001) e \<and> total_trades (stats e) = of_nat n \<and> aapl e True = [] \<and> length (aapl e False) = 1000
     \<and> (\<forall>r \<in> set (aapl e False). o_remaining_qty r = 100 \<and> \<not> is_nan (o_price r) \<and> rank (o_price r) \<le> rank dbl_max)"

lemma hundred_max: "rank hundred \<le> rank dbl_max"
  using hundred_positive(2) hundred(2) by (intro rank_le_dbl_max) (auto simp: finite_double_def is_inf_def dinf_def)

lemma market_iteration_inv:
  assumes "market_inv n e" and "2 * n + 1004 < 2 ^ 64"
  shows "\<exists>e'. market_iteration now n e = Some e' \<and> market_inv (Suc n) e'"
proof -
  have inv: "engine_inv (2 * n + 1001) e" "2 * n + 1001 + 1 < 2 ^ 64" "2 * n + 1001 + 1 + 1 < 2 ^ 64" using assms by (simp_all add: market_inv_def)
  obtain r rs where q: "aapl e False = r # rs" "length rs = 999" using assms(1) by (cases "aapl e False") (auto simp: market_inv_def)
  have r: "o_remaining_qty r = 100" "\<not> is_nan (o_price r)" "rank (o_price r) \<le> rank dbl_max" using assms(1) q by (simp_all add: market_inv_def)
  have fill: "fill_queue (crosses (Buy = Buy) (effective_price Buy Market dzero)) 100 (aapl e (Buy \<noteq> Buy)) = ([(r, 100)], 0, rs)"
    using r q by (simp add: crosses_def double_cmp effective_price_def)
  obtain e1 where sub: "submit_aapl (now (2 * n)) Buy Market dzero 100 e = Some (next_order_id (book_of e ''AAPL''), e1)"
    and e1: "engine_inv (2 * n + 1001 + 1) e1" "aapl e1 (Buy \<noteq> Buy) = rs" "aapl e1 (Buy = Buy) = aapl e (Buy = Buy)"
      "total_trades (stats e1) = total_trades (stats e) + of_nat (length [(r, 100 :: Quantity)])"
    by (rule submit_aapl_effect [OF inv(1,2) _ _ fill, where now = "now (2 * n)"]) (auto simp: accepted_def)
  have "\<forall>r \<in> set (aapl e1 (Sell \<noteq> Buy)). \<not> crosses (Sell = Buy) hundred r" using assms(1) e1 by (simp add: market_inv_def)
  then obtain e2 ord where sub2: "submit_aapl (now (2 * n + 1)) Sell Limit hundred 100 e1 = Some (next_order_id (book_of e1 ''AAPL''), e2)"
    and e2: "engine_inv (2 * n + 1001 + 1 + 1) e2" "aapl e2 (Sell \<noteq> Buy) = aapl e1 (Sell \<noteq> Buy)" "aapl e2 (Sell = Buy) = enqueue (Sell = Buy) ord (aapl e1 (Sell = Buy))"
      "o_remaining_qty ord = 100" "o_price ord = hundred" "total_trades (stats e2) = total_trades (stats e1)"
    by (rule submit_rests [OF e1(1) inv(3) hundred_positive(2,1), where sd = Sell])
  show ?thesis using assms(1) sub sub2 e1 e2 q hundred_positive(2) hundred_max
    by (simp add: market_iteration_def market_inv_def add.commute)
qed

lemma market_always_trades:
  assumes "2 * n + 1004 < 2 ^ 64"
  shows "\<exists>e. BM_MarketOrderFill prep now n = Some e \<and> market_inv n e"
proof -
  obtain e where e: "iterate (sell_level prep) 1000 MatchingEngine_new = Some e" "asks_inv 1000 e" by (rule sell_levels [of 1000]) simp_all
  have "ask_price (dlit 1000 1) \<noteq> dinf" using of_ratio_unat(2) [OF sum_small(1) [OF ticks_bounds(3)], of 1000 1] above_ratio [of 1000]
    by (auto simp: finite_double_def is_inf_def dinf_def)
  then have "rank (ask_price (dlit 1000 1)) \<le> rank dbl_max" using above_price(1) [of 1000] by (intro rank_le_dbl_max) simp_all
  then have start: "market_inv 0 e" using e(2) by (auto simp: market_inv_def asks_inv_def intro: order_trans)
  have "\<exists>z. iterate (market_iteration now) n e = Some z \<and> market_inv n z"
    using market_iteration_inv assms by (intro iterate_inv [where I = market_inv] start) simp
  then show ?thesis by (simp add: BM_MarketOrderFill_def e(1))
qed

text \<open>The ids of the cancel benchmark are those of the orders on the book, from the index on.\<close>

definition level_inv :: "nat \<Rightarrow> nat \<Rightarrow> bench \<times> OrderId list \<Rightarrow> bool" where
  "level_inv k n = (\<lambda>(e, ids). engine_inv (k + n) e \<and> aapl e False = [] \<and> distinct ids \<and> length ids = n \<and> set ids = o_id ` set (aapl e True))"

lemma buy_level_inv:
  assumes "level_inv k n st" and "k + n + 1 < 2 ^ 64"
  shows "\<exists>st'. buy_level now n st = Some st' \<and> level_inv k (Suc n) st'"
proof -
  obtain e ids where st: "st = (e, ids)" by fastforce
  have inv: "engine_inv (k + n) e" "aapl e False = []" "distinct ids" "length ids = n" "set ids = o_id ` set (aapl e True)"
    using assms(1) by (simp_all add: st level_inv_def)
  have m: "n mod 100 \<le> 99" "n mod 100 < 2 ^ 31" by (simp_all add: less_Suc_eq_le [symmetric])
  note p = below_price [OF m(1)]
  have "\<forall>r \<in> set (aapl e (Buy \<noteq> Buy)). \<not> crosses (Buy = Buy) (bid_price (dlit (n mod 100) 1)) r" using inv by simp
  then obtain e1 ord where sub: "submit_aapl (now n) Buy Limit (bid_price (dlit (n mod 100) 1)) 100 e = Some (next_order_id (book_of e ''AAPL''), e1)"
    and e1: "engine_inv (k + n + 1) e1" "aapl e1 (Buy \<noteq> Buy) = aapl e (Buy \<noteq> Buy)" "aapl e1 (Buy = Buy) = enqueue (Buy = Buy) ord (aapl e (Buy = Buy))"
      "o_id ord = next_order_id (book_of e ''AAPL'')"
    by (rule submit_rests [OF inv(1) assms(2) p(1,2), where sd = Buy])
  have "book_ok (book_of e ''AAPL'')" using inv(1) engine_ok_book [of e "''AAPL''"] by (simp add: engine_inv_def book_inv_def)
  then have "next_order_id (book_of e ''AAPL'') \<notin> set ids" unfolding inv(5) by (auto dest: old_ids(2))
  then show ?thesis using inv sub e1 by (simp add: st buy_level_def of_sint_small [OF m(2)] level_inv_def)
qed

lemma buy_levels:
  assumes "engine_inv k e" and "aapl e True = []" and "aapl e False = []" and "k + n + 1 < 2 ^ 64"
  shows "\<exists>st. iterate (buy_level now) n (e, []) = Some st \<and> level_inv k n st"
  using assms buy_level_inv [of k] by (intro iterate_inv) (auto simp: level_inv_def)

definition cancel_inv :: "nat \<Rightarrow> nat \<Rightarrow> cancel_state \<Rightarrow> bool" where
  "cancel_inv batch n = (\<lambda>(e, ids, idx, results).
     engine_inv (1 + batch * (n + 1)) e \<and> aapl e False = [] \<and> distinct ids \<and> length ids = batch \<and> idx = n mod Suc batch
   \<and> o_id ` set (aapl e True) = set (drop idx ids) \<and> results = replicate (n - n div Suc batch) True)"

lemma cancel_iteration_inv:
  assumes "cancel_inv batch n st" and "1 + batch * (n + 3) < 2 ^ 64"
  shows "\<exists>st'. cancel_iteration batch prep n st = Some st' \<and> cancel_inv batch (Suc n) st'"
proof -
  obtain e ids idx results where st: "st = (e, ids, idx, results)" by (cases st)
  have inv: "engine_inv (1 + batch * (n + 1)) e" "aapl e False = []" "distinct ids" "length ids = batch" "idx = n mod Suc batch"
    "o_id ` set (aapl e True) = set (drop idx ids)" "results = replicate (n - n div Suc batch) True"
    using assms(1) by (simp_all add: st cancel_inv_def)
  have idx: "idx \<le> batch" using inv(5) by (simp add: less_Suc_eq_le [symmetric])
  show ?thesis
  proof (cases "idx < batch")
    case True
    let ?i = "ids ! idx" and ?b = "book_of e ''AAPL''"
    have ok: "engine_ok e" using inv(1) by (simp add: engine_inv_def)
    have d: "drop idx ids = ?i # drop (Suc idx) ids" using True inv(4) by (simp add: Cons_nth_drop_Suc)
    have "a_ids (abs_book ?b) = set (drop idx ids)" using inv(2,6) by (simp add: a_ids_def abs_book_def image_Un)
    then have hit: "fst (engine_cancel_order ''AAPL'' ?i e)" using engine_cancel_effect(1) [OF ok, of "''AAPL''" ?i] d by simp
    let ?e = "snd (engine_cancel_order ''AAPL'' ?i e)"
    have "aapl ?e s = filter (\<lambda>ord. o_id ord \<noteq> ?i) (aapl e s)" for s
      using engine_cancel_effect(2) [OF ok, of "''AAPL''" ?i] by (cases s) (simp_all add: abs_book_def a_cancel_def map_sides_def)
    moreover have "o_id ` {ord \<in> set (aapl e True). o_id ord \<noteq> ?i} = set (drop idx ids) - {?i}" using inv(6) by auto
    moreover have "distinct (drop idx ids)" using inv(3) by (rule distinct_drop)
    ultimately have q: "aapl ?e False = []" "o_id ` set (aapl ?e True) = set (drop (Suc idx) ids)" using inv(2) d by auto
    have step: "Suc n mod Suc batch = Suc idx" "Suc n div Suc batch = n div Suc batch"
      using True inv(5) by (simp_all add: mod_Suc div_Suc)
    have "n div Suc batch \<le> n" by (rule div_le_dividend)
    then have "replicate (Suc n - Suc n div Suc batch) True = results @ [True]" by (simp add: step(2) inv(7) Suc_diff_le replicate_append_same)
    moreover have "engine_inv (1 + batch * (Suc n + 1)) ?e"
      using cancel_engine_inv [OF inv(1)] by (rule engine_inv_mono) simp
    ultimately show ?thesis using True inv q hit step(1)
      by (simp add: st cancel_iteration_def cancel_inv_def case_prod_unfold Let_def del: replicate_Suc)
  next
    case False
    then have full: "idx = batch" "aapl e True = []" using idx inv(4,6) by auto
    have "batch * (n + 3) = batch * (n + 1) + batch + batch" by (simp add: algebra_simps)
    then have "1 + batch * (n + 1) + batch + 1 < 2 ^ 64 \<or> batch = 0" using assms(2) by linarith
    then have "1 + batch * (n + 1) + batch + 1 < 2 ^ 64" by auto
    from buy_levels [OF inv(1) full(2) inv(2) this, of "prep (Suc n)"] obtain e1 ids1 where
      e1: "iterate (buy_level (prep (Suc n))) batch (e, []) = Some (e1, ids1)" "level_inv (1 + batch * (n + 1)) batch (e1, ids1)" by auto
    have step: "Suc n mod Suc batch = 0" "Suc n div Suc batch = Suc (n div Suc batch)" using full(1) inv(5) by (simp_all add: mod_Suc div_Suc)
    have "1 + batch * (n + 1) + batch = 1 + batch * (Suc n + 1)" by (simp add: algebra_simps)
    then show ?thesis using False inv e1 step by (simp add: st cancel_iteration_def cancel_inv_def level_inv_def add_ac)
  qed
qed

lemma cancels_always_hit:
  assumes "1 + 100000 * (n + 3) < 2 ^ 64"
  shows "\<exists>st. BM_CancelOrder prep n = Some st \<and> cancel_inv 100000 n st"
proof -
  have new: "aapl MatchingEngine_new True = []" "aapl MatchingEngine_new False = []" by (simp_all add: new_engine)
  from buy_levels [OF engine_inv_new new, of 100000 "prep 0"] obtain e ids where
    e: "iterate (buy_level (prep 0)) 100000 (MatchingEngine_new, []) = Some (e, ids)" "level_inv 1 100000 (e, ids)" by auto
  have start: "cancel_inv 100000 0 (e, ids, 0, [])" using e(2) by (simp add: level_inv_def cancel_inv_def)
  have "\<exists>z. iterate (cancel_iteration 100000 prep) n (e, ids, 0, []) = Some z \<and> cancel_inv 100000 n z"
  proof (intro iterate_inv [where I = "cancel_inv 100000"] start)
    show "\<exists>z. cancel_iteration 100000 prep m y = Some z \<and> cancel_inv 100000 (Suc m) z" if "m < n" "cancel_inv 100000 m y" for m y
    proof (rule cancel_iteration_inv [OF that(2)])
      have "100000 * (m + 3) \<le> 100000 * (n + 3)" using that(1) by simp
      then show "1 + 100000 * (m + 3) < 2 ^ 64" using assms by linarith
    qed
  qed
  then show ?thesis by (simp add: BM_CancelOrder_def e(1))
qed



end
