(* ===== verification/Layout.thy ===== *)
theory Layout
  imports Protocol Output
begin

text \<open>
  Where the compiler puts the fields of the structures of \<^verbatim>\<open>include/core/Order.h\<close> and \<^verbatim>\<open>include/network/Protocol.h\<close>, and the
  program \<^verbatim>\<open>tools/print_sizes.cpp\<close> that reports their sizes. The rule is the one of the common C++ ABIs on 64-bit machines: a field goes to
  the next multiple of its alignment, the size is rounded up to the largest alignment, and \<^verbatim>\<open>#pragma pack(push, 1)\<close> makes
  every alignment 1.
\<close>

section \<open>The rule\<close>

datatype ctype = U8 | U32 | U64 | F64 | Chars nat

fun type_size :: "ctype \<Rightarrow> nat" where
  "type_size U8 = 1"
| "type_size U32 = 4"
| "type_size U64 = 8"
| "type_size F64 = 8"
| "type_size (Chars n) = n"

fun natural_align :: "ctype \<Rightarrow> nat" where
  "natural_align U8 = 1"
| "natural_align U32 = 4"
| "natural_align U64 = 8"
| "natural_align F64 = 8"
| "natural_align (Chars n) = 1"

definition type_align :: "bool \<Rightarrow> ctype \<Rightarrow> nat" where
  "type_align packed t = (if packed then 1 else natural_align t)"

definition round_up :: "nat \<Rightarrow> nat \<Rightarrow> nat" where
  "round_up n a = (n + a - 1) div a * a"

text \<open>The offsets of the fields from position \<open>pos\<close> on, and the position behind the last one.\<close>

fun place :: "bool \<Rightarrow> nat \<Rightarrow> ctype list \<Rightarrow> nat list" where
  "place packed pos [] = []"
| "place packed pos (t # ts) = (let o1 = round_up pos (type_align packed t) in o1 # place packed (o1 + type_size t) ts)"

fun end_of :: "bool \<Rightarrow> nat \<Rightarrow> ctype list \<Rightarrow> nat" where
  "end_of packed pos [] = pos"
| "end_of packed pos (t # ts) = end_of packed (round_up pos (type_align packed t) + type_size t) ts"

definition struct_align :: "bool \<Rightarrow> ctype list \<Rightarrow> nat" where
  "struct_align packed ts = fold (\<lambda>t a. max (type_align packed t) a) ts 1"

definition struct_size :: "bool \<Rightarrow> ctype list \<Rightarrow> nat" where
  "struct_size packed ts = round_up (end_of packed 0 ts) (struct_align packed ts)"

definition payload :: "ctype list \<Rightarrow> nat" where
  "payload ts = (\<Sum>t \<leftarrow> ts. type_size t)"

section \<open>The structures\<close>

definition Order_layout :: "ctype list" where
  "Order_layout = [U64, F64, U32, U32, U64, U8, U8, U8]"

definition Trade_layout :: "ctype list" where
  "Trade_layout = [U64, U64, F64, U32, U64]"

definition OrderMessage_layout :: "ctype list" where
  "OrderMessage_layout = [U8, Chars 8, U8, U8, F64, U32]"

definition CancelMessage_layout :: "ctype list" where
  "CancelMessage_layout = [U8, Chars 8, U64]"

definition ExecutionReport_layout :: "ctype list" where
  "ExecutionReport_layout = [U8, U64, U8, F64, U32, U32]"

definition print_sizes_main :: string where
  "print_sizes_main =
     ''sizeof(Order)            = '' @ show_nat (struct_size False Order_layout) @ '' bytes (alignof '' @ show_nat (struct_align False Order_layout) @ '')'' @ newline @
     ''sizeof(Trade)            = '' @ show_nat (struct_size False Trade_layout) @ '' bytes'' @ newline @
     ''Orders per 64-byte line  = '' @ show_nat (64 div struct_size False Order_layout) @ newline @
     ''sizeof(OrderMessage)     = '' @ show_nat (struct_size True OrderMessage_layout) @ '' bytes'' @ newline @
     ''sizeof(CancelMessage)    = '' @ show_nat (struct_size True CancelMessage_layout) @ '' bytes'' @ newline @
     ''sizeof(ExecutionReport)  = '' @ show_nat (struct_size True ExecutionReport_layout) @ '' bytes'' @ newline"

section \<open>Properties of the rule\<close>

lemma type_align_pos [simp]: "0 < type_align packed t"
  by (cases t) (simp_all add: type_align_def)

lemma round_up_props:
  assumes "0 < a"
  shows "n \<le> round_up n a" and "a dvd round_up n a" and "round_up n a < n + a"
proof -
  have m: "(n + a - 1) div a * a + (n + a - 1) mod a = n + a - 1" by (rule div_mult_mod_eq)
  have "(n + a - 1) mod a < a" using assms by simp
  with m show "n \<le> round_up n a" "round_up n a < n + a" using assms unfolding round_up_def by linarith+
  show "a dvd round_up n a" by (simp add: round_up_def)
qed

lemma round_up_one [simp]: "round_up n (Suc 0) = n"
  by (simp add: round_up_def)

lemma end_of_ge: "pos + payload ts \<le> end_of packed pos ts"
proof (induction ts arbitrary: pos)
  case (Cons t ts)
  show ?case using Cons [of "round_up pos (type_align packed t) + type_size t"] round_up_props(1) [of "type_align packed t" pos]
    by (simp add: payload_def)
qed (simp add: payload_def)

lemma length_place [simp]: "length (place packed pos ts) = length ts"
  by (induction ts arbitrary: pos) (simp_all add: Let_def)

lemma place_aligned: "i < length ts \<Longrightarrow> type_align packed (ts ! i) dvd place packed pos ts ! i"
  by (induction ts arbitrary: pos i) (auto simp: Let_def nth_Cons round_up_props split: nat.splits)

lemma place_after: "i < length ts \<Longrightarrow> pos \<le> place packed pos ts ! i"
proof (induction ts arbitrary: pos i)
  case (Cons t ts)
  let ?o = "round_up pos (type_align packed t)"
  have o: "pos \<le> ?o" by (rule round_up_props) simp
  show ?case
  proof (cases i)
    case (Suc k)
    then have "?o + type_size t \<le> place packed (?o + type_size t) ts ! k" using Cons by simp
    then show ?thesis using o Suc by (simp add: Let_def)
  qed (use o in \<open>simp add: Let_def\<close>)
qed simp

lemma place_disjoint: "i < j \<Longrightarrow> j < length ts \<Longrightarrow> place packed pos ts ! i + type_size (ts ! i) \<le> place packed pos ts ! j"
proof (induction ts arbitrary: pos i j)
  case (Cons t ts)
  then show ?case by (cases i; cases j) (simp_all add: Let_def place_after)
qed simp

lemma place_within: "i < length ts \<Longrightarrow> place packed pos ts ! i + type_size (ts ! i) \<le> end_of packed pos ts"
proof (induction ts arbitrary: pos i)
  case (Cons t ts)
  then show ?case using end_of_ge [of "round_up pos (type_align packed t) + type_size t" ts packed]
    by (cases i) (simp_all add: Let_def)
qed simp

lemma struct_align_pos: "0 < struct_align packed ts"
proof -
  have "a \<le> fold (\<lambda>t a. max (type_align packed t) a) ts a" for a
    by (induction ts arbitrary: a) (auto intro: order_trans [OF max.cobounded2])
  from order_less_le_trans [OF _ this] show ?thesis by (simp add: struct_align_def)
qed

lemma packed_size: "end_of True pos ts = pos + payload ts" "struct_align True ts = 1"
  by (induction ts arbitrary: pos) (simp_all add: type_align_def payload_def struct_align_def)

text \<open>The layout rule gives every field a place of its own: each field is aligned, starts where the fields before it have
  ended, and ends within the structure, whose size is a multiple of its alignment and wastes less than one alignment at
  the end. A packed structure has exactly the size of its fields.\<close>

theorem layout_sound:
  "(\<forall>i < length ts. type_align packed (ts ! i) dvd place packed 0 ts ! i
      \<and> place packed 0 ts ! i + type_size (ts ! i) \<le> struct_size packed ts)
   \<and> (\<forall>i j. i < j \<longrightarrow> j < length ts \<longrightarrow> place packed 0 ts ! i + type_size (ts ! i) \<le> place packed 0 ts ! j)
   \<and> struct_align packed ts dvd struct_size packed ts \<and> struct_size packed ts < end_of packed 0 ts + struct_align packed ts
   \<and> struct_size True ts = payload ts"
  using place_aligned place_disjoint order_trans [OF place_within round_up_props(1) [OF struct_align_pos]]
    round_up_props(2,3) [OF struct_align_pos]
  by (auto simp: struct_size_def packed_size)

theorem layout_sound_witness:
  "type_align False F64 dvd place False 0 Order_layout ! 1 \<and> place False 0 Order_layout ! 1 + type_size F64 \<le> struct_size False Order_layout
   \<and> place False 0 Order_layout ! 1 + type_size F64 \<le> place False 0 Order_layout ! 2"
proof -
  have "1 < length Order_layout" "2 < length Order_layout" "Order_layout ! 1 = F64" "(1 :: nat) < 2" by (simp_all add: Order_layout_def)
  then show ?thesis using layout_sound [of Order_layout False] by metis
qed

text \<open>The documented sizes: an order has its 35 bytes of payload without interior padding in 40 bytes aligned to 8, so one fits a
  cache line and two do not; the wire messages have the 23, 17 and 26 bytes that the encoders of the protocol produce; and this is what
  \<^verbatim>\<open>print_sizes\<close> prints.\<close>

theorem sizes_as_documented:
  assumes "length (om_symbol m) = 8" and "length (cm_symbol c) = 8"
  shows "place False 0 Order_layout = [0, 8, 16, 20, 24, 32, 33, 34] \<and> payload Order_layout = 35 \<and> end_of False 0 Order_layout = 35
    \<and> length (encode_order m) = struct_size True OrderMessage_layout \<and> length (encode_cancel c) = struct_size True CancelMessage_layout
    \<and> length (encode_report r) = struct_size True ExecutionReport_layout
    \<and> print_sizes_main =
        ''sizeof(Order)            = 40 bytes (alignof 8)'' @ newline @ ''sizeof(Trade)            = 40 bytes'' @ newline @
        ''Orders per 64-byte line  = 1'' @ newline @ ''sizeof(OrderMessage)     = 23 bytes'' @ newline @
        ''sizeof(CancelMessage)    = 17 bytes'' @ newline @ ''sizeof(ExecutionReport)  = 26 bytes'' @ newline"
proof -
  have sizes: "struct_size False Order_layout = 40" "struct_align False Order_layout = 8" "struct_size False Trade_layout = 40"
    "struct_size True OrderMessage_layout = 23" "struct_size True CancelMessage_layout = 17" "struct_size True ExecutionReport_layout = 26"
    by (simp_all add: struct_size_def struct_align_def type_align_def round_up_def Order_layout_def Trade_layout_def OrderMessage_layout_def
        CancelMessage_layout_def ExecutionReport_layout_def)
  have "show_nat 40 = ''40''" "show_nat 8 = ''8''" "show_nat 1 = ''1''" "show_nat 23 = ''23''" "show_nat 17 = ''17''" "show_nat 26 = ''26''"
    by (simp_all add: show_nat.simps digit_char_def char_of_def bit_0)
  then have "print_sizes_main =
        ''sizeof(Order)            = 40 bytes (alignof 8)'' @ newline @ ''sizeof(Trade)            = 40 bytes'' @ newline @
        ''Orders per 64-byte line  = 1'' @ newline @ ''sizeof(OrderMessage)     = 23 bytes'' @ newline @
        ''sizeof(CancelMessage)    = 17 bytes'' @ newline @ ''sizeof(ExecutionReport)  = 26 bytes'' @ newline"
    by (simp add: print_sizes_main_def sizes)
  moreover have "place False 0 Order_layout = [0, 8, 16, 20, 24, 32, 33, 34]" "payload Order_layout = 35" "end_of False 0 Order_layout = 35"
    by (simp_all add: Order_layout_def payload_def type_align_def round_up_def Let_def)
  ultimately show ?thesis using assms by (simp add: sizes encode_order_def encode_cancel_def encode_report_def)
qed

theorem sizes_as_documented_witness:
  "length (encode_order \<lparr>om_symbol = replicate 8 65, om_side = Buy, om_order_type = Limit, om_price = dzero, om_quantity = 1\<rparr>) =
    struct_size True OrderMessage_layout"
  using sizes_as_documented [of "\<lparr>om_symbol = replicate 8 65, om_side = Buy, om_order_type = Limit, om_price = dzero, om_quantity = 1\<rparr>"
      "\<lparr>cm_symbol = replicate 8 65, cm_order_id = 1\<rparr>"] by simp

end
