(* ===== verification/TapeRoundtrip.thy ===== *)
theory TapeRoundtrip
  imports ReplayCorrect Output
begin

text \<open>
  The tape format of \<^verbatim>\<open>include/replay/ReplayHarness.h\<close> read the other way: events written as rows of the documented
  format, and the proof that the reader of \<open>Tape\<close> gives them back. It covers the numeric fields in full: timestamps and ids
  of every value, prices in whole cents.
\<close>

section \<open>Writing a tape\<close>

text \<open>The rows of the documented format.\<close>

definition side_field :: "Side \<Rightarrow> string" where
  "side_field s = (if s = Sell then ''S'' else ''B'')"

definition type_field :: "OrderType \<Rightarrow> string" where
  "type_field t = (if t = Market then ''M'' else if t = IOC then ''I'' else ''L'')"

definition event_fields :: "ReplayEvent \<Rightarrow> string list" where
  "event_fields ev =
     [show_int (sint (ev_timestamp_ns ev)), ev_symbol ev, side_field (ev_side ev), type_field (ev_type ev), show_fixed 2 (ev_price ev),
      show_nat (unat (ev_quantity ev)), [ev_action ev], show_nat (unat (ev_order_id ev))]"

fun join :: "char \<Rightarrow> string list \<Rightarrow> string" where
  "join d [] = []"
| "join d [s] = s"
| "join d (s # t # ss) = s @ d # join d (t # ss)"

definition tape_header :: string where
  "tape_header = ''timestamp_ns,symbol,side,type,price,quantity,action,order_id''"

definition write_tape :: "ReplayEvent list \<Rightarrow> string" where
  "write_tape evs = concat (map (\<lambda>l. l @ newline) (tape_header # map (\<lambda>ev. join (CHR '','') (event_fields ev)) evs))"

section \<open>Splitting\<close>

lemma split_at: "d \<notin> set s \<Longrightarrow> takeWhile (\<lambda>c. c \<noteq> d) (s @ d # rest) = s"
  "d \<notin> set s \<Longrightarrow> dropWhile (\<lambda>c. c \<noteq> d) (s @ d # rest) = d # rest"
  by (induction s) auto

lemma getlines_cons: "d \<notin> set s \<Longrightarrow> getlines d (s @ d # rest) = s # getlines d rest"
  by (subst getlines.simps) (simp only: split_at append_is_Nil_conv list.distinct simp_thms if_False, simp)

lemma unsplit: "d \<notin> set s \<Longrightarrow> takeWhile (\<lambda>c. c \<noteq> d) s = s" "d \<notin> set s \<Longrightarrow> dropWhile (\<lambda>c. c \<noteq> d) s = []"
  by (induction s) auto

lemma getlines_last:
  assumes "d \<notin> set s" and "s \<noteq> []"
  shows "getlines d s = [s]"
  unfolding getlines.simps [of d s] unsplit [OF assms(1)] by (simp add: assms(2) getlines.simps [of d "[]"])

lemma getlines_join: "ss \<noteq> [] \<Longrightarrow> \<forall>s \<in> set ss. d \<notin> set s \<Longrightarrow> last ss \<noteq> [] \<Longrightarrow> getlines d (join d ss) = ss"
  by (induction d ss rule: join.induct) (simp_all add: getlines_cons getlines_last)

lemma getlines_lines: "\<forall>l \<in> set ls. d \<notin> set l \<Longrightarrow> getlines d (concat (map (\<lambda>l. l @ [d]) ls)) = ls"
  by (induction ls) (simp_all add: getlines_cons getlines.simps [of d "[]"])

section \<open>Reading numbers back\<close>

lemma digit_val_char [simp]: "d < 10 \<Longrightarrow> digit_val (digit_char d) = Some d"
  by (simp add: digit_val_def digit_char_inj)

lemma digits_append:
  assumes "digits val base acc n s = (v, m, [])"
  shows "digits val base acc n (s @ rest) = digits val base v m rest"
  using assms by (induction s arbitrary: acc n) (auto split: option.splits)

lemma digits_show_nat: "digits digit_val 10 0 0 (show_nat m) = (m, length (show_nat m), [])"
proof (induction m rule: show_nat.induct)
  case (1 m)
  show ?case
  proof (cases "m < 10")
    case False
    then have "show_nat m = show_nat (m div 10) @ [digit_char (m mod 10)]" by (simp add: show_nat.simps [of m])
    then show ?thesis using 1 False by (simp add: digits_append)
  qed (simp add: show_nat.simps [of m])
qed

lemma digits_last_digits: "digits digit_val 10 v n (last_digits p m) = (v * 10 ^ p + m mod 10 ^ p, n + p, [])"
proof (induction p arbitrary: m)
  case (Suc p)
  have "m mod 10 ^ Suc p = m div 10 mod 10 ^ p * 10 + m mod 10" by (simp add: mod_mult2_eq)
  then show ?case using Suc [of "m div 10"] by (simp add: digits_append algebra_simps)
qed simp

text \<open>The characters a number without a sign is written with.\<close>

definition numeric :: "string \<Rightarrow> bool" where
  "numeric s \<longleftrightarrow> (\<forall>c \<in> set s. 46 \<le> (of_char c :: nat) \<and> of_char c \<le> (57 :: nat))"

lemma numeric_append [simp]: "numeric (s @ t) \<longleftrightarrow> numeric s \<and> numeric t" "numeric []"
  "numeric (c # s) \<longleftrightarrow> 46 \<le> (of_char c :: nat) \<and> of_char c \<le> (57 :: nat) \<and> numeric s"
  by (auto simp: numeric_def)

lemma numeric_numbers: "numeric (show_nat n)" "numeric (decimal p n)"
proof -
  have digit: "46 \<le> (of_char (digit_char d) :: nat) \<and> of_char (digit_char d) \<le> (57 :: nat)" if "d < 10" for d
    using that by (simp add: digit_char_inj)
  show nat: "numeric (show_nat n)" for n by (induction n rule: show_nat.induct) (subst show_nat.simps, simp add: digit)
  have "numeric (last_digits p n)" for n by (induction p arbitrary: n) (simp_all add: digit)
  then show "numeric (decimal p n)" by (simp add: decimal_def nat)
qed

lemma numeric_free: "numeric s \<Longrightarrow> (of_char c :: nat) < 46 \<or> 57 < (of_char c :: nat) \<Longrightarrow> c \<notin> set s"
  by (auto simp: numeric_def)

lemma numeric_start:
  assumes "numeric s"
  shows "dropWhile is_space s = s" and "sign_of s = (False, s)" and "map lower (take n s) = take n s"
proof -
  show "dropWhile is_space s = s" using assms by (cases s) (auto simp: is_space_def)
  show "sign_of s = (False, s)" using assms by (cases s) (auto simp: sign_of_def)
  show "map lower (take n s) = take n s"
    using assms by (intro map_idI) (auto simp: numeric_def lower_def Let_def dest!: in_set_takeD)
qed

lemma strtoint_show_nat: "strtoint (show_nat n) = Some (False, n)"
  using numeric_start [OF numeric_numbers(1) [of n]] by (simp add: strtoint_def digits_show_nat)

lemma strtoint_show_int: "strtoint (show_int i) = Some (i < 0, nat \<bar>i\<bar>)"
proof (cases "i < 0")
  case True
  have "dropWhile is_space (CHR ''-'' # s) = CHR ''-'' # s" for s by (simp add: is_space_def)
  then show ?thesis using True by (simp add: show_int_def strtoint_def sign_of_def digits_show_nat)
qed (simp add: show_int_def strtoint_show_nat)

lemma stoull_show: "n < 2 ^ 64 \<Longrightarrow> stoull (show_nat n) = Some (of_nat n)"
  by (simp add: stoull_def strtoint_show_nat)

lemma stoll_show: "stoll (show_int (sint w)) = Some w"
proof -
  let ?n = "nat \<bar>sint w\<bar>"
  have b: "- (2 ^ 63) \<le> sint w" "sint w < 2 ^ 63" using sint_ge [of w] sint_lt [of w] by simp_all
  have neg: "?n \<le> 2 ^ 63" using b by (simp add: nat_le_iff)
  have pos: "?n < 2 ^ 63" if "\<not> sint w < 0" using b that by (simp add: nat_less_iff)
  have word: "(of_nat ?n :: 64 word) = of_int \<bar>sint w\<bar>" by (simp only: of_nat_nat abs_ge_zero)
  show ?thesis
  proof (cases "sint w < 0")
    case True
    then have "- (of_nat ?n :: 64 word) = w" unfolding word by simp
    then show ?thesis using True neg unfolding stoll_def strtoint_show_int by simp
  next
    case False
    then have "(of_nat ?n :: 64 word) = w" unfolding word by simp
    then show ?thesis using False pos unfolding stoll_def strtoint_show_int by simp
  qed
qed

lemma stod_decimal:
  assumes "numeric s" and "mantissa digit_val 10 s = (v, f, n, [])" and "0 < n"
  shows "stod s = range_checked False v 10 (- int f)"
proof -
  have "c \<noteq> CHR ''i'' \<and> c \<noteq> CHR ''n'' \<and> c \<noteq> CHR ''x''" if "c \<in> set s" for c using assms(1) that by (auto simp: numeric_def)
  then have "take 3 s \<noteq> ''inf''" "take 3 s \<noteq> ''nan''" "take 2 s \<noteq> [z, CHR ''x'']" for z
    by (metis in_set_takeD list.set_intros(1,2))+
  then show ?thesis
    using assms(2,3) numeric_start [OF assms(1)]
    by (auto simp: stod_def exponent_def Let_def split: list.splits)
qed

lemma mantissa_cents: "mantissa digit_val 10 (decimal 2 c) = (c, 2, length (show_nat (c div 100)) + 2, [])"
proof -
  have dot: "digit_val CHR ''.'' = None" by (simp add: digit_val_def)
  have "digits digit_val 10 0 0 (decimal 2 c) = (c div 100, length (show_nat (c div 100)), CHR ''.'' # last_digits 2 c)"
    using digits_append [OF digits_show_nat [of "c div 100"], of "CHR ''.'' # last_digits 2 c"] by (simp add: decimal_def dot)
  moreover have "digits digit_val 10 (c div 100) 0 (last_digits 2 c) = (c, 2, [])"
    using digits_last_digits [of "c div 100" 0 2 c] by simp
  ultimately show ?thesis by (simp add: mantissa_def)
qed

lemma stod_cents:
  assumes "c < 100 * 2 ^ 46"
  shows "stod (show_fixed 2 (dlit c 100)) = Some (dlit c 100)"
proof -
  have scaled: "scaled False c 10 (- int 2) = dlit c 100" by (simp add: scaled_def dlit_def)
  have "units (dlit 0 100) = 0" by (simp add: dlit_def of_ratio_def round_ratio_def round_half_even_def pack_def units_zero inf_mag_def bit_len.simps [of 0])
  then have "\<not> mag (dlit c 100) < 2 ^ 52 \<or> units (dlit c 100) * 10 ^ nat (- (- int 2)) = c * one_units * 10 ^ nat (- int 2)"
    using cents_normal [OF assms] by (cases "c = 0") simp_all
  then have "range_checked False c 10 (- int 2) = Some (dlit c 100)"
    using cents_small(2) [OF assms] unfolding range_checked_def Let_def scaled finite_double_def by auto
  then show ?thesis
    using stod_decimal [OF numeric_numbers(2) mantissa_cents] by (simp add: show_cents [OF assms])
qed

section \<open>The round trip\<close>

text \<open>What a row can carry: a symbol of at most 15 characters, none of which has a meaning of its own, a price in whole cents and an
  enumerator for side and type.\<close>

definition writable :: "ReplayEvent \<Rightarrow> bool" where
  "writable ev \<longleftrightarrow>
     length (ev_symbol ev) \<le> 15 \<and> set (ev_symbol ev) \<inter> {CHR '','', CHR 0x0A, CHR 0x00} = {}
   \<and> ev_side ev \<in> {Buy, Sell} \<and> ev_type ev \<in> {Limit, Market, IOC} \<and> ev_action ev \<notin> {CHR '','', CHR 0x0A}
   \<and> (\<exists>c < 100 * 2 ^ 46. ev_price ev = dlit c 100)"

lemma fields_clean:
  assumes "writable ev" and "s \<in> set (event_fields ev)"
  shows "CHR '','' \<notin> set s" "CHR 0x0A \<notin> set s"
proof -
  have num: "CHR '','' \<notin> set s \<and> CHR 0x0A \<notin> set s" if "numeric s" for s
    using numeric_free [OF that, of "CHR '',''"] numeric_free [OF that, of "CHR 0x0A"] by simp
  have "CHR '','' \<notin> set (show_int i) \<and> CHR 0x0A \<notin> set (show_int i)" for i
    using num [OF numeric_numbers(1)] by (simp add: show_int_def)
  moreover have "CHR '','' \<notin> set (show_fixed 2 (ev_price ev)) \<and> CHR 0x0A \<notin> set (show_fixed 2 (ev_price ev))"
    using assms(1) num [OF numeric_numbers(2)] by (auto simp: writable_def show_cents)
  ultimately show "CHR '','' \<notin> set s" "CHR 0x0A \<notin> set s"
    using assms num [OF numeric_numbers(1)] by (auto simp: event_fields_def writable_def side_field_def type_field_def)
qed

lemma parse_event_fields:
  assumes "writable ev"
  shows "parse_fields (event_fields ev) = Some ev"
proof -
  obtain c where c: "c < 100 * 2 ^ 46" "ev_price ev = dlit c 100" using assms by (auto simp: writable_def)
  have price: "show_fixed 2 (ev_price ev) \<noteq> []" by (simp add: c(2) show_cents [OF c(1)] decimal_def)
  have "takeWhile (\<lambda>c. c \<noteq> CHR 0x00) (take 15 (ev_symbol ev)) = ev_symbol ev"
    using assms by (auto simp: writable_def takeWhile_eq_all_conv)
  moreover have "parse_side (side_field (ev_side ev)) = ev_side ev" "parse_type (type_field (ev_type ev)) = ev_type ev"
    using assms by (auto simp: writable_def parse_side_def parse_type_def side_field_def type_field_def)
  moreover have "unat (ev_quantity ev) < 2 ^ 64" "unat (ev_order_id ev) < 2 ^ 64"
    using unat_bound [of "ev_quantity ev"] unat_bound [of "ev_order_id ev"] by simp_all
  moreover have "stod (show_fixed 2 (ev_price ev)) = Some (ev_price ev)" by (simp only: c(2) stod_cents [OF c(1)])
  moreover have "ucast (ucast w :: 64 word) = w" for w :: Quantity by (rule bit_word_eqI) (auto simp: bit_simps)
  ultimately show ?thesis using price
    by (simp add: parse_fields_def event_fields_def stoll_show stoull_show)
qed

lemma line_event_write:
  assumes "writable ev"
  shows "line_event (join (CHR '','') (event_fields ev)) = Some ev"
proof -
  have "getlines (CHR '','') (join (CHR '','') (event_fields ev)) = event_fields ev"
    using fields_clean(1) [OF assms] by (intro getlines_join) (auto simp: event_fields_def)
  then show ?thesis using parse_event_fields [OF assms] by (simp add: line_event_def event_fields_def)
qed

text \<open>C35. Tapes round trip: the rows of any sequence of events, written in the documented format, are read back as exactly these events,
  in order. Timestamps and ids may have any value, prices any number of cents below \<open>2 ^ 46\<close> dollars.\<close>

theorem tape_roundtrip:
  assumes "\<forall>ev \<in> set evs. writable ev"
  shows "tape_events (tape_open (write_tape evs)) = evs"
proof -
  let ?row = "\<lambda>ev. join (CHR '','') (event_fields ev)"
  have join: "CHR 0x0A \<notin> set (join (CHR '','') ss)" if "\<forall>s \<in> set ss. CHR 0x0A \<notin> set s" for ss
    using that by (induction "CHR '',''" ss rule: join.induct) simp_all
  have "CHR 0x0A \<notin> set (?row ev)" if "ev \<in> set evs" for ev using assms that by (intro join ballI fields_clean(2)) simp_all
  then have "getlines (CHR 0x0A) (write_tape evs) = tape_header # map ?row evs"
    unfolding write_tape_def by (intro getlines_lines) (auto simp: tape_header_def)
  then have "tape_events (tape_open (write_tape evs)) = List.map_filter line_event (map ?row evs)"
    using tape_events_lines [of "tape_open (write_tape evs)"] by (simp add: tape_open_def)
  also have "\<dots> = evs" using assms by (induction evs) (simp_all add: line_event_write)
  finally show ?thesis .
qed

definition sample_events :: "ReplayEvent list" where
  "sample_events =
     [\<lparr>ev_timestamp_ns = 1000000000, ev_symbol = ''AAPL'', ev_side = Buy, ev_type = Limit, ev_price = dlit 15000 100, ev_quantity = 100,
       ev_action = CHR ''N'', ev_order_id = 1\<rparr>,
      \<lparr>ev_timestamp_ns = - 7, ev_symbol = ''MSFT'', ev_side = Sell, ev_type = IOC, ev_price = dlit 5 100, ev_quantity = 4294967295,
       ev_action = CHR ''C'', ev_order_id = - 1\<rparr>]"

theorem tape_roundtrip_witness: "tape_events (tape_open (write_tape sample_events)) = sample_events"
proof -
  have price: "\<exists>c < 7036874417766400. dlit n 100 = dlit c 100" if "n < 7036874417766400" for n :: nat using that by blast
  have "\<forall>ev \<in> set sample_events. writable ev" by (simp add: sample_events_def writable_def price)
  then show ?thesis by (rule tape_roundtrip)
qed

end
