(* ===== verification/BookInterface.thy ===== *)
theory BookInterface
  imports BookCorrect
begin

text \<open>
  The order book as an interface: what a caller of \<^verbatim>\<open>add_order\<close>, \<^verbatim>\<open>cancel_order\<close> and \<^verbatim>\<open>reduce_order\<close> may rely on,
  without pointers, and what follows from it for programs that make many such calls. The locale is interpreted on
  the model of the class.
\<close>

section \<open>Calls and their specification\<close>

datatype book_call = Add Timestamp Side OrderType Price Quantity | CancelId OrderId | Reduce OrderId Quantity

text \<open>The answers: the id of a new order, or whether the call has found what it should change.\<close>

datatype answer = NewId OrderId | Changed bool

definition a_reduce_call :: "OrderId \<Rightarrow> Quantity \<Rightarrow> abstract_book \<Rightarrow> bool \<times> abstract_book" where
  "a_reduce_call i q a =
     (case a_open i a of
        None \<Rightarrow> (False, a)
      | Some r \<Rightarrow> if r \<le> q then (False, a) else (True, if q = 0 then a_cancel i a else a_reduce i q a))"

fun spec_call :: "book_call \<Rightarrow> abstract_book \<Rightarrow> answer \<times> abstract_book" where
  "spec_call (Add now sd ty p q) a = (NewId (a_next a), a_add (Order_new now (a_next a) sd ty p q) a)"
| "spec_call (CancelId i) a = (Changed (i \<in> a_ids a), a_cancel i a)"
| "spec_call (Reduce i q) a = (let (c, a') = a_reduce_call i q a in (Changed c, a'))"

text \<open>A sequence of calls, on any implementation of one call.\<close>

fun run_calls :: "('c \<Rightarrow> 'b \<Rightarrow> 'r \<times> 'b) \<Rightarrow> 'c list \<Rightarrow> 'b \<Rightarrow> 'r list \<times> 'b" where
  "run_calls f [] b = ([], b)"
| "run_calls f (c # cs) b = (let (r, b1) = f c b; (rs, b2) = run_calls f cs b1 in (r # rs, b2))"

text \<open>A call as a dispatch over the three operations, and the operations of the class. \<^verbatim>\<open>add_order\<close> returns the address of the new
  order; the callers read its id.\<close>

fun dispatch :: "(Timestamp \<Rightarrow> Side \<Rightarrow> OrderType \<Rightarrow> Price \<Rightarrow> Quantity \<Rightarrow> 'b \<Rightarrow> OrderId \<times> 'b) \<Rightarrow> (OrderId \<Rightarrow> 'b \<Rightarrow> bool \<times> 'b)
    \<Rightarrow> (OrderId \<Rightarrow> Quantity \<Rightarrow> 'b \<Rightarrow> bool \<times> 'b) \<Rightarrow> book_call \<Rightarrow> 'b \<Rightarrow> answer \<times> 'b" where
  "dispatch add cancel reduce (Add now sd ty p q) b = map_prod NewId id (add now sd ty p q b)"
| "dispatch add cancel reduce (CancelId i) b = map_prod Changed id (cancel i b)"
| "dispatch add cancel reduce (Reduce i q) b = map_prod Changed id (reduce i q b)"

definition add_and_read :: "Timestamp \<Rightarrow> Side \<Rightarrow> OrderType \<Rightarrow> Price \<Rightarrow> Quantity \<Rightarrow> OrderBook \<Rightarrow> OrderId \<times> OrderBook" where
  "add_and_read now sd ty p q b = (let (ptr, b') = add_order now sd ty p q b in (o_id (order_at b' ptr), b'))"

definition book_call :: "book_call \<Rightarrow> OrderBook \<Rightarrow> answer \<times> OrderBook" where
  "book_call = dispatch add_and_read cancel_order reduce_order"

fun number_price :: "book_call \<Rightarrow> bool" where
  "number_price (Add now sd ty p q) \<longleftrightarrow> \<not> is_nan p"
| "number_price _ \<longleftrightarrow> True"

section \<open>The interface\<close>

locale order_store =
  fixes ok :: "'b \<Rightarrow> bool" and view :: "'b \<Rightarrow> abstract_book"
    and add :: "Timestamp \<Rightarrow> Side \<Rightarrow> OrderType \<Rightarrow> Price \<Rightarrow> Quantity \<Rightarrow> 'b \<Rightarrow> OrderId \<times> 'b"
    and cancel :: "OrderId \<Rightarrow> 'b \<Rightarrow> bool \<times> 'b" and reduce :: "OrderId \<Rightarrow> Quantity \<Rightarrow> 'b \<Rightarrow> bool \<times> 'b"
  assumes add_law: "ok b \<Longrightarrow> \<not> is_nan p \<Longrightarrow> a_next (view b) + 1 \<noteq> 0 \<Longrightarrow> ok (snd (add now sd ty p q b))
      \<and> fst (add now sd ty p q b) = a_next (view b) \<and> view (snd (add now sd ty p q b)) = a_add (Order_new now (a_next (view b)) sd ty p q) (view b)"
    and cancel_law: "ok b \<Longrightarrow> ok (snd (cancel i b)) \<and> fst (cancel i b) = (i \<in> a_ids (view b)) \<and> view (snd (cancel i b)) = a_cancel i (view b)"
    and reduce_law: "ok b \<Longrightarrow> ok (snd (reduce i q b)) \<and> (fst (reduce i q b), view (snd (reduce i q b))) = a_reduce_call i q (view b)"
    and ids_law: "ok b \<Longrightarrow> i \<in> a_ids (view b) \<Longrightarrow> i < a_next (view b)"
begin

abbreviation call :: "book_call \<Rightarrow> 'b \<Rightarrow> answer \<times> 'b" where
  "call \<equiv> dispatch add cancel reduce"

lemma call_refines:
  assumes "ok b" and "number_price c" and "a_next (view b) + 1 \<noteq> 0"
  shows "ok (snd (call c b))" and "spec_call c (view b) = (fst (call c b), view (snd (call c b)))"
proof -
  have "ok (snd (call c b)) \<and> spec_call c (view b) = (fst (call c b), view (snd (call c b)))"
  proof (cases c)
    case (Reduce i q)
    have "ok (snd (reduce i q b))" "a_reduce_call i q (view b) = (fst (reduce i q b), view (snd (reduce i q b)))"
      using reduce_law [OF assms(1), of i q] by simp_all
    then show ?thesis by (simp add: Reduce)
  qed (use add_law [OF assms(1) _ assms(3)] cancel_law [OF assms(1)] assms(2) in auto)
  then show "ok (snd (call c b))" "spec_call c (view b) = (fst (call c b), view (snd (call c b)))" by simp_all
qed

lemma spec_call_next:
  "a_next (snd (spec_call c a)) = (case c of Add _ _ _ _ _ \<Rightarrow> a_next a + 1 | _ \<Rightarrow> a_next a)"
  by (cases c) (auto simp: a_add_def a_cancel_def a_reduce_def map_sides_def a_reduce_call_def Let_def split: option.splits)

text \<open>Programs refine their specification.\<close>

lemma run_refines:
  assumes "ok b" and "\<forall>c \<in> set cs. number_price c" and "unat (a_next (view b)) + length cs < 2 ^ 64"
  shows "ok (snd (run_calls call cs b)) \<and> run_calls spec_call cs (view b) = (fst (run_calls call cs b), view (snd (run_calls call cs b)))"
  using assms
proof (induction cs arbitrary: b)
  case (Cons c cs)
  have small: "unat (a_next (view b)) + 1 < 2 ^ 64" using Cons.prems(3) by simp
  note suc = unat_suc(1) [OF small] and step = call_refines [OF Cons.prems(1) _ unat_suc(2) [OF small], of c]
  have c: "number_price c" "\<forall>c \<in> set cs. number_price c" using Cons.prems(2) by simp_all
  have "unat (a_next (view (snd (call c b)))) \<le> unat (a_next (view b)) + 1"
    using spec_call_next [of c "view b"] step(2) [OF c(1)] suc by (auto split: book_call.splits)
  then have "unat (a_next (view (snd (call c b)))) + length cs < 2 ^ 64" using Cons.prems(3) by simp
  from Cons.IH [OF step(1) [OF c(1)] c(2) this] show ?case by (simp add: Let_def case_prod_unfold step(2) [OF c(1)])
qed simp

text \<open>The id of a new order is fresh, and cancelling it gives the book back.\<close>

lemma add_cancel:
  assumes "ok b" and "\<not> is_nan p" and "a_next (view b) + 1 \<noteq> 0" and "add now sd ty p q b = (i, b')"
  shows "i \<notin> a_ids (view b)" and "fst (cancel i b')" and "view (snd (cancel i b')) = (view b)\<lparr>a_next := a_next (view b) + 1\<rparr>"
proof -
  have b': "ok b'" "i = a_next (view b)" "view b' = a_add (Order_new now i sd ty p q) (view b)"
    using add_law [OF assms(1-3), of now sd ty q] assms(4) by auto
  show fresh: "i \<notin> a_ids (view b)" using ids_law [OF assms(1), of i] b'(2) by blast
  then have "filter (\<lambda>ord. o_id ord \<noteq> i) (a_bids (view b)) = a_bids (view b)" "filter (\<lambda>ord. o_id ord \<noteq> i) (a_asks (view b)) = a_asks (view b)"
    by (auto simp: a_ids_def filter_id_conv)
  moreover have "i \<in> a_ids (view b')" unfolding b'(3) by (cases "sd = Buy") (auto simp: a_ids_def a_add_def map_sides_def enqueue_def)
  ultimately show "fst (cancel i b')" "view (snd (cancel i b')) = (view b)\<lparr>a_next := a_next (view b) + 1\<rparr>"
    using cancel_law [OF b'(1), of i] unfolding b'(3)
    by (cases "sd = Buy"; simp add: a_cancel_def a_add_def map_sides_def enqueue_def filter_insert_after b'(2))+
qed

text \<open>Cancelling is idempotent: the second cancel of an id finds nothing and changes nothing.\<close>

lemma cancel_twice:
  assumes "ok b"
  shows "\<not> fst (cancel i (snd (cancel i b)))" and "view (snd (cancel i (snd (cancel i b)))) = view (snd (cancel i b))"
proof -
  have c: "ok (snd (cancel i b))" "view (snd (cancel i b)) = a_cancel i (view b)" using cancel_law [OF assms] by simp_all
  show "\<not> fst (cancel i (snd (cancel i b)))" "view (snd (cancel i (snd (cancel i b)))) = view (snd (cancel i b))"
    using cancel_law [OF c(1), of i] unfolding c(2) by (auto simp: a_ids_def a_cancel_def map_sides_def)
qed

text \<open>Cancels of different orders can be exchanged, answers included.\<close>

lemma cancels_commute:
  assumes "ok b" and "i \<noteq> j"
  shows "fst (cancel j (snd (cancel i b))) = fst (cancel j b)"
    and "view (snd (cancel j (snd (cancel i b)))) = view (snd (cancel i (snd (cancel j b))))"
proof -
  have c: "ok (snd (cancel k b))" "view (snd (cancel k b)) = a_cancel k (view b)" for k using cancel_law [OF assms(1)] by simp_all
  have "j \<in> a_ids (a_cancel i (view b)) \<longleftrightarrow> j \<in> a_ids (view b)"
    using assms(2) by (auto simp: a_ids_def a_cancel_def map_sides_def image_iff)
  then show "fst (cancel j (snd (cancel i b))) = fst (cancel j b)"
    using cancel_law [OF c(1) [of i], of j] cancel_law [OF assms(1), of j] unfolding c(2) by simp
  show "view (snd (cancel j (snd (cancel i b)))) = view (snd (cancel i (snd (cancel j b))))"
    using cancel_law [OF c(1) [of i], of j] cancel_law [OF c(1) [of j], of i] unfolding c(2)
    by (simp add: a_cancel_def map_sides_def filter_filter conj_commute)
qed

end

section \<open>The class implements the interface\<close>

interpretation book: order_store book_ok abs_book add_and_read cancel_order reduce_order
proof (unfold_locales, goal_cases)
  case (1 b p now sd ty q)
  obtain ptr b' where a: "add_order now sd ty p q b = (ptr, b')" by fastforce
  then have add: "adds b now sd ty p q ptr b'" using 1 by (simp add: adds_def abs_book_def)
  have "o_id (order_at b' ptr) = next_order_id b" using adds_pool(4) [OF add] by simp
  then show ?case using add_order_ok [OF add] abs_add [OF add] a by (simp add: add_and_read_def abs_book_def)
next
  case (2 b i)
  then show ?case by (simp add: cancel_order_ok abs_cancel)
next
  case (3 b i q)
  show ?case
  proof (cases "a_open i (abs_book b)")
    case None
    then show ?thesis using 3 abs_reduce(1) [OF 3, of i q] reduce_order_ok [OF 3, of i q] by (simp add: a_reduce_call_def)
  next
    case (Some r)
    then have "i \<in> a_ids (abs_book b)" using a_open_None [of i "abs_book b"] by auto
    moreover have red: "reduce_order i q b = (if r \<le> q then (False, b) else if q = 0 then cancel_order i b else (True, snd (reduce_order i q b)))"
      using abs_reduce(1) [OF 3, of i q] Some by simp
    moreover have f: "fst (reduce_order i q b) = (q < r)"
      by (subst red) (auto simp: abs_cancel(2) [OF 3] \<open>i \<in> a_ids (abs_book b)\<close> not_le leD)
    ultimately have "abs_book (snd (reduce_order i q b)) = snd (a_reduce_call i q (abs_book b))"
      using abs_reduce(2) [OF 3 Some, of q] Some abs_cancel [OF 3, of i] by (auto simp: a_reduce_call_def not_le split: if_splits)
    then show ?thesis using reduce_order_ok [OF 3, of i q] Some f by (auto simp: a_reduce_call_def not_le)
  qed
next
  case (4 b i)
  then show ?case using live_ids(2) [OF 4(1)] unfolding a_ids_abs by (auto simp: abs_book_def)
qed

definition new_ids :: "answer list \<Rightarrow> OrderId list" where
  "new_ids = List.map_filter (\<lambda>r. case r of NewId i \<Rightarrow> Some i | Changed _ \<Rightarrow> None)"

lemma new_ids_simps [simp]: "new_ids [] = []" "new_ids (NewId i # rs) = i # new_ids rs" "new_ids (Changed c # rs) = new_ids rs"
  by (simp_all add: new_ids_def List.map_filter_simps)

lemma spec_ids:
  assumes "unat (a_next a) + length cs < 2 ^ 64"
  shows "distinct (new_ids (fst (run_calls spec_call cs a))) \<and> (\<forall>i \<in> set (new_ids (fst (run_calls spec_call cs a))). a_next a \<le> i)"
  using assms
proof (induction cs arbitrary: a)
  case (Cons c cs)
  have suc: "unat (a_next a + 1) = unat (a_next a) + 1" using Cons.prems by (intro unat_suc) simp
  then have less: "a_next a < a_next a + 1" by (simp add: word_less_nat_alt)
  have nxt: "a_next (snd (spec_call c a)) = (case c of Add _ _ _ _ _ \<Rightarrow> a_next a + 1 | _ \<Rightarrow> a_next a)" by (rule book.spec_call_next)
  then have "unat (a_next (snd (spec_call c a))) + length cs < 2 ^ 64" using Cons.prems suc by (auto split: book_call.splits)
  from Cons.IH [OF this] nxt less show ?case
    by (cases c) (fastforce simp: case_prod_unfold Let_def)+
qed simp

section \<open>Properties\<close>

text \<open>C11. Programs over an order book: any sequence of additions, cancels and reductions gives the answers, and leaves the book, of the
  same sequence on the two priority queues alone. The ids it hands out are distinct.\<close>

theorem book_programs_refine:
  assumes "\<forall>c \<in> set cs. number_price c" and "length cs + 1 < 2 ^ 64"
  shows "book_ok (snd (run_calls book_call cs (OrderBook_new symb pool_size)))
    \<and> run_calls spec_call cs \<lparr>a_bids = [], a_asks = [], a_next = 1\<rparr> =
        (fst (run_calls book_call cs (OrderBook_new symb pool_size)), abs_book (snd (run_calls book_call cs (OrderBook_new symb pool_size))))
    \<and> distinct (new_ids (fst (run_calls book_call cs (OrderBook_new symb pool_size))))"
proof -
  have new: "abs_book (OrderBook_new symb pool_size) = \<lparr>a_bids = [], a_asks = [], a_next = 1\<rparr>"
    by (simp add: abs_book_def queue_def ptrs_def levels_def OrderBook_new_def)
  from book.run_refines [OF OrderBook_new_ok assms(1), of symb pool_size] assms(2)
    spec_ids [of "\<lparr>a_bids = [], a_asks = [], a_next = 1\<rparr>" cs] show ?thesis by (simp add: new book_call_def)
qed

definition sample_calls :: "book_call list" where
  "sample_calls = [Add 7 Buy Limit p100 10, Reduce 1 4, Add 8 Sell Limit p101 5, CancelId 1, CancelId 1]"

theorem book_programs_refine_witness:
  "fst (run_calls book_call sample_calls (OrderBook_new ''AAPL'' 10)) = [NewId 1, Changed True, NewId 2, Changed True, Changed False]
   \<and> abs_book (snd (run_calls book_call sample_calls (OrderBook_new ''AAPL'' 10))) =
      \<lparr>a_bids = [], a_asks = [Order_new 8 2 Sell Limit p101 5], a_next = 3\<rparr>"
proof -
  have "run_calls spec_call sample_calls \<lparr>a_bids = [], a_asks = [], a_next = 1\<rparr> =
    ([NewId 1, Changed True, NewId 2, Changed True, Changed False], \<lparr>a_bids = [], a_asks = [Order_new 8 2 Sell Limit p101 5], a_next = 3\<rparr>)"
    by (auto simp: sample_calls_def a_add_def map_sides_def enqueue_def insert_after_def a_reduce_call_def a_open_def a_reduce_def a_cancel_def a_ids_def Let_def)
  moreover have "\<forall>c \<in> set sample_calls. number_price c" "length sample_calls + 1 < 2 ^ 64" by (simp_all add: sample_calls_def)
  ultimately show ?thesis using book_programs_refine [of sample_calls "''AAPL''" 10] by simp
qed

text \<open>Cancels are idempotent and commute: a second cancel of an id is refused and changes nothing, and cancels of
  different ids may be exchanged, answers included.\<close>

theorem cancels_idempotent_and_commute:
  assumes "book_ok b" and "i \<noteq> j"
  shows "\<not> fst (cancel_order i (snd (cancel_order i b))) \<and> abs_book (snd (cancel_order i (snd (cancel_order i b)))) = abs_book (snd (cancel_order i b))
    \<and> fst (cancel_order j (snd (cancel_order i b))) = fst (cancel_order j b)
    \<and> abs_book (snd (cancel_order j (snd (cancel_order i b)))) = abs_book (snd (cancel_order i (snd (cancel_order j b))))"
  using book.cancel_twice [OF assms(1), of i] book.cancels_commute [OF assms] by simp

theorem cancels_idempotent_and_commute_witness:
  "fst (cancel_order 1 book1) \<and> \<not> fst (cancel_order 1 (snd (cancel_order 1 book1)))"
  using cancels_idempotent_and_commute [of book1 1 2] abs_cancel(2) [of book1 1] by (simp add: abs_book1 a_ids_def)

end
