(* ===== verification/ExchangeInterface.thy ===== *)
theory ExchangeInterface
  imports Determinism BookInterface
begin

text \<open>
  The exchange as its clients see it: requests to place and to withdraw orders, each answered with an id or a truth value and
  with the trades it caused. The specification keeps one pair of priority queues per symbol and knows no pointers, index,
  pool or price levels. A locale states what serving one request must give; from it follow, for every sequence of
  requests, the refinement of the specification and the ledger of every order. The locale is interpreted on the
  matching engine.
\<close>

section \<open>Requests and their specification\<close>

datatype request = Place clock string Side OrderType Price Quantity | Withdraw string OrderId

type_synonym response = "answer \<times> Trade list"

type_synonym exchange_spec = "string \<Rightarrow> abstract_book"

definition empty_exchange :: exchange_spec where
  "empty_exchange symb = \<lparr>a_bids = [], a_asks = [], a_next = 1\<rparr>"

fun spec_request :: "request \<Rightarrow> exchange_spec \<Rightarrow> response \<times> exchange_spec" where
  "spec_request (Place now symb sd ty price q) x =
     (if accepted ty price q
      then (let i = a_next (x symb);
                (fs, a) = a_submit (Order_new (now 1) i sd ty (effective_price sd ty price) q) (x symb)
            in ((NewId i, trades_of (\<lambda>j. now (2 + j)) 0 (sd = Buy) i fs), x(symb := a)))
      else ((NewId 0, []), x))"
| "spec_request (Withdraw symb i) x = ((Changed (i \<in> a_ids (x symb)), []), x(symb := a_cancel i (x symb)))"

text \<open>What a request adds to the statistics, latencies apart.\<close>

definition count_trade :: "Trade \<Rightarrow> EngineStats \<Rightarrow> EngineStats" where
  "count_trade t st = st\<lparr>total_trades := total_trades st + 1, total_volume := total_volume st + ucast (t_quantity t),
     total_notional := dadd (total_notional st) (dmul (t_price t) (of_uint (t_quantity t)))\<rparr>"

fun count :: "request \<Rightarrow> response \<Rightarrow> EngineStats \<Rightarrow> EngineStats" where
  "count (Place now symb sd ty price q) (NewId i, ts) st =
     (let st1 = st\<lparr>total_orders := total_orders st + 1\<rparr>
      in if i = 0 then st1\<lparr>total_rejects := total_rejects st1 + 1\<rparr> else fold count_trade ts st1)"
| "count (Withdraw symb i) (Changed c, ts) st = (if c then st\<lparr>total_cancels := total_cancels st + 1\<rparr> else st)"
| "count _ _ st = st"

definition count_all :: "request list \<Rightarrow> response list \<Rightarrow> EngineStats \<Rightarrow> EngineStats" where
  "count_all rs anss = fold (\<lambda>(r, ans). count r ans) (zip rs anss)"

text \<open>A sequence of requests, each of which may fail to be served.\<close>

fun run_requests :: "(request \<Rightarrow> 'e \<Rightarrow> (response \<times> 'e) option) \<Rightarrow> request list \<Rightarrow> 'e \<Rightarrow> (response list \<times> 'e) option" where
  "run_requests f [] e = Some ([], e)"
| "run_requests f (r # rs) e =
     (case f r e of
        None \<Rightarrow> None
      | Some (ans, e1) \<Rightarrow> (case run_requests f rs e1 of None \<Rightarrow> None | Some (anss, e2) \<Rightarrow> Some (ans # anss, e2)))"

fun sane :: "request \<Rightarrow> bool" where
  "sane (Place now symb sd ty price q) \<longleftrightarrow> ty = Market \<or> \<not> is_nan price"
| "sane (Withdraw symb i) \<longleftrightarrow> True"

section \<open>The ledger\<close>

text \<open>Of a sequence of requests with their responses, by symbol and id: how much was placed (an order
  that is refused has the id 0), and how much was traded.\<close>

fun placed :: "string \<Rightarrow> OrderId \<Rightarrow> request \<Rightarrow> response \<Rightarrow> nat" where
  "placed symb i (Place now symb' sd ty price q) (NewId j, ts) = (if symb' = symb \<and> j = i \<and> i \<noteq> 0 then unat q else 0)"
| "placed symb i _ _ = 0"

definition fills_of :: "OrderId \<Rightarrow> Trade list \<Rightarrow> nat" where
  "fills_of i ts = (\<Sum>t \<leftarrow> ts. (if t_buy_order_id t = i then unat (t_quantity t) else 0)
     + (if t_sell_order_id t = i then unat (t_quantity t) else 0))"

fun traded :: "string \<Rightarrow> OrderId \<Rightarrow> request \<Rightarrow> response \<Rightarrow> nat" where
  "traded symb i (Place now symb' sd ty price q) (ans, ts) = (if symb' = symb then fills_of i ts else 0)"
| "traded symb i (Withdraw symb' j) _ = 0"

definition tally :: "(request \<Rightarrow> response \<Rightarrow> nat) \<Rightarrow> request list \<Rightarrow> response list \<Rightarrow> nat" where
  "tally f rs anss = (\<Sum>(r, ans) \<leftarrow> zip rs anss. f r ans)"

definition queued :: "OrderId \<Rightarrow> Order list \<Rightarrow> nat" where
  "queued i qs = (\<Sum>ord \<leftarrow> qs. if o_id ord = i then unat (o_remaining_qty ord) else 0)"

definition open_qty :: "OrderId \<Rightarrow> abstract_book \<Rightarrow> nat" where
  "open_qty i a = queued i (a_bids a) + queued i (a_asks a)"

lemma tally_simps [simp]: "tally f [] anss = 0" "tally f (r # rs) (ans # anss) = f r ans + tally f rs anss"
  by (simp_all add: tally_def)

lemma queued_simps [simp]: "queued i [] = 0" "queued i (r # rs) = (if o_id r = i then unat (o_remaining_qty r) else 0) + queued i rs"
  "queued i (xs @ ys) = queued i xs + queued i ys"
  by (simp_all add: queued_def)

lemma fills_of_simps [simp]: "fills_of i [] = 0"
  "fills_of i (t # ts) = (if t_buy_order_id t = i then unat (t_quantity t) else 0) + (if t_sell_order_id t = i then unat (t_quantity t) else 0) + fills_of i ts"
  by (simp_all add: fills_of_def)

text \<open>What a submission takes from the queue and what it leaves there add up for every order.\<close>

lemma fill_queue_ledger:
  "fill_queue match q qs = (fs, q', rs) \<Longrightarrow>
     (\<Sum>(r, f) \<leftarrow> fs. if o_id r = i then unat f else 0) + queued i rs = queued i qs"
proof (induction match q qs arbitrary: fs q' rs rule: fill_queue.induct)
  case (2 match q r rest)
  show ?case
  proof (cases "q = 0 \<or> \<not> match r \<or> q < o_remaining_qty r")
    case True
    moreover have "unat (o_remaining_qty r - q) = unat (o_remaining_qty r) - unat q" "unat q \<le> unat (o_remaining_qty r)"
      if "q < o_remaining_qty r" using that unat_diff [of q "o_remaining_qty r"] by (simp_all add: word_less_nat_alt word_le_nat_alt)
    ultimately show ?thesis using "2.prems" by (auto split: if_splits)
  next
    case False
    then obtain fs' where "fill_queue match (q - o_remaining_qty r) rest = (fs', q', rs)" "fs = (r, o_remaining_qty r) # fs'"
      using "2.prems" by (blast elim: fill_queue_consume)
    with "2.IH" False show ?thesis by auto
  qed
qed auto

lemma trades_of_fills:
  assumes "\<forall>(r, f) \<in> set fs. o_id r \<noteq> i"
  shows "fills_of j (trades_of now n buy i fs) =
    (if j = i then \<Sum>(r, f) \<leftarrow> fs. unat f else \<Sum>(r, f) \<leftarrow> fs. if o_id r = j then unat f else 0)"
  using assms by (induction fs arbitrary: n) (auto simp: trade_of_def split_def)

lemma queued_insert_after: "queued i (insert_after P x qs) = queued i (x # qs)"
proof -
  have "queued i (takeWhile P qs) + queued i (dropWhile P qs) = queued i qs" by (metis queued_simps(3) takeWhile_dropWhile_id)
  then show ?thesis by (simp add: insert_after_def)
qed

section \<open>The interface\<close>

text \<open>The bookkeeping of one symbol: every id has traded and still has on the book no more than was placed under it, exactly
  as much while it is on the book, and nothing was placed under the ids to come.\<close>

definition balanced :: "(OrderId \<Rightarrow> nat) \<Rightarrow> (OrderId \<Rightarrow> nat) \<Rightarrow> abstract_book \<Rightarrow> bool" where
  "balanced pl fl a \<longleftrightarrow> (\<forall>i. fl i + open_qty i a \<le> pl i \<and> (i \<in> a_ids a \<longrightarrow> fl i + open_qty i a = pl i)
     \<and> (a_next a \<le> i \<longrightarrow> pl i = 0 \<and> i \<notin> a_ids a))"

text \<open>After a submission the book holds no ids but those it held and, if a remainder rests, the one of the order.\<close>

lemma a_submit_members:
  assumes fill: "fill_queue (crosses (o_side ord = Buy) (o_price ord)) (o_remaining_qty ord) (a_side (o_side ord \<noteq> Buy) a) = (fs, q, rs)"
    and sub: "a_submit ord a = (fs, a')" and mem: "i \<in> a_ids a'"
  shows "i \<in> a_ids a \<or> i = o_id ord \<and> 0 < q \<and> may_rest (o_type ord)"
proof -
  let ?buy = "o_side ord = Buy"
  have "o_id r \<in> a_ids a" if "r \<in> set rs" for r
    using fill_queue_rest [OF fill that] unfolding a_ids_sides [of a ?buy] by (metis same_key_def UnI2 image_eqI)
  then show ?thesis
    using mem unfolding a_ids_sides [of a' ?buy] a_submit_sides(2,3) [OF fill, unfolded sub snd_conv]
    by (auto simp: enqueue_def remainder_def a_ids_sides [of a ?buy] split: if_splits)
qed

lemma balanced_submit:
  assumes bal: "balanced pl fl a" and next': "a_next a + 1 \<noteq> 0" and ord: "o_id ord = a_next a" "o_remaining_qty ord = o_quantity ord"
    and sub: "a_submit ord a = (fs, a')"
  shows "balanced (\<lambda>i. pl i + (if i = a_next a then unat (o_quantity ord) else 0))
    (\<lambda>i. fl i + fills_of i (trades_of now n buy (a_next a) fs)) a'"
proof -
  let ?buy = "o_side ord = Buy"
  obtain q rs where fill: "fill_queue (crosses ?buy (o_price ord)) (o_remaining_qty ord) (a_side (\<not> ?buy) a) = (fs, q, rs)"
    using a_submit_sides(1) sub by (metis fst_conv prod_cases3)
  note sides = a_submit_sides [OF fill, unfolded sub snd_conv]
  note ids = a_submit_ids [OF sub, unfolded ord(1)]
  have new: "a_next a \<notin> a_ids a" "pl (a_next a) = 0" "fl (a_next a) = 0" "open_qty (a_next a) a = 0"
    using bal by (fastforce simp: balanced_def)+
  have open_sides: "open_qty i x = queued i (a_side ?buy x) + queued i (a_side (\<not> ?buy) x)" for i x
    by (cases ?buy) (simp_all add: open_qty_def a_side_def)
  have own: "queued i (a_side ?buy a') = (if i = a_next a \<and> 0 < q \<and> may_rest (o_type ord) then unat q else 0) + queued i (a_side ?buy a)" for i
    using sides(3) by (simp add: enqueue_def queued_insert_after remainder_def ord)
  note ledger = fill_queue_ledger [OF fill] and filled = fill_queue_conserves [OF fill]
  have fills: "fills_of i (trades_of now n buy (a_next a) fs) =
      (if i = a_next a then \<Sum>(r, f) \<leftarrow> fs. unat f else \<Sum>(r, f) \<leftarrow> fs. if o_id r = i then unat f else 0)" for i
    using ids(2) new(1) by (intro trades_of_fills) (force simp: split_def)
  note member = a_submit_members [OF fill sub, unfolded ord(1)]
  have later: "a_next a \<le> i \<and> i \<noteq> a_next a" if "a_next a' \<le> i" for i
  proof -
    have "a_next a < a_next a + 1" using next' by (rule less_plus_1)
    with that sides(4) show ?thesis by auto
  qed
  have total: "fl i + fills_of i (trades_of now n buy (a_next a) fs) + open_qty i a' =
      (if i = a_next a then (if 0 < q \<and> may_rest (o_type ord) then unat (o_quantity ord) else unat (o_quantity ord) - unat q) else fl i + open_qty i a)" for i
    using ledger [of i] filled new ord(2) unfolding open_sides own fills sides(2) by auto
  show ?thesis
    unfolding balanced_def
  proof
    fix i
    have "fl i + open_qty i a \<le> pl i \<and> (i \<in> a_ids a \<longrightarrow> fl i + open_qty i a = pl i) \<and> (a_next a \<le> i \<longrightarrow> pl i = 0 \<and> i \<notin> a_ids a)"
      using bal by (simp add: balanced_def)
    with total [of i] member [of i] later [of i] new
    show "fl i + fills_of i (trades_of now n buy (a_next a) fs) + open_qty i a' \<le> pl i + (if i = a_next a then unat (o_quantity ord) else 0)
      \<and> (i \<in> a_ids a' \<longrightarrow> fl i + fills_of i (trades_of now n buy (a_next a) fs) + open_qty i a' = pl i + (if i = a_next a then unat (o_quantity ord) else 0))
      \<and> (a_next a' \<le> i \<longrightarrow> pl i + (if i = a_next a then unat (o_quantity ord) else 0) = 0 \<and> i \<notin> a_ids a')"
      by (cases "i = a_next a") auto
  qed
qed

lemma balanced_cancel:
  assumes "balanced pl fl a"
  shows "balanced pl fl (a_cancel i a)"
proof -
  have "queued j (filter (\<lambda>ord. o_id ord \<noteq> i) qs) = (if j = i then 0 else queued j qs)" for j qs
    by (induction qs) auto
  then have "open_qty j (a_cancel i a) = (if j = i then 0 else open_qty j a)" for j
    by (simp add: open_qty_def a_cancel_def map_sides_def)
  moreover have "a_ids (a_cancel i a) = a_ids a - {i}" by (auto simp: a_ids_def a_cancel_def map_sides_def)
  moreover have "a_next (a_cancel i a) = a_next a" by (simp add: a_cancel_def map_sides_def)
  ultimately show ?thesis using assms by (auto simp: balanced_def intro: order_trans [OF add_leD1])
qed

text \<open>One request keeps the books of every symbol.\<close>

definition ledger_ok :: "(string \<Rightarrow> OrderId \<Rightarrow> nat) \<Rightarrow> (string \<Rightarrow> OrderId \<Rightarrow> nat) \<Rightarrow> exchange_spec \<Rightarrow> bool" where
  "ledger_ok pl fl x \<longleftrightarrow> (\<forall>symb. balanced (pl symb) (fl symb) (x symb))"

lemma ledger_request:
  assumes ok: "ledger_ok pl fl x" and next': "\<forall>symb. 0 < a_next (x symb) \<and> a_next (x symb) + 1 \<noteq> 0"
    and req: "spec_request r x = (ans, x')"
  shows "ledger_ok (\<lambda>symb i. pl symb i + placed symb i r ans) (\<lambda>symb i. fl symb i + traded symb i r ans) x'"
proof (cases r)
  case (Place now symb sd ty price q)
  show ?thesis
  proof (cases "accepted ty price q")
    case True
    obtain fs a where sub: "a_submit (Order_new (now 1) (a_next (x symb)) sd ty (effective_price sd ty price) q) (x symb) = (fs, a)" by fastforce
    let ?ts = "trades_of (\<lambda>j. now (2 + j)) 0 (sd = Buy) (a_next (x symb)) fs"
    have ans: "ans = (NewId (a_next (x symb)), ?ts)" and x': "x' = x(symb := a)" using req True sub by (auto simp: Place Let_def)
    have bal: "balanced (pl symb) (fl symb) (x symb)" using ok by (simp add: ledger_ok_def)
    have "(\<lambda>i. pl symb i + placed symb i r ans) = (\<lambda>i. pl symb i + (if i = a_next (x symb) then unat q else 0))"
      using spec [OF next', of symb] by (auto simp: Place ans intro!: ext)
    moreover have "(\<lambda>i. fl symb i + traded symb i r ans) = (\<lambda>i. fl symb i + fills_of i ?ts)" by (simp add: Place ans)
    ultimately have "balanced (\<lambda>i. pl symb i + placed symb i r ans) (\<lambda>i. fl symb i + traded symb i r ans) a"
      using balanced_submit [OF bal _ _ _ sub, of "\<lambda>j. now (2 + j)" 0 "sd = Buy"] next' by (simp cong: if_cong)
    then show ?thesis using ok by (auto simp: ledger_ok_def x' Place ans)
  next
    case False
    then show ?thesis using req ok by (auto simp: Place ledger_ok_def cong: if_cong)
  qed
next
  case (Withdraw symb i)
  with req have "x' = x(symb := a_cancel i (x symb))" "placed s j r ans = 0" "traded s j r ans = 0" for s j by auto
  then show ?thesis using ok balanced_cancel by (simp add: ledger_ok_def)
qed

locale exchange =
  fixes ok :: "nat \<Rightarrow> 'e \<Rightarrow> bool" and view :: "'e \<Rightarrow> exchange_spec" and serve :: "request \<Rightarrow> 'e \<Rightarrow> (response \<times> 'e) option"
    and counters :: "'e \<Rightarrow> EngineStats"
  assumes serve_law: "ok k e \<Longrightarrow> sane r \<Longrightarrow> k + 1 < 2 ^ 64 \<Longrightarrow>
      \<exists>e'. serve r e = Some (fst (spec_request r (view e)), e') \<and> view e' = snd (spec_request r (view e)) \<and> ok (k + 1) e'"
    and count_law: "ok k e \<Longrightarrow> sane r \<Longrightarrow> k + 1 < 2 ^ 64 \<Longrightarrow> serve r e = Some (ans, e') \<Longrightarrow> counters e' = count r ans (counters e)"
    and ids_law: "ok k e \<Longrightarrow> 0 < a_next (view e symb) \<and> unat (a_next (view e symb)) \<le> k"
begin

lemma run_refines:
  assumes "ok k e" and "\<forall>r \<in> set rs. sane r" and "k + length rs < 2 ^ 64"
  shows "\<exists>e'. run_requests serve rs e = Some (fst (run_calls spec_request rs (view e)), e')
    \<and> view e' = snd (run_calls spec_request rs (view e)) \<and> ok (k + length rs) e'"
  using assms
proof (induction rs arbitrary: k e)
  case (Cons r rs)
  then obtain e1 where e1: "serve r e = Some (fst (spec_request r (view e)), e1)" "view e1 = snd (spec_request r (view e))" "ok (k + 1) e1"
    using serve_law [of k e r] by auto
  from Cons.IH [OF e1(3)] Cons.prems obtain e2 where "run_requests serve rs e1 = Some (fst (run_calls spec_request rs (view e1)), e2)"
    "view e2 = snd (run_calls spec_request rs (view e1))" "ok (k + 1 + length rs) e2" by auto
  with e1 show ?case by (simp add: split_def Let_def)
qed simp

text \<open>The statistics are those of the requests and their responses.\<close>

lemma run_counts:
  assumes "ok k e" and "\<forall>r \<in> set rs. sane r" and "k + length rs < 2 ^ 64" and "run_requests serve rs e = Some (anss, e')"
  shows "counters e' = count_all rs anss (counters e)"
  using assms
proof (induction rs arbitrary: k e anss)
  case (Cons r rs)
  then obtain ans e1 anss' where e1: "serve r e = Some (ans, e1)" "run_requests serve rs e1 = Some (anss', e')" "anss = ans # anss'"
    by (auto split: option.splits)
  have r: "sane r" "k + 1 < 2 ^ 64" using Cons.prems by simp_all
  have "ok (k + 1) e1" using serve_law [OF Cons.prems(1) r] e1(1) by auto
  from Cons.IH [OF this _ _ e1(2)] count_law [OF Cons.prems(1) r e1(1)] Cons.prems(2,3) e1(3) show ?case by (simp add: count_all_def)
qed (simp add: count_all_def)

text \<open>The ledger of every order stays balanced.\<close>

lemma run_ledger:
  assumes "ok k e" and "\<forall>r \<in> set rs. sane r" and "k + length rs < 2 ^ 64" and "ledger_ok pl fl (view e)"
    and "run_requests serve rs e = Some (anss, e')"
  shows "ledger_ok (\<lambda>symb i. pl symb i + tally (placed symb i) rs anss) (\<lambda>symb i. fl symb i + tally (traded symb i) rs anss) (view e')"
  using assms
proof (induction rs arbitrary: k e pl fl anss)
  case (Cons r rs)
  have "k + 1 < 2 ^ 64" using Cons.prems(3) by simp
  then obtain e1 where e1: "serve r e = Some (fst (spec_request r (view e)), e1)" "view e1 = snd (spec_request r (view e))" "ok (k + 1) e1"
    using serve_law [OF Cons.prems(1), of r] Cons.prems(2) by auto
  define ans where "ans = fst (spec_request r (view e))"
  obtain anss' where anss: "run_requests serve rs e1 = Some (anss', e')" "anss = ans # anss'"
    using Cons.prems(5) e1(1) by (auto simp: ans_def split: option.splits)
  have "unat (a_next (view e symb)) + 1 < 2 ^ 64" for symb using ids_law [OF Cons.prems(1), of symb] \<open>k + 1 < 2 ^ 64\<close> by simp
  then have "a_next (view e symb) + 1 \<noteq> 0" for symb
    by (intro unat_suc(2))
  then have "\<forall>symb. 0 < a_next (view e symb) \<and> a_next (view e symb) + 1 \<noteq> 0" using ids_law [OF Cons.prems(1)] by simp
  from ledger_request [OF Cons.prems(4) this, of r ans "view e1"] e1(2)
  have "ledger_ok (\<lambda>symb i. pl symb i + placed symb i r ans) (\<lambda>symb i. fl symb i + traded symb i r ans) (view e1)" by (simp add: ans_def)
  from Cons.IH [OF e1(3) _ _ this anss(1)] Cons.prems(2,3) show ?case by (simp add: anss(2) add.assoc)
qed simp

text \<open>Ids only grow: nothing more is placed under an id that has been given out.\<close>

lemma next_grows:
  assumes "ok k e" and "sane r" and "k + 1 < 2 ^ 64" and "serve r e = Some (ans, e')"
  shows "a_next (view e symb) \<le> a_next (view e' symb)" and "i < a_next (view e symb) \<Longrightarrow> placed symb i r ans = 0"
    and "placed symb i r ans \<noteq> 0 \<Longrightarrow> i < a_next (view e' symb)"
proof -
  have e': "view e' = snd (spec_request r (view e))" and ans: "ans = fst (spec_request r (view e))"
    using serve_law [OF assms(1-3)] assms(4) by auto
  have "unat (a_next (view e symb)) + 1 < 2 ^ 64" for symb using ids_law [OF assms(1), of symb] assms(3) by simp
  then have less: "a_next (view e symb) < a_next (view e symb) + 1" for symb by (intro less_plus_1 unat_suc(2))
  have "a_next (snd (a_submit ord a)) = a_next a + 1" for ord a by (simp add: a_submit_def Let_def split_def)
  with less have le: "a_next (view e symb) \<le> a_next (view e' symb)"
    "placed symb i r ans \<noteq> 0 \<Longrightarrow> i = a_next (view e symb) \<and> a_next (view e' symb) = a_next (view e symb) + 1" for i symb
    by (cases r; auto simp: e' ans Let_def split_def a_cancel_def map_sides_def less_imp_le split: if_splits)+
  show "a_next (view e symb) \<le> a_next (view e' symb)" by (rule le(1))
  show "i < a_next (view e symb) \<Longrightarrow> placed symb i r ans = 0" "placed symb i r ans \<noteq> 0 \<Longrightarrow> i < a_next (view e' symb)"
    using le(2) [of symb i] less [of symb] by auto
qed

lemma placed_never_again:
  assumes "ok k e" and "\<forall>r \<in> set rs. sane r" and "k + length rs < 2 ^ 64" and "run_requests serve rs e = Some (anss, e')"
    and "i < a_next (view e symb)"
  shows "tally (placed symb i) rs anss = 0"
  using assms
proof (induction rs arbitrary: k e anss)
  case (Cons r rs)
  then obtain ans e1 anss' where e1: "serve r e = Some (ans, e1)" "run_requests serve rs e1 = Some (anss', e')" "anss = ans # anss'"
    by (auto split: option.splits)
  have r: "sane r" "k + 1 < 2 ^ 64" using Cons.prems by simp_all
  note grows = next_grows [OF Cons.prems(1) r e1(1)]
  have "ok (k + 1) e1" using serve_law [OF Cons.prems(1) r] e1(1) by auto
  from Cons.IH [OF this _ _ e1(2)] Cons.prems grows(1) [of symb] grows(2) [of i symb] show ?case by (simp add: e1(3))
qed simp

lemma placed_once:
  assumes "ok k e" and "\<forall>r \<in> set rs. sane r" and "k + length rs < 2 ^ 64" and "run_requests serve rs e = Some (anss, e')"
    and "n < length rs" and "rs ! n = Place now symb sd ty price q" and "fst (anss ! n) = NewId i" and "i \<noteq> 0"
  shows "tally (placed symb i) rs anss = unat q \<and> 0 < unat q"
  using assms
proof (induction rs arbitrary: k e anss n)
  case (Cons r rs)
  then obtain ans e1 anss' where e1: "serve r e = Some (ans, e1)" "run_requests serve rs e1 = Some (anss', e')" "anss = ans # anss'"
    by (auto split: option.splits)
  have r: "sane r" "k + 1 < 2 ^ 64" and rs: "\<forall>r \<in> set rs. sane r" "k + 1 + length rs < 2 ^ 64" using Cons.prems by simp_all
  have ok1: "ok (k + 1) e1" and ans: "ans = fst (spec_request r (view e))" using serve_law [OF Cons.prems(1) r] e1(1) by auto
  have later: "tally (placed symb i) rs anss' = 0" if "placed symb i r ans \<noteq> 0"
    by (rule placed_never_again [OF ok1 rs e1(2) next_grows(3) [OF Cons.prems(1) r e1(1) that]])
  show ?case
  proof (cases n)
    case 0
    then have place: "r = Place now symb sd ty price q" "fst ans = NewId i" using Cons.prems(6,7) e1(3) by simp_all
    then have "q \<noteq> 0" using ans Cons.prems(8) by (auto simp: accepted_def split: if_splits)
    then have "placed symb i r ans = unat q \<and> 0 < unat q" using place Cons.prems(8) by (cases ans) (simp add: unat_gt_0)
    with later show ?thesis by (simp add: e1(3))
  next
    case (Suc m)
    with Cons.IH [OF ok1 rs e1(2), of m] Cons.prems e1(3) have "tally (placed symb i) rs anss' = unat q \<and> 0 < unat q" by simp
    with later show ?thesis by (cases "placed symb i r ans = 0") (simp_all add: e1(3))
  qed
qed simp

text \<open>The ledger of one order: what was traded and what is open never exceed what was placed, and equal it while the order
  is on the book.\<close>

lemma order_balance:
  assumes ok: "ok k e" and sane: "\<forall>r \<in> set rs. sane r" and len: "k + length rs < 2 ^ 64"
    and empty: "ledger_ok (\<lambda>_ _. 0) (\<lambda>_ _. 0) (view e)" and run: "run_requests serve rs e = Some (anss, e')"
    and req: "n < length rs" "rs ! n = Place now symb sd ty price q" "fst (anss ! n) = NewId i" "i \<noteq> 0"
  shows "tally (traded symb i) rs anss + open_qty i (view e' symb) \<le> unat q"
    and "i \<in> a_ids (view e' symb) \<Longrightarrow> tally (traded symb i) rs anss + open_qty i (view e' symb) = unat q"
proof -
  have "balanced (\<lambda>i. tally (placed symb i) rs anss) (\<lambda>i. tally (traded symb i) rs anss) (view e' symb)"
    using run_ledger [OF ok sane len empty run] by (simp add: ledger_ok_def)
  then have "tally (traded symb i) rs anss + open_qty i (view e' symb) \<le> tally (placed symb i) rs anss"
    "i \<in> a_ids (view e' symb) \<Longrightarrow> tally (traded symb i) rs anss + open_qty i (view e' symb) = tally (placed symb i) rs anss"
    unfolding balanced_def by blast+
  then show "tally (traded symb i) rs anss + open_qty i (view e' symb) \<le> unat q"
    "i \<in> a_ids (view e' symb) \<Longrightarrow> tally (traded symb i) rs anss + open_qty i (view e' symb) = unat q"
    using placed_once [OF ok sane len run req] by simp_all
qed

end

section \<open>The engine implements the interface\<close>

text \<open>The engine with a callback that hands the trades of a request back with its answer.\<close>

fun engine_request :: "request \<Rightarrow> Trade list MatchingEngine \<Rightarrow> (response \<times> Trade list MatchingEngine) option" where
  "engine_request (Place now symb sd ty price q) e =
     (case submit_order now symb sd ty price q (e, []) of None \<Rightarrow> None | Some (i, e', ts) \<Rightarrow> Some ((NewId i, ts), e'))"
| "engine_request (Withdraw symb i) e = (let (c, e') = engine_cancel_order symb i e in Some ((Changed c, []), e'))"

definition recording :: "nat \<Rightarrow> Trade list MatchingEngine \<Rightarrow> bool" where
  "recording k e \<longleftrightarrow> engine_inv k e \<and> trade_callback e = Some recorder"

lemma engine_request_place:
  assumes rec: "recording k e" and price: "ty = Market \<or> \<not> is_nan price" and k: "k + 1 < 2 ^ 64"
  shows "\<exists>e'. engine_request (Place now symb sd ty price q) e = Some (fst (spec_request (Place now symb sd ty price q) (\<lambda>s. abs_book (book_of e s))), e')
    \<and> (\<lambda>s. abs_book (book_of e' s)) = snd (spec_request (Place now symb sd ty price q) (\<lambda>s. abs_book (book_of e s))) \<and> recording (k + 1) e'"
proof -
  have inv: "engine_inv k e" and cb: "trade_callback e = Some recorder" using rec by (simp_all add: recording_def)
  obtain i e' ts where sub: "submit_order now symb sd ty price q (e, []) = Some (i, e', ts)" and inv': "engine_inv (k + 1) e'"
    using submit_engine_inv [OF inv price k] by metis
  have rec': "recording (k + 1) e'" using inv' submit_frame(2) [OF sub] cb by (simp add: recording_def)
  have other: "abs_book (book_of e' s) = abs_book (book_of e s)" if "s \<noteq> symb" for s
    using submit_frame(1) [OF sub that] book_of_cong [of e' s e] by simp
  show ?thesis
  proof (cases "accepted ty price q")
    case True
    obtain fs a where spec: "a_submit (incoming_order now e symb sd ty price q) (abs_book (book_of e symb)) = (fs, a)" by fastforce
    have "submittable e symb ty price" using inv price next_id_suc(2) [OF inv k] by (simp add: submittable_def engine_inv_def)
    from submit_accepted [OF True this spec refl, of "[]"] sub cb
    have i: "i = next_order_id (book_of e symb)" "abs_book (book_of e' symb) = a"
      "ts = trades_of (\<lambda>j. now (2 + j)) 0 (sd = Buy) (next_order_id (book_of e symb)) fs" by auto
    with sub spec other rec' True show ?thesis by (auto simp: Let_def incoming_order_def abs_book_def)
  next
    case False
    from submit_rejected [OF False, of now symb sd e "[]"] sub have "i = 0" "ts = []" "book_of e' symb = book_of e symb"
      using get_order_book_same [of e' symb e] by auto
    moreover from this(3) other have "abs_book (book_of e' s) = abs_book (book_of e s)" for s by (cases "s = symb") auto
    ultimately show ?thesis using sub rec' False by simp
  qed
qed

text \<open>The statistics of the engine.\<close>

lemma count_trades: "untimed_stats (fst (fold (record_trade cb) ts (st, s))) = fold count_trade ts (untimed_stats st)"
proof (induction ts arbitrary: st s)
  case (Cons t ts)
  obtain st1 s1 where 1: "record_trade cb t (st, s) = (st1, s1)" by fastforce
  then have "untimed_stats st1 = count_trade t (untimed_stats st)" by (auto simp: record_trade_def untimed_stats_def count_trade_def)
  then show ?case using Cons.IH [of st1 s1] 1 by simp
qed simp

lemma engine_request_counts:
  assumes rec: "recording k e" and sane: "sane r" and k: "k + 1 < 2 ^ 64" and req: "engine_request r e = Some (ans, e')"
  shows "untimed_stats (stats e') = count r ans (untimed_stats (stats e))"
proof (cases r)
  case (Place now symb sd ty price q)
  have inv: "engine_inv k e" using rec by (simp add: recording_def)
  obtain i ts where sub: "submit_order now symb sd ty price q (e, []) = Some (i, e', ts)" and ans: "ans = (NewId i, ts)"
    using req by (auto simp: Place split: option.splits)
  show ?thesis
  proof (cases "accepted ty price q")
    case True
    have subm: "submittable e symb ty price"
      using inv sane next_id_suc(2) [OF inv k] by (simp add: submittable_def engine_inv_def Place)
    obtain fs a where spec: "a_submit (incoming_order now e symb sd ty price q) (abs_book (book_of e symb)) = (fs, a)" by fastforce
    have "i \<noteq> 0" using submit_accepted [OF True subm spec refl, of "[]"] sub engine_ok_book [of e symb] inv
      by (auto simp: engine_inv_def book_inv_def book_ok_def)
    moreover from submit_accepted [OF True subm spec refl, of "[]"] sub rec
    have "stats e' = record_latency (now (2 + length ts) - now 0) (fst (fold (record_trade (trade_callback e)) ts
        ((stats e)\<lparr>total_orders := total_orders (stats e) + 1\<rparr>, [])))" by (auto simp: recording_def)
    then have "untimed_stats (stats e') = untimed_stats (fst (fold (record_trade (trade_callback e)) ts
        ((stats e)\<lparr>total_orders := total_orders (stats e) + 1\<rparr>, [])))" by (simp add: untimed_stats_def record_latency_def)
    moreover have "untimed_stats ((stats e)\<lparr>total_orders := total_orders (stats e) + 1\<rparr>) =
        (untimed_stats (stats e))\<lparr>total_orders := total_orders (untimed_stats (stats e)) + 1\<rparr>"
      by (cases "stats e") (simp add: untimed_stats_def)
    ultimately show ?thesis by (simp add: Place ans count_trades)
  next
    case False
    from submit_rejected [OF False, of now symb sd e "[]"] sub show ?thesis by (auto simp: Place ans untimed_stats_def)
  qed
next
  case (Withdraw symb i)
  have "engine_ok e" using rec by (simp add: recording_def engine_inv_def)
  from engine_cancel_effect(5) [OF this, where symb = symb and i = i] req show ?thesis
    by (auto simp: Withdraw Let_def split_def untimed_stats_def)
qed

interpretation engine: exchange recording "\<lambda>e symb. abs_book (book_of e symb)" engine_request "\<lambda>e. untimed_stats (stats e)"
proof (unfold_locales, goal_cases)
  case (1 k e r)
  show ?case
  proof (cases r)
    case (Place now symb sd ty price q)
    then show ?thesis using engine_request_place [of k e ty price now symb sd q] 1 by simp
  next
    case (Withdraw symb i)
    have ok: "engine_ok e" and inv: "engine_inv k e" and cb: "trade_callback e = Some recorder"
      using 1(1) by (simp_all add: recording_def engine_inv_def)
    note effect = engine_cancel_effect [OF ok, where symb = symb and i = i]
    have "recording (k + 1) (snd (engine_cancel_order symb i e))"
      using engine_inv_mono [OF cancel_engine_inv [OF inv], of "k + 1"] effect(4) cb by (simp add: recording_def)
    moreover have "abs_book (book_of (snd (engine_cancel_order symb i e)) s) = abs_book (book_of e s)" if "s \<noteq> symb" for s
      using effect(3) [OF that] book_of_cong by metis
    ultimately show ?thesis using effect(1,2) by (auto simp: Withdraw split_def Let_def)
  qed
next
  case (2 k e r ans e')
  then show ?case by (rule engine_request_counts)
next
  case (3 k e symb)
  then have "book_ok (book_of e symb)" using engine_ok_book [of e symb] by (simp add: recording_def engine_inv_def book_inv_def)
  then show ?case using 3 by (auto simp: recording_def engine_inv_def ids_below_def abs_book_def book_ok_def word_neq_0_conv)
qed

lemma engine0_recording: "recording 1 engine0" "abs_book (book_of engine0 symb) = empty_exchange symb"
proof -
  have "engine_inv 1 engine0"
    using engine_inv_new by (simp add: engine_inv_def engine_ok_def ids_below_def book_of_eq engine0_def set_trade_callback_def)
  then show "recording 1 engine0" by (simp add: recording_def engine0_def set_trade_callback_def)
  show "abs_book (book_of engine0 symb) = empty_exchange symb"
    by (simp add: book_of_eq engine0_def set_trade_callback_def MatchingEngine_new_def empty_exchange_def abs_book_def queue_def ptrs_def
        levels_def OrderBook_new_def)
qed

lemma engine_run_requests:
  assumes "\<forall>r \<in> set rs. sane r" and "length rs + 1 < 2 ^ 64" and "run_calls spec_request rs empty_exchange = (anss, x)"
  obtains e where "run_requests engine_request rs engine0 = Some (anss, e)" "\<And>symb. abs_book (book_of e symb) = x symb"
    "engine_ok e" "untimed_stats (stats e) = count_all rs anss (untimed_stats EngineStats_init)"
proof -
  have view: "(\<lambda>symb. abs_book (book_of engine0 symb)) = empty_exchange" using engine0_recording(2) by auto
  have "1 + length rs < 2 ^ 64" using assms(2) by simp
  with engine.run_refines [OF engine0_recording(1) assms(1)] obtain e where
    e: "run_requests engine_request rs engine0 = Some (anss, e)" "(\<lambda>symb. abs_book (book_of e symb)) = x" "recording (1 + length rs) e"
    unfolding view assms(3) by auto
  moreover have "untimed_stats (stats engine0) = untimed_stats EngineStats_init"
    by (simp add: engine0_def set_trade_callback_def MatchingEngine_new_def)
  ultimately show thesis
    using that engine.run_counts [OF engine0_recording(1) assms(1) _ e(1)] assms(2) by (auto simp: recording_def engine_inv_def fun_eq_iff)
qed

section \<open>Properties\<close>

text \<open>C5. Programs over the exchange: any sequence of requests on any symbols is served to its end, with the answers and the trades of
  the same sequence on priority queues alone; it leaves the books of that sequence, and the statistics count, apart from
  latencies, what was asked and answered.\<close>

theorem exchange_programs_refine:
  assumes "\<forall>r \<in> set rs. sane r" and "length rs + 1 < 2 ^ 64"
  shows "\<exists>e. run_requests engine_request rs engine0 = Some (fst (run_calls spec_request rs empty_exchange), e)
    \<and> (\<forall>symb. abs_book (book_of e symb) = snd (run_calls spec_request rs empty_exchange) symb) \<and> engine_ok e
    \<and> untimed_stats (stats e) = count_all rs (fst (run_calls spec_request rs empty_exchange)) (untimed_stats EngineStats_init)"
  using engine_run_requests [OF assms prod.collapse [symmetric]] by metis

text \<open>C6. No order is ever filled for more than it was placed for: over any sequence of requests, on any symbols, what an accepted order has
  traded, as aggressor or resting, plus what it still has on the book is at most its quantity, and exactly its quantity
  as long as it is on the book.\<close>

theorem no_order_overfilled:
  assumes "\<forall>r \<in> set rs. sane r" and "length rs + 1 < 2 ^ 64" and "run_requests engine_request rs engine0 = Some (anss, e)"
    and "n < length rs" and "rs ! n = Place now symb sd ty price q" and "fst (anss ! n) = NewId i" and "i \<noteq> 0"
  shows "tally (traded symb i) rs anss + open_qty i (abs_book (book_of e symb)) \<le> unat q
    \<and> (i \<in> a_ids (abs_book (book_of e symb)) \<longrightarrow> tally (traded symb i) rs anss + open_qty i (abs_book (book_of e symb)) = unat q)"
proof -
  have "ledger_ok (\<lambda>_ _. 0) (\<lambda>_ _. 0) (\<lambda>symb. abs_book (book_of engine0 symb))"
    by (simp add: engine0_recording(2) ledger_ok_def balanced_def empty_exchange_def open_qty_def a_ids_def)
  from engine.order_balance [OF engine0_recording(1) assms(1) _ this assms(3-)] assms(2) show ?thesis by simp
qed

section \<open>A concrete sequence\<close>

lemmas spec_eval = empty_exchange_def a_submit_def accepted_def effective_price_def crosses_def may_rest_def enqueue_def insert_after_def
  remainder_def trade_of_def a_cancel_def a_ids_def map_sides_def Let_def

definition sample_requests :: "request list" where
  "sample_requests = [Place (\<lambda>_. 5) ''AAPL'' Sell Limit p100 10, Place (\<lambda>_. 6) ''AAPL'' Buy IOC p101 4, Place (\<lambda>_. 7) ''MSFT'' Buy Limit p101 0,
     Withdraw ''MSFT'' 1]"

lemma sample_spec:
  "run_calls spec_request sample_requests empty_exchange =
     ([(NewId 1, []), (NewId 2, [\<lparr>t_buy_order_id = 2, t_sell_order_id = 1, t_price = p100, t_quantity = 4, t_timestamp = 6\<rparr>]), (NewId 0, []), (Changed False, [])],
      empty_exchange(''AAPL'' := \<lparr>a_bids = [], a_asks = [(Order_new 5 1 Sell Limit p100 10)\<lparr>o_remaining_qty := 6\<rparr>], a_next = 3\<rparr>))"
  by (auto simp: sample_requests_def spec_eval double_cmp fun_eq_iff)

lemma sample_legal: "\<forall>r \<in> set sample_requests. sane r" "length sample_requests + 1 < 2 ^ 64"
  by (simp_all add: sample_requests_def)

theorem exchange_programs_refine_witness:
  "\<exists>anss e. run_requests engine_request sample_requests engine0 = Some (anss, e)
    \<and> map fst anss = [NewId 1, NewId 2, NewId 0, Changed False] \<and> length (concat (map snd anss)) = 1
    \<and> map o_remaining_qty (a_asks (abs_book (book_of e ''AAPL''))) = [6] \<and> total_rejects (untimed_stats (stats e)) = 1"
proof -
  note spec = exchange_programs_refine [OF sample_legal, unfolded sample_spec fst_conv snd_conv]
  then obtain anss e where e: "run_requests engine_request sample_requests engine0 = Some (anss, e)"
    "map fst anss = [NewId 1, NewId 2, NewId 0, Changed False]" "length (concat (map snd anss)) = 1"
    "abs_book (book_of e ''AAPL'') = \<lparr>a_bids = [], a_asks = [(Order_new 5 1 Sell Limit p100 10)\<lparr>o_remaining_qty := 6\<rparr>], a_next = 3\<rparr>"
    and st: "untimed_stats (stats e) = count_all sample_requests anss (untimed_stats EngineStats_init)" by auto
  from e(1) spec have "total_rejects (untimed_stats (stats e)) = 1"
    unfolding st by (auto simp: sample_requests_def count_all_def count_trade_def untimed_stats_def EngineStats_init_def Let_def
        simp del: run_requests.simps)
  with e show ?thesis by auto
qed

theorem no_order_overfilled_witness:
  "\<exists>anss e. run_requests engine_request sample_requests engine0 = Some (anss, e) \<and> fst (anss ! 0) = NewId 1
    \<and> tally (traded ''AAPL'' 1) sample_requests anss + open_qty 1 (abs_book (book_of e ''AAPL'')) \<le> unat (10 :: Quantity)"
proof (rule engine_run_requests [OF sample_legal sample_spec])
  fix e
  let ?anss = "[(NewId 1, []), (NewId 2, [\<lparr>t_buy_order_id = 2, t_sell_order_id = 1, t_price = p100, t_quantity = 4, t_timestamp = 6\<rparr>]),
    (NewId 0, []), (Changed False, [])]"
  assume run: "run_requests engine_request sample_requests engine0 = Some (?anss, e)"
  from no_order_overfilled [OF sample_legal run, of 0 "\<lambda>_. 5" "''AAPL''" Sell Limit p100 10 1] run
  show ?thesis by (fastforce simp: sample_requests_def)
qed

end
