(* ===== verification/RepositoryTests.thy ===== *)
theory RepositoryTests
  imports ExchangeInterface RiskCorrect Output
begin

text \<open>
  The repository's own unit tests of the matching engine, the risk checker and the object pool
  (\<^verbatim>\<open>tests/test_matching_engine.cpp\<close>, \<^verbatim>\<open>tests/test_risk_checker.cpp\<close>, \<^verbatim>\<open>tests/test_object_pool.cpp\<close>): each test is a
  definition, the calls and the expectations in the order of the test, and
  it is proved to pass, for every reading of the clock. The engine's books start with a hundred thousand slots, so its tests
  are evaluated on the priority queues they are proved to refine. \<^verbatim>\<open>EXPECT_DOUBLE_EQ\<close> and \<^verbatim>\<open>EXPECT_NEAR\<close>
  accept an error; the tests here ask for equality.
\<close>

section \<open>Literals\<close>

definition dollars :: "nat \<Rightarrow> Price" where
  "dollars n = dlit n 1"

lemma dollars_cmp [simp]:
  assumes "m < 2 ^ 53"
  shows "\<not> is_nan (dollars m)" and "n < 2 ^ 53 \<Longrightarrow> rank (dollars m) < rank (dollars n) \<longleftrightarrow> m < n"
    and "n < 2 ^ 53 \<Longrightarrow> rank (dollars m) \<le> rank (dollars n) \<longleftrightarrow> m \<le> n"
    and "n < 2 ^ 53 \<Longrightarrow> rank (dollars m) = rank (dollars n) \<longleftrightarrow> m = n"
  using whole_double(2) [OF assms] whole_rank [OF assms, of n] by (simp_all add: dollars_def finite_double_def)

lemma dollars_zero: "dzero = dollars 0"
  by (simp add: dollars_def whole_zero del: One_nat_def)

lemma dollars_mult: "m < 2 ^ 53 \<Longrightarrow> unat q < 2 ^ 53 \<Longrightarrow> dmul (dollars m) (of_uint q) = dollars (m * unat q)"
  by (simp add: dollars_def of_uint_dlit whole_arith(1) del: One_nat_def)

lemma dollars_add: "m < 2 ^ 53 \<Longrightarrow> n < 2 ^ 53 \<Longrightarrow> 0 < m + n \<Longrightarrow> dadd (dollars m) (dollars n) = dollars (m + n)"
  by (simp add: dollars_def whole_add del: One_nat_def)

lemma dollars_rank_zero [simp]: "rank (dollars 0) = 0"
  by (simp add: rank_def dzero_def flip: dollars_zero)

lemma dollars_rank [simp]:
  assumes "m < 2 ^ 53"
  shows "rank (dollars m) \<le> 0 \<longleftrightarrow> m = 0" and "0 < rank (dollars m) \<longleftrightarrow> 0 < m"
    and "0 \<le> rank (dollars m)" and "rank (dollars m) \<le> 0x7FEFFFFFFFFFFFFF"
proof -
  show "rank (dollars m) \<le> 0 \<longleftrightarrow> m = 0" "0 < rank (dollars m) \<longleftrightarrow> 0 < m"
    using dollars_cmp(3) [OF assms, of 0] dollars_cmp(2) [of 0 m] assms by simp_all
  then show "0 \<le> rank (dollars m)" by (cases "m = 0") simp_all
  show "rank (dollars m) \<le> 0x7FEFFFFFFFFFFFFF"
    using whole_double(2) [OF assms]
    by (simp add: dollars_def rank_def finite_double_def is_nan_def is_inf_def inf_mag_def word_less_def word_uint_eq_iff)
qed

lemma dollars_neg [simp]:
  "is_nan (dneg (dollars m)) \<longleftrightarrow> is_nan (dollars m)" "rank (dneg (dollars m)) = - rank (dollars m)"
  by (simp_all add: is_nan_def dneg_def rank_def)

section \<open>Tests of the matching engine\<close>

text \<open>The fixture: a new engine whose callback collects the trades. A test makes requests and then looks at the answers,
  the trades and the engine.\<close>

definition engine_test :: "request list \<Rightarrow> (answer list \<Rightarrow> Trade list \<Rightarrow> Trade list MatchingEngine \<Rightarrow> bool) \<Rightarrow> bool" where
  "engine_test rs expect = (case run_requests engine_request rs engine0 of
     None \<Rightarrow> False | Some (anss, e) \<Rightarrow> expect (map fst anss) (concat (map snd anss)) e)"

definition count_of :: "Trade list MatchingEngine \<Rightarrow> string \<Rightarrow> nat" where
  "count_of e symb = order_count (fst (get_order_book symb e))"

definition asks_of :: "Trade list MatchingEngine \<Rightarrow> string \<Rightarrow> Quantity" where
  "asks_of e symb = total_ask_quantity (fst (get_order_book symb e))"

abbreviation buy :: "clock \<Rightarrow> OrderType \<Rightarrow> Price \<Rightarrow> Quantity \<Rightarrow> request" where
  "buy now \<equiv> Place now ''AAPL'' Buy"

abbreviation sell :: "clock \<Rightarrow> OrderType \<Rightarrow> Price \<Rightarrow> Quantity \<Rightarrow> request" where
  "sell now \<equiv> Place now ''AAPL'' Sell"

definition no_match_when_book_is_empty :: "(nat \<Rightarrow> clock) \<Rightarrow> bool" where
  "no_match_when_book_is_empty c = engine_test [buy (c 0) Limit (dollars 100) 50]
     (\<lambda>_ trades e. length trades = 0 \<and> count_of e ''AAPL'' = 1)"

definition exact_price_match :: "(nat \<Rightarrow> clock) \<Rightarrow> bool" where
  "exact_price_match c = engine_test [sell (c 0) Limit (dollars 100) 50, buy (c 1) Limit (dollars 100) 50]
     (\<lambda>_ trades e. map t_price trades = [dollars 100] \<and> map t_quantity trades = [50] \<and> count_of e ''AAPL'' = 0)"

definition buyer_gets_price_improvement :: "(nat \<Rightarrow> clock) \<Rightarrow> bool" where
  "buyer_gets_price_improvement c = engine_test [sell (c 0) Limit (dollars 99) 50, buy (c 1) Limit (dollars 101) 50]
     (\<lambda>_ trades e. map t_price trades = [dollars 99])"

definition partial_fill :: "(nat \<Rightarrow> clock) \<Rightarrow> bool" where
  "partial_fill c = engine_test [sell (c 0) Limit (dollars 100) 100, buy (c 1) Limit (dollars 100) 30]
     (\<lambda>_ trades e. map t_quantity trades = [30] \<and> count_of e ''AAPL'' = 1 \<and> asks_of e ''AAPL'' = 70)"

definition sweep_multiple_price_levels :: "(nat \<Rightarrow> clock) \<Rightarrow> bool" where
  "sweep_multiple_price_levels c = engine_test
     [sell (c 0) Limit (dollars 100) 30, sell (c 1) Limit (dollars 101) 30, sell (c 2) Limit (dollars 102) 30, buy (c 3) Limit (dollars 102) 80]
     (\<lambda>_ trades e. map t_price trades = [dollars 100, dollars 101, dollars 102] \<and> map t_quantity trades = [30, 30, 20] \<and> asks_of e ''AAPL'' = 10)"

definition time_priority_at_same_price :: "(nat \<Rightarrow> clock) \<Rightarrow> bool" where
  "time_priority_at_same_price c = engine_test
     [sell (c 0) Limit (dollars 100) 50, sell (c 1) Limit (dollars 100) 50, buy (c 2) Limit (dollars 100) 50]
     (\<lambda>ids trades e. map (NewId \<circ> t_sell_order_id) trades = [ids ! 0] \<and> count_of e ''AAPL'' = 1)"

definition market_buy_fills_immediately :: "(nat \<Rightarrow> clock) \<Rightarrow> bool" where
  "market_buy_fills_immediately c = engine_test [sell (c 0) Limit (dollars 100) 50, buy (c 1) Market dzero 30]
     (\<lambda>_ trades e. map t_price trades = [dollars 100] \<and> map t_quantity trades = [30])"

definition market_order_cancelled_when_no_liquidity :: "(nat \<Rightarrow> clock) \<Rightarrow> bool" where
  "market_order_cancelled_when_no_liquidity c = engine_test [buy (c 0) Market dzero 50]
     (\<lambda>_ trades e. length trades = 0 \<and> count_of e ''AAPL'' = 0)"

definition ioc_fills_and_cancels_remainder :: "(nat \<Rightarrow> clock) \<Rightarrow> bool" where
  "ioc_fills_and_cancels_remainder c = engine_test [sell (c 0) Limit (dollars 100) 30, buy (c 1) IOC (dollars 100) 50]
     (\<lambda>_ trades e. map t_quantity trades = [30] \<and> count_of e ''AAPL'' = 0)"

text \<open>The id that is cancelled is the answer to the first submission, 1 in a new book.\<close>

definition cancel_prevents_match :: "(nat \<Rightarrow> clock) \<Rightarrow> bool" where
  "cancel_prevents_match c = engine_test [sell (c 0) Limit (dollars 100) 50, Withdraw ''AAPL'' 1, buy (c 1) Limit (dollars 100) 50]
     (\<lambda>ids trades e. ids ! 0 = NewId 1 \<and> ids ! 1 = Changed True \<and> length trades = 0)"

definition rejects_zero_quantity :: "(nat \<Rightarrow> clock) \<Rightarrow> bool" where
  "rejects_zero_quantity c = engine_test [buy (c 0) Limit (dollars 100) 0]
     (\<lambda>ids trades e. ids = [NewId 0] \<and> total_rejects (stats e) = 1)"

definition rejects_negative_price_limit :: "(nat \<Rightarrow> clock) \<Rightarrow> bool" where
  "rejects_negative_price_limit c = engine_test [buy (c 0) Limit (dneg (dollars 5)) 100]
     (\<lambda>ids trades e. ids = [NewId 0] \<and> total_rejects (stats e) = 1)"

definition different_symbols_dont_match :: "(nat \<Rightarrow> clock) \<Rightarrow> bool" where
  "different_symbols_dont_match c = engine_test [sell (c 0) Limit (dollars 100) 50, Place (c 1) ''GOOG'' Buy Limit (dollars 100) 50]
     (\<lambda>_ trades e. length trades = 0 \<and> count_of e ''AAPL'' = 1 \<and> count_of e ''GOOG'' = 1)"

text \<open>The test also expects a positive average latency; that depends on the clock alone, and is left out.\<close>

definition stats_tracking :: "(nat \<Rightarrow> clock) \<Rightarrow> bool" where
  "stats_tracking c = engine_test [sell (c 0) Limit (dollars 100) 50, buy (c 1) Limit (dollars 100) 50]
     (\<lambda>_ trades e. total_orders (stats e) = 2 \<and> total_trades (stats e) = 1 \<and> total_volume (stats e) = 50
        \<and> total_notional (stats e) = dollars 5000)"

definition counters_of :: "EngineStats \<Rightarrow> uint64 \<times> uint64 \<times> uint64 \<times> uint64 \<times> double" where
  "counters_of st = (total_orders st, total_trades st, total_rejects st, total_volume st, total_notional st)"

lemma counters_untimed [simp]: "counters_of (untimed_stats st) = counters_of st"
  by (simp add: counters_of_def untimed_stats_def)

lemmas test_eval = spec_eval double_cmp side_rank_def count_all_def count_trade_def untimed_stats_def EngineStats_init_def counters_of_def

lemma engine_testI:
  assumes legal: "\<forall>r \<in> set rs. sane r" "length rs + 1 < 2 ^ 64"
    and expect: "\<And>e. let (anss, x) = run_calls spec_request rs empty_exchange
      in (\<forall>symb. count_of e symb = length (a_bids (x symb)) + length (a_asks (x symb))) \<longrightarrow>
         (\<forall>symb. asks_of e symb = (\<Sum>ord \<leftarrow> a_asks (x symb). o_remaining_qty ord)) \<longrightarrow>
         counters_of (stats e) = counters_of (count_all rs anss (untimed_stats EngineStats_init)) \<longrightarrow> P (map fst anss) (concat (map snd anss)) e"
  shows "engine_test rs P"
proof -
  obtain anss x where run: "run_calls spec_request rs empty_exchange = (anss, x)" by fastforce
  show ?thesis
  proof (rule engine_run_requests [OF legal run])
    fix e
    assume e: "run_requests engine_request rs engine0 = Some (anss, e)" "\<And>symb. abs_book (book_of e symb) = x symb" "engine_ok e"
      "untimed_stats (stats e) = count_all rs anss (untimed_stats EngineStats_init)"
    have sides: "a_bids (x symb) = queue True (book_of e symb)" "a_asks (x symb) = queue False (book_of e symb)" for symb
      unfolding e(2) [symmetric] by (simp_all add: abs_book_def)
    have "book_ok (book_of e symb)" for symb using engine_ok_book [OF e(3)] by (simp add: book_inv_def)
    then have "count_of e symb = length (a_bids (x symb)) + length (a_asks (x symb))" for symb
      using order_count_live(2) by (simp add: count_of_def book_of_def sides)
    moreover have "asks_of e symb = (\<Sum>ord \<leftarrow> a_asks (x symb). o_remaining_qty ord)" for symb
      unfolding asks_of_def total_ask_quantity_def total_quantity sides by (simp add: queue_def ptrs_def levels_def comp_def book_of_def)
    moreover have "counters_of (stats e) = counters_of (count_all rs anss (untimed_stats EngineStats_init))"
      using arg_cong [OF e(4), of counters_of] by simp
    ultimately show ?thesis using expect [of e] e(1) by (simp add: engine_test_def run)
  qed
qed

lemma no_match_when_book_is_empty_passes: "no_match_when_book_is_empty c"
  unfolding no_match_when_book_is_empty_def by (rule engine_testI) (simp_all add: test_eval)

lemma exact_price_match_passes: "exact_price_match c"
  unfolding exact_price_match_def by (rule engine_testI) (simp_all add: test_eval)

lemma buyer_gets_price_improvement_passes: "buyer_gets_price_improvement c"
  unfolding buyer_gets_price_improvement_def by (rule engine_testI) (simp_all add: test_eval)

lemma partial_fill_passes: "partial_fill c"
  unfolding partial_fill_def by (rule engine_testI) (simp_all add: test_eval)

lemma sweep_multiple_price_levels_passes: "sweep_multiple_price_levels c"
  unfolding sweep_multiple_price_levels_def by (rule engine_testI) (simp_all add: test_eval)

lemma time_priority_at_same_price_passes: "time_priority_at_same_price c"
  unfolding time_priority_at_same_price_def by (rule engine_testI) (simp_all add: test_eval)

lemma market_buy_fills_immediately_passes: "market_buy_fills_immediately c"
  unfolding market_buy_fills_immediately_def by (rule engine_testI) (simp_all add: test_eval)

lemma market_order_cancelled_when_no_liquidity_passes: "market_order_cancelled_when_no_liquidity c"
  unfolding market_order_cancelled_when_no_liquidity_def by (rule engine_testI) (simp_all add: test_eval)

lemma ioc_fills_and_cancels_remainder_passes: "ioc_fills_and_cancels_remainder c"
  unfolding ioc_fills_and_cancels_remainder_def by (rule engine_testI) (simp_all add: test_eval)

lemma cancel_prevents_match_passes: "cancel_prevents_match c"
  unfolding cancel_prevents_match_def by (rule engine_testI) (simp_all add: test_eval)

lemma rejects_zero_quantity_passes: "rejects_zero_quantity c"
  unfolding rejects_zero_quantity_def by (rule engine_testI) (simp_all add: test_eval)

lemma rejects_negative_price_limit_passes: "rejects_negative_price_limit c"
  unfolding rejects_negative_price_limit_def by (rule engine_testI) (simp_all add: test_eval)

lemma different_symbols_dont_match_passes: "different_symbols_dont_match c"
  unfolding different_symbols_dont_match_def by (rule engine_testI) (simp_all add: test_eval)

lemma stats_tracking_passes: "stats_tracking c"
  unfolding stats_tracking_def by (rule engine_testI) (simp_all add: test_eval dollars_zero dollars_mult dollars_add)

text \<open>The matching engine passes the fourteen tests of its suite (no match on an empty book, exact and improved prices, partial
  fills, a sweep over three levels, time priority, market and IOC orders, cancels, refusals, symbols kept apart and statistics),
  whatever the clocks of the calls read.\<close>

theorem engine_tests_pass:
  "no_match_when_book_is_empty c \<and> exact_price_match c \<and> buyer_gets_price_improvement c
   \<and> partial_fill c \<and> sweep_multiple_price_levels c \<and> time_priority_at_same_price c
   \<and> market_buy_fills_immediately c \<and> market_order_cancelled_when_no_liquidity c \<and> ioc_fills_and_cancels_remainder c
   \<and> cancel_prevents_match c \<and> rejects_zero_quantity c \<and> rejects_negative_price_limit c \<and> different_symbols_dont_match c \<and> stats_tracking c"
  by (intro conjI) (rule no_match_when_book_is_empty_passes
    exact_price_match_passes
    buyer_gets_price_improvement_passes
    partial_fill_passes
    sweep_multiple_price_levels_passes
    time_priority_at_same_price_passes
    market_buy_fills_immediately_passes
    market_order_cancelled_when_no_liquidity_passes
    ioc_fills_and_cancels_remainder_passes
    cancel_prevents_match_passes
    rejects_zero_quantity_passes
    rejects_negative_price_limit_passes
    different_symbols_dont_match_passes
    stats_tracking_passes)+

section \<open>Tests of the risk checker\<close>

definition tight_limits :: RiskLimits where
  "tight_limits = \<lparr>max_order_quantity = 1000, max_order_notional = dollars 100000, max_position_abs = 5000,
     max_notional_exposure = dollars 500000\<rparr>"

definition rc :: RiskChecker where
  "rc = RiskChecker_new tight_limits"

abbreviation check_buy :: "OrderType \<Rightarrow> Price \<Rightarrow> Quantity \<Rightarrow> RiskChecker \<Rightarrow> RejectReason \<times> RiskChecker" where
  "check_buy \<equiv> check ''AAPL'' Buy"

definition accepts_valid_limit_order :: bool where
  "accepts_valid_limit_order = (let (r, c) = check_buy Limit (dollars 150) 100 rc in r = NoReason \<and> total_passes (risk_stats c) = 1)"

definition risk_rejects_zero_quantity :: bool where
  "risk_rejects_zero_quantity \<longleftrightarrow> fst (check_buy Limit (dollars 150) 0 rc) = InvalidQuantity"

definition rejects_quantity_above_max :: bool where
  "rejects_quantity_above_max \<longleftrightarrow> fst (check_buy Limit (dollars 150) 2000 rc) = MaxOrderQuantityExceeded"

definition rejects_negative_limit_price :: bool where
  "rejects_negative_limit_price \<longleftrightarrow> fst (check ''AAPL'' Sell Limit (dneg (dollars 1)) 100 rc) = InvalidPrice"

definition allows_market_order_without_price :: bool where
  "allows_market_order_without_price \<longleftrightarrow> fst (check_buy Market dzero 100 rc) = NoReason"

definition rejects_notional_above_max :: bool where
  "rejects_notional_above_max \<longleftrightarrow> fst (check_buy Limit (dollars 200) 1000 rc) = MaxOrderNotionalExceeded"

definition rejects_position_above_max :: bool where
  "rejects_position_above_max = (let c = on_fill ''AAPL'' Buy (dollars 150) 4500 rc
     in position ''AAPL'' c = 4500 \<and> fst (check_buy Limit (dollars 150) 600 c) = MaxPositionExceeded)"

definition kill_switch_rejects_everything :: bool where
  "kill_switch_rejects_everything =
     (let c1 = engage_kill_switch rc; (r2, c2) = check_buy Limit (dollars 150) 100 c1; c3 = disengage_kill_switch c2
      in is_killed c1 \<and> r2 = KillSwitchActive \<and> \<not> is_killed c3 \<and> fst (check_buy Limit (dollars 150) 100 c3) = NoReason)"

definition on_fill_updates_positions_correctly :: bool where
  "on_fill_updates_positions_correctly =
     (let c = on_fill ''AAPL'' Sell (dollars 152) 30 (on_fill ''AAPL'' Buy (dollars 151) 50 (on_fill ''AAPL'' Buy (dollars 150) 100 rc))
      in position ''AAPL'' c = 120 \<and> position ''MSFT'' c = 0)"

definition notional_exposure_accumulates :: bool where
  "notional_exposure_accumulates =
     (let c1 = on_fill ''AAPL'' Buy (dollars 150) 100 rc; c2 = on_fill ''MSFT'' Buy (dollars 420) 50 c1
      in current_notional_exposure c1 = dollars 15000 \<and> current_notional_exposure c2 = dadd (dollars 15000) (dollars 21000))"

definition stats_breakdown_by_reason :: bool where
  "stats_breakdown_by_reason =
     (let c1 = snd (check_buy Limit (dollars 150) 100 rc); c2 = snd (check_buy Limit (dollars 150) 0 c1);
          c3 = snd (check_buy Limit (dollars 150) 2000 c2); c4 = snd (check_buy Limit (dollars 150) 100 (engage_kill_switch c3));
          st = risk_stats c4
      in total_checks st = 4 \<and> total_passes st = 1 \<and> total_rejections st = 3 \<and> by_reason st ! reason_index InvalidQuantity = 1
         \<and> by_reason st ! reason_index MaxOrderQuantityExceeded = 1 \<and> by_reason st ! reason_index KillSwitchActive = 1)"

lemmas risk_eval = rc_def tight_limits_def RiskChecker_new_def RiskStats_init_def check_def reject_def record_pass_def record_reject_def
  position_def position_delta_def long_abs_def on_fill_def engage_kill_switch_def disengage_kill_switch_def is_killed_def
  double_cmp dollars_zero dollars_mult dollars_add Let_def

lemma accepts_valid_limit_order_passes: "accepts_valid_limit_order"
  by (simp add: accepts_valid_limit_order_def risk_eval)

lemma risk_rejects_zero_quantity_passes: "risk_rejects_zero_quantity"
  by (simp add: risk_rejects_zero_quantity_def risk_eval)

lemma rejects_quantity_above_max_passes: "rejects_quantity_above_max"
  by (simp add: rejects_quantity_above_max_def risk_eval)

lemma rejects_negative_limit_price_passes: "rejects_negative_limit_price"
  by (simp add: rejects_negative_limit_price_def risk_eval del: One_nat_def)

lemma allows_market_order_without_price_passes: "allows_market_order_without_price"
  by (simp add: allows_market_order_without_price_def risk_eval)

lemma rejects_notional_above_max_passes: "rejects_notional_above_max"
  by (simp add: rejects_notional_above_max_def risk_eval)

lemma rejects_position_above_max_passes: "rejects_position_above_max"
  by (simp add: rejects_position_above_max_def risk_eval)

lemma kill_switch_rejects_everything_passes: "kill_switch_rejects_everything"
  by (simp add: kill_switch_rejects_everything_def risk_eval)

lemma on_fill_updates_positions_correctly_passes: "on_fill_updates_positions_correctly"
  by (simp add: on_fill_updates_positions_correctly_def risk_eval)

lemma notional_exposure_accumulates_passes: "notional_exposure_accumulates"
  by (simp add: notional_exposure_accumulates_def risk_eval)

lemma stats_breakdown_by_reason_passes: "stats_breakdown_by_reason"
  by (simp add: stats_breakdown_by_reason_def risk_eval)

section \<open>Tests of the object pool\<close>

definition preallocates_requested_capacity :: bool where
  "preallocates_requested_capacity = (let pool = pool_new Order_zero 16 in capacity pool = 16 \<and> active_count pool = 0)"

definition acquire_and_release_track_active_count :: bool where
  "acquire_and_release_track_active_count =
     (let p0 = pool_new Order_zero 4; (a, p1) = acquire Order_zero p0; (b, p2) = acquire Order_zero p1;
          p3 = release a p2; p4 = release b p3
      in active_count p2 = 2 \<and> active_count p3 = 1 \<and> active_count p4 = 0)"

definition released_objects_are_recycled :: bool where
  "released_objects_are_recycled =
     (let p0 = pool_new Order_zero 2; (a, p1) = acquire Order_zero p0; p2 = release a p1; (b, p3) = acquire Order_zero p2
      in a = b \<and> capacity p3 = 2)"

text \<open>The loops of the growth test: an object is acquired, its id is set and the pointer is kept, for every id of a list.\<close>

fun hold :: "OrderId list \<Rightarrow> Order ObjectPool \<Rightarrow> pointer list \<times> Order ObjectPool" where
  "hold [] pool = ([], pool)"
| "hold (i # is) pool =
     (let (ptr, p1) = acquire Order_zero pool; p2 = store ptr ((deref p1 ptr)\<lparr>o_id := i\<rparr>) p1; (held, p3) = hold is p2
      in (ptr # held, p3))"

definition growth_does_not_invalidate_pointers :: bool where
  "growth_does_not_invalidate_pointers =
     (let ids = [1, 2, 3, 4, 5, 6, 7, 8]; (held, pool) = hold (ids @ replicate 32 9999) (pool_new Order_zero 8)
      in map (\<lambda>ptr. o_id (deref pool ptr)) (take 8 held) = ids \<and> capacity pool = 40 \<and> active_count pool = 40)"

lemma pool_tests_pass:
  "preallocates_requested_capacity" "acquire_and_release_track_active_count" "released_objects_are_recycled"
  "growth_does_not_invalidate_pointers"
  by code_simp+

end
